(* ===== verification/Lite_Prelude.thy ===== *)
theory Lite_Prelude
  imports Main "HOL-Library.Word" "HOL-Library.List_Lexorder" "HOL-Library.AList"
    "HOL-Library.Sublist"
begin

text \<open>
  The prelude of the NodeDB Lite development: the machine types, the byte order and the
  integer codecs of Rust's standard library that the sources use, hash maps as association
  lists with distinct keys, results as sums, and the generic list lemmas the component
  theories share.

  Conventions of the whole development.
  \<^item> \<open>u64\<close>, \<open>u32\<close> and \<open>u8\<close> are words: \<open>+\<close> and \<open>*\<close> wrap, as Rust's release profile does;
    where the source writes \<open>checked_\<close>, \<open>saturating_\<close> or \<open>wrapping_\<close> arithmetic the
    model writes the same operation. \<open>usize\<close> lengths and limits are natural numbers,
    with \<open>usize_max\<close> where the source writes \<open>usize::MAX\<close>.
  \<^item> A Rust \<open>String\<close> is a list of characters that stand for its UTF-8 bytes.
  \<^item> A \<open>HashMap\<close> is an association list with distinct keys. Its order is the iteration
    order of the map, which Rust leaves open: every theorem quantifies over the list.
  \<^item> \<open>Result<T, E>\<close> is a sum with the error on the left.
  \<^item> \<open>Instant\<close> and \<open>Duration\<close> are natural numbers of nanoseconds; \<open>Instant::now()\<close> and
    \<open>now_millis()\<close> are arguments of the operations that read a clock.
\<close>

subsection \<open>Named collections\<close>

named_theorems codec_simps \<open>round trips and lengths of byte and text codecs\<close>
named_theorems result_simps \<open>case rules for results\<close>
named_theorems hmap_simps \<open>look-up laws of hash maps\<close>

subsection \<open>Machine types\<close>

type_synonym u8 = "8 word"
type_synonym u32 = "32 word"
type_synonym u64 = "64 word"
type_synonym bytes = "u8 list"
type_synonym usize = nat
type_synonym instant = nat
type_synonym duration = nat
type_synonym ('e, 'a) result = "'e + 'a"

definition usize_max :: usize where
  "usize_max = 2 ^ 64 - 1"

definition usize_sat_add :: "usize \<Rightarrow> usize \<Rightarrow> usize" where
  "usize_sat_add a b = min (a + b) usize_max"

definition usize_sat_mul :: "usize \<Rightarrow> usize \<Rightarrow> usize" where
  "usize_sat_mul a b = min (a * b) usize_max"

definition usize_checked_add :: "usize \<Rightarrow> usize \<Rightarrow> usize option" where
  "usize_checked_add a b = (if a + b \<le> usize_max then Some (a + b) else None)"

definition u64_max :: u64 where
  "u64_max = - 1"

definition u64_checked_add :: "u64 \<Rightarrow> u64 \<Rightarrow> u64 option" where
  "u64_checked_add a b = (if unat a + unat b < 2 ^ 64 then Some (a + b) else None)"

definition u64_sat_sub :: "u64 \<Rightarrow> u64 \<Rightarrow> u64" where
  "u64_sat_sub a b = (if b \<le> a then a - b else 0)"

definition u64_sat_add :: "u64 \<Rightarrow> u64 \<Rightarrow> u64" where
  "u64_sat_add a b = (if unat a + unat b < 2 ^ 64 then a + b else u64_max)"

definition u64_sat_pow2 :: "nat \<Rightarrow> u64" where
  "u64_sat_pow2 n = (if n < 64 then 2 ^ n else u64_max)"

definition as_millis :: "duration \<Rightarrow> nat" where
  "as_millis d = d div 1000000"

definition from_secs :: "nat \<Rightarrow> duration" where
  "from_secs s = s * 1000000000"

lemma unat_lt_2p64 [simp]: "unat (w :: u64) < 18446744073709551616"
  using unsigned_less [of w, where ?'a = nat] by simp

lemma unat_u8_lt [simp]: "unat (b :: u8) < 256"
  using unsigned_less [of b, where ?'a = nat] by simp

lemma unat_u64_max: "unat u64_max = 18446744073709551615"
  by (simp add: u64_max_def unsigned_minus_1_eq_mask mask_eq_exp_minus_1)

lemma u64_succ_gt:
  fixes x :: u64
  assumes "x \<noteq> u64_max"
  shows "x < x + 1" "unat (x + 1) = unat x + 1"
proof -
  have "unat x \<noteq> unat u64_max"
    using assms by (simp add: word_unat_eq_iff)
  then have b: "unat x + 1 < 2 ^ 64"
    using unat_lt_2p64 [of x] by (simp add: unat_u64_max del: unat_lt_2p64)
  then show u: "unat (x + 1) = unat x + 1"
    by (simp add: unat_word_ariths)
  show "x < x + 1"
    by (simp add: word_less_nat_alt u)
qed

lemma u64_checked_add_one_None [simp]: "u64_checked_add x 1 = None \<longleftrightarrow> x = u64_max"
  using unat_lt_2p64 [of x]
  by (auto simp: u64_checked_add_def unat_u64_max word_unat_eq_iff simp del: unat_lt_2p64)

lemma u64_checked_add_one_Some:
  "u64_checked_add x 1 = Some y \<longleftrightarrow> x \<noteq> u64_max \<and> y = x + 1"
  using u64_checked_add_one_None [of x]
  by (auto simp: u64_checked_add_def split: if_splits)

subsection \<open>Results\<close>

definition is_ok :: "('e, 'a) result \<Rightarrow> bool" where
  "is_ok r = (case r of Inl _ \<Rightarrow> False | Inr _ \<Rightarrow> True)"

lemma is_ok_simps [simp, result_simps]: "is_ok (Inr x)" "\<not> is_ok (Inl e)"
  by (simp_all add: is_ok_def)

lemma is_ok_iff: "is_ok r \<longleftrightarrow> (\<exists>x. r = Inr x)"
  by (cases r) simp_all

text \<open>The question-mark operator and \<open>map_err\<close>.\<close>

fun rbind :: "('e, 'a) result \<Rightarrow> ('a \<Rightarrow> ('e, 'b) result) \<Rightarrow> ('e, 'b) result" where
  "rbind (Inl e) f = Inl e"
| "rbind (Inr x) f = f x"

fun map_err :: "('e \<Rightarrow> 'e2) \<Rightarrow> ('e, 'a) result \<Rightarrow> ('e2, 'a) result" where
  "map_err f (Inl e) = Inl (f e)"
| "map_err f (Inr x) = Inr x"

lemma rbind_Inr_iff [simp, result_simps]:
  "rbind r f = Inr y \<longleftrightarrow> (\<exists>x. r = Inr x \<and> f x = Inr y)"
  by (cases r) simp_all

lemma map_err_Inr_iff [simp, result_simps]: "map_err f r = Inr y \<longleftrightarrow> r = Inr y"
  by (cases r) simp_all

lemma map_err_Inl_iff: "map_err f r = Inl e \<longleftrightarrow> (\<exists>e'. r = Inl e' \<and> e = f e')"
  by (cases r) auto

text \<open>Mapping a fallible function over a list, stopping at the first error:
  \<open>iter().map(f).collect::<Result<Vec<_>, _>>()\<close>.\<close>

fun collect_results :: "('a \<Rightarrow> ('e, 'b) result) \<Rightarrow> 'a list \<Rightarrow> ('e, 'b list) result" where
  "collect_results f [] = Inr []"
| "collect_results f (x # xs) =
     (case f x of
        Inl e \<Rightarrow> Inl e
      | Inr y \<Rightarrow> (case collect_results f xs of Inl e \<Rightarrow> Inl e | Inr ys \<Rightarrow> Inr (y # ys)))"

lemma collect_results_all_ok:
  "(\<And>x. x \<in> set xs \<Longrightarrow> f x = Inr (g x)) \<Longrightarrow> collect_results f xs = Inr (map g xs)"
  by (induction xs) simp_all

lemma collect_results_Inr_length: "collect_results f xs = Inr ys \<Longrightarrow> length ys = length xs"
  by (induction xs arbitrary: ys) (auto split: sum.splits)

subsection \<open>Ordered look-ups in finite maps\<close>

text \<open>The rows of a finite map whose keys satisfy a predicate, in key order: what a
  B+ tree cursor yields.\<close>

definition entries_where :: "('k::linorder \<Rightarrow> bool) \<Rightarrow> ('k \<rightharpoonup> 'v) \<Rightarrow> ('k \<times> 'v) list" where
  "entries_where P m = map (\<lambda>k. (k, the (m k))) (sorted_list_of_set {k \<in> dom m. P k})"

lemma sorted_list_of_set_strict_image:
  fixes f :: "'a::linorder \<Rightarrow> 'b::linorder"
  assumes "finite A" "\<And>x y. x \<in> A \<Longrightarrow> y \<in> A \<Longrightarrow> x < y \<Longrightarrow> f x < f y"
  shows "sorted_list_of_set (f ` A) = map f (sorted_list_of_set A)"
proof -
  have inj: "inj_on f A"
    by (rule inj_onI) (metis assms(2) less_irrefl linorder_less_linear)
  have "sorted_wrt (<) (map f (sorted_list_of_set A))"
    unfolding sorted_wrt_map
    using assms by (intro sorted_wrt_mono_rel [OF _ strict_sorted_list_of_set]) auto
  then show ?thesis
    using assms(1) inj by (simp add: sorted_list_of_set_unique [symmetric] card_image)
qed

lemma entries_where_set:
  assumes "finite (dom m)"
  shows "set (entries_where P m) = {(k, v). m k = Some v \<and> P k}"
  using assms by (auto simp: entries_where_def image_iff)

lemma entries_where_keys:
  "map fst (entries_where P m) = sorted_list_of_set {k \<in> dom m. P k}"
  by (simp add: entries_where_def comp_def)

lemma entries_where_sorted: "sorted_wrt (<) (map fst (entries_where P m))"
  by (simp add: entries_where_keys)

lemma entries_where_distinct: "distinct (map fst (entries_where P m))"
  by (simp add: entries_where_keys)

lemma entries_where_length:
  "finite (dom m) \<Longrightarrow> length (entries_where P m) = card {k \<in> dom m. P k}"
  by (simp add: entries_where_def)

lemma entries_where_length_le:
  "finite (dom m) \<Longrightarrow> length (entries_where P m) \<le> card (dom m)"
  by (simp add: entries_where_length card_mono)

lemma entries_where_filter:
  "finite (dom m) \<Longrightarrow> entries_where (\<lambda>k. P k \<and> Q k) m = filter (\<lambda>kv. Q (fst kv)) (entries_where P m)"
proof -
  assume fin: "finite (dom m)"
  have "sorted_list_of_set {k \<in> dom m. P k \<and> Q k} = filter Q (sorted_list_of_set {k \<in> dom m. P k})"
    using fin by (intro sorted_distinct_set_unique) (auto intro: sorted_wrt_filter)
  then show ?thesis
    by (simp add: entries_where_def filter_map comp_def)
qed

text \<open>After the last row of an initial part, the rest of an ordered look-up is what
  follows: the fact behind resuming a scan from a cursor.\<close>

lemma entries_where_resume:
  assumes "finite (dom m)" "prefix es (entries_where P m)" "es \<noteq> []"
  shows "entries_where P m = es @ entries_where (\<lambda>k. P k \<and> fst (last es) < k) m"
proof -
  obtain rest where rest: "entries_where P m = es @ rest"
    using assms(2) by (rule prefixE)
  have s: "sorted_wrt (<) (map fst es @ map fst rest)"
    using entries_where_sorted [of P m] by (simp add: rest)
  obtain ys y where es: "es = ys @ [y]"
    using assms(3) by (cases es rule: rev_cases) auto
  have 1: "filter (\<lambda>kv. fst (last es) < fst kv) es = []"
    using s by (auto simp: es sorted_wrt_append filter_empty_conv not_less order.strict_iff_order)
  have 2: "filter (\<lambda>kv. fst (last es) < fst kv) rest = rest"
    using s by (intro filter_True) (auto simp: es sorted_wrt_append)
  show ?thesis
    by (simp add: entries_where_filter [OF assms(1)] rest 1 2)
qed

lemma sorted_wrt_less_le_last:
  "sorted_wrt (<) xs \<Longrightarrow> x \<in> set xs \<Longrightarrow> x \<le> last (xs :: 'a::linorder list)"
  by (cases xs rule: rev_cases) (auto simp: sorted_wrt_append less_imp_le)

lemma entries_where_le_last:
  assumes "finite (dom m)" "k \<in> dom m" "P k"
  shows "k \<le> fst (last (entries_where P m))"
proof -
  have "k \<in> set (map fst (entries_where P m))"
    using assms by (simp add: entries_where_keys)
  then show ?thesis
    using sorted_wrt_less_le_last [OF entries_where_sorted] by (metis last_map list.map_disc_iff set_empty2 empty_iff)
qed

lemma entries_where_all:
  "entries_where (\<lambda>_. True) m = map (\<lambda>k. (k, the (m k))) (sorted_list_of_set (dom m))"
  by (simp add: entries_where_def)

lemma entries_where_insert_max:
  assumes "finite (dom m)" "\<And>k. k \<in> dom m \<Longrightarrow> k < x"
  shows "entries_where (\<lambda>_. True) (m(x \<mapsto> v)) = entries_where (\<lambda>_. True) m @ [(x, v)]"
proof -
  have x: "x \<notin> dom m"
    using assms(2) by blast
  have "sorted_wrt (<) (sorted_list_of_set (dom m) @ [x])"
    using assms by (simp add: sorted_wrt_append)
  then have "sorted_list_of_set (dom (m(x \<mapsto> v))) = sorted_list_of_set (dom m) @ [x]"
    using assms(1) x by (intro sorted_list_of_set_unique [THEN iffD1]) auto
  moreover have "map (\<lambda>k. (k, the ((m(x \<mapsto> v)) k))) (sorted_list_of_set (dom m))
      = map (\<lambda>k. (k, the (m k))) (sorted_list_of_set (dom m))"
    using assms(1) x by (intro map_cong) auto
  ultimately show ?thesis
    unfolding entries_where_all by simp
qed

lemma entries_where_remove:
  assumes "finite (dom m)"
  shows "entries_where (\<lambda>_. True) (\<lambda>k. if k \<in> A then None else m k)
       = filter (\<lambda>kv. fst kv \<notin> A) (entries_where (\<lambda>_. True) m)"
proof -
  have d: "dom (\<lambda>k. if k \<in> A then None else m k) = {k \<in> dom m. True \<and> k \<notin> A}"
    by (auto split: if_splits)
  have "entries_where (\<lambda>_. True) (\<lambda>k. if k \<in> A then None else m k)
      = entries_where (\<lambda>k. True \<and> k \<notin> A) m"
    using assms by (auto simp: entries_where_def d)
  then show ?thesis
    by (simp only: entries_where_filter [OF assms])
qed

lemma entries_where_update:
  assumes "finite (dom m)" "k \<in> dom m"
  shows "map fst (entries_where P (m(k \<mapsto> v))) = map fst (entries_where P m)"
  using assms by (simp add: entries_where_keys insert_absorb)

lemma entries_where_cong:
  "m = m' \<Longrightarrow> (\<And>k. k \<in> dom m' \<Longrightarrow> P k = P' k) \<Longrightarrow> entries_where P m = entries_where P' m'"
  unfolding entries_where_def
  by (intro arg_cong2 [where f = map] arg_cong [where f = sorted_list_of_set] ext) auto

lemma entries_where_image:
  fixes f :: "'a::linorder \<Rightarrow> 'b::linorder"
  assumes "finite (dom m)" "\<And>x y. x < y \<Longrightarrow> f x < f y"
    and "\<And>k. P k \<Longrightarrow> k \<in> dom m \<Longrightarrow> \<exists>x. k = f x"
  shows "entries_where P m
       = map (\<lambda>(k, v). (f k, v)) (entries_where (\<lambda>k. P (f k)) (\<lambda>k. m (f k)))"
proof -
  have inj: "inj f"
    by (rule injI) (metis assms(2) less_irrefl linorder_less_linear)
  have dom: "{k \<in> dom m. P k} = f ` {k \<in> dom (\<lambda>k. m (f k)). P (f k)}"
    using assms(3) by (fastforce simp: image_iff dom_def)
  have "finite {k \<in> dom (\<lambda>k. m (f k)). P (f k)}"
    by (rule finite_imageD [of f]) (auto intro: finite_subset [OF _ assms(1)] inj_on_subset [OF inj])
  then show ?thesis
    unfolding entries_where_def dom
    by (subst sorted_list_of_set_strict_image) (simp_all add: assms(2))
qed

lemma entries_where_map_of:
  assumes "sorted_wrt (<) (map fst xs)"
  shows "entries_where P (map_of xs) = filter (\<lambda>(k, v). P k) xs"
proof -
  have d: "distinct (map fst xs)"
    using assms strict_sorted_iff by blast
  have ks: "sorted_list_of_set {k \<in> dom (map_of xs). P k} = map fst (filter (\<lambda>(k, v). P k) xs)"
  proof (subst sorted_list_of_set_unique [symmetric], simp add: finite_dom_map_of, intro conjI)
    show s: "sorted_wrt (<) (map fst (filter (\<lambda>(k, v). P k) xs))"
      using assms unfolding sorted_wrt_map by (rule sorted_wrt_filter)
    show st: "set (map fst (filter (\<lambda>(k, v). P k) xs)) = {k \<in> dom (map_of xs). P k}"
      by (force simp: dom_map_of_conv_image_fst)
    show "length (map fst (filter (\<lambda>(k, v). P k) xs)) = card {k \<in> dom (map_of xs). P k}"
      using s st by (metis distinct_card strict_sorted_iff)
  qed
  have "map (\<lambda>k. (k, the (map_of xs k))) (map fst ys) = ys" if "set ys \<subseteq> set xs" for ys
    using that d by (induction ys) auto
  from this [of "filter (\<lambda>(k, v). P k) xs"] show ?thesis
    unfolding entries_where_def ks by (simp add: filter_is_subset)
qed

subsection \<open>Big-endian and little-endian integer codecs\<close>

primrec nat_be :: "nat \<Rightarrow> nat \<Rightarrow> bytes" where
  "nat_be 0 x = []"
| "nat_be (Suc n) x = nat_be n (x div 256) @ [of_nat (x mod 256)]"

definition be_val :: "bytes \<Rightarrow> nat" where
  "be_val bs = foldl (\<lambda>a b. a * 256 + unat b) 0 bs"

definition u64_to_be_bytes :: "u64 \<Rightarrow> bytes" where
  "u64_to_be_bytes w = nat_be 8 (unat w)"

definition u64_from_be_bytes :: "bytes \<Rightarrow> u64" where
  "u64_from_be_bytes bs = of_nat (be_val bs)"

definition u64_to_le_bytes :: "u64 \<Rightarrow> bytes" where
  "u64_to_le_bytes w = rev (u64_to_be_bytes w)"

definition u64_from_le_bytes :: "bytes \<Rightarrow> u64" where
  "u64_from_le_bytes bs = u64_from_be_bytes (rev bs)"

definition u32_to_le_bytes :: "u32 \<Rightarrow> bytes" where
  "u32_to_le_bytes w = rev (nat_be 4 (unat w))"

text \<open>\<open>(n as u16).to_le_bytes()\<close>: the cast keeps the low 16 bits.\<close>

definition u16_to_le_bytes :: "usize \<Rightarrow> bytes" where
  "u16_to_le_bytes n = rev (nat_be 2 n)"

lemma be_val_Nil [simp]: "be_val [] = 0"
  by (simp add: be_val_def)

lemma be_val_snoc [simp]: "be_val (bs @ [b]) = be_val bs * 256 + unat b"
  by (simp add: be_val_def)

lemma length_nat_be [simp]: "length (nat_be n x) = n"
  by (induction n arbitrary: x) simp_all

lemma nat_be_numeral:
  "nat_be (numeral n) x = nat_be (pred_numeral n) (x div 256) @ [of_nat (x mod 256)]"
  by (simp only: numeral_eq_Suc [of n] nat_be.simps(2))

lemma be_val_nat_be: "be_val (nat_be n x) = x mod 256 ^ n"
proof (induction n arbitrary: x)
  case (Suc n)
  have "unat (of_nat (x mod 256) :: u8) = x mod 256"
    by (simp add: unat_of_nat take_bit_eq_mod)
  then show ?case
    using Suc [of "x div 256"] by (simp add: mod_mult2_eq)
qed simp

lemma be_val_bound: "be_val bs < 256 ^ length bs"
proof (induction bs rule: rev_induct)
  case (snoc b bs)
  have "be_val bs * 256 + unat b < (be_val bs + 1) * 256"
    by simp
  also have "\<dots> \<le> 256 ^ length bs * 256"
    using snoc by (intro mult_le_mono1) simp
  finally show ?case by simp
qed simp

lemma nat_be_be_val: "nat_be (length bs) (be_val bs) = bs"
proof (induction bs rule: rev_induct)
  case (snoc b bs)
  have "(be_val bs * 256 + unat b) div 256 = be_val bs"
    by simp
  moreover have "(be_val bs * 256 + unat b) mod 256 = unat b"
    by simp
  ultimately show ?case
    using snoc by simp
qed simp

lemma length_u64_to_be_bytes [simp, codec_simps]: "length (u64_to_be_bytes w) = 8"
  by (simp add: u64_to_be_bytes_def)

lemma u64_from_to_be_bytes [simp, codec_simps]: "u64_from_be_bytes (u64_to_be_bytes w) = w"
  by (simp add: u64_from_be_bytes_def u64_to_be_bytes_def be_val_nat_be)

lemma u64_to_from_be_bytes [codec_simps]:
  assumes "length bs = 8"
  shows "u64_to_be_bytes (u64_from_be_bytes bs) = bs"
proof -
  have "unat (of_nat (be_val bs) :: u64) = be_val bs"
    using be_val_bound [of bs] assms by (simp add: unat_of_nat take_bit_eq_mod)
  then show ?thesis
    using nat_be_be_val [of bs] assms by (simp add: u64_from_be_bytes_def u64_to_be_bytes_def)
qed

lemma length_u64_to_le_bytes [simp, codec_simps]: "length (u64_to_le_bytes w) = 8"
  by (simp add: u64_to_le_bytes_def)

lemma u64_from_to_le_bytes [simp, codec_simps]: "u64_from_le_bytes (u64_to_le_bytes w) = w"
  by (simp add: u64_from_le_bytes_def u64_to_le_bytes_def)

lemma u64_to_be_bytes_inject [simp]: "u64_to_be_bytes a = u64_to_be_bytes b \<longleftrightarrow> a = b"
  using u64_from_to_be_bytes by metis

text \<open>Lexicographic byte order of big-endian encodings is numeric order, which is why the
  durable queue's keys iterate in allocation order.\<close>

lemma be_val_Cons: "be_val (b # bs) = unat b * 256 ^ length bs + be_val bs"
  by (induction bs rule: rev_induct)
    (simp_all add: be_val_def add_mult_distrib mult.assoc flip: append_Cons)

lemma be_val_less_iff:
  "length xs = length ys \<Longrightarrow> be_val xs < be_val ys \<longleftrightarrow> xs < ys"
proof (induction xs ys rule: list_induct2)
  case (Cons x xs y ys)
  have lt: "be_val as + unat a * 256 ^ length as < be_val bs + unat b * 256 ^ length as"
    if "unat a < unat b" "length as = length bs" for a b :: u8 and as bs
  proof -
    have "be_val as + unat a * 256 ^ length as < (unat a + 1) * 256 ^ length as"
      using be_val_bound [of as] by simp
    also have "\<dots> \<le> unat b * 256 ^ length as"
      using that by (intro mult_le_mono1) simp
    finally show ?thesis by linarith
  qed
  show ?case
  proof (cases "x = y")
    case True
    then show ?thesis using Cons by (simp add: be_val_Cons)
  next
    case False
    then have "unat x < unat y \<or> unat y < unat x"
      by (metis linorder_neqE_nat word_unat_eq_iff)
    then show ?thesis
      using lt [of x y xs ys] lt [of y x ys xs] Cons(1) False
      by (auto simp: be_val_Cons word_less_nat_alt)
  qed
qed simp

lemma u64_to_be_bytes_less [simp]: "u64_to_be_bytes a < u64_to_be_bytes b \<longleftrightarrow> a < b"
  using be_val_less_iff [of "u64_to_be_bytes a" "u64_to_be_bytes b"]
  by (simp add: u64_to_be_bytes_def be_val_nat_be word_less_nat_alt)

subsection \<open>Text and hexadecimal\<close>

definition str_bytes :: "string \<Rightarrow> bytes" where
  "str_bytes s = map of_char s"

definition bytes_str :: "bytes \<Rightarrow> string" where
  "bytes_str bs = map (\<lambda>b. char_of (unat b)) bs"

text \<open>\<open>format!("{w:016x}")\<close>: sixteen lower-case digits.\<close>

definition hex_char :: "nat \<Rightarrow> char" where
  "hex_char d = char_of (if d < 10 then 48 + d else 87 + d)"

primrec hex_digits :: "nat \<Rightarrow> nat \<Rightarrow> string" where
  "hex_digits 0 x = []"
| "hex_digits (Suc n) x = hex_digits n (x div 16) @ [hex_char (x mod 16)]"

definition fmt_016x :: "u64 \<Rightarrow> string" where
  "fmt_016x w = hex_digits 16 (unat w)"

text \<open>\<open>u64::from_str_radix(s, 16)\<close>: an optional plus sign, then at least one digit of
  either case; a value above \<open>u64::MAX\<close> is an error.\<close>

definition hex_val :: "char \<Rightarrow> nat option" where
  "hex_val c =
     (let n = of_char c :: nat
      in if 48 \<le> n \<and> n \<le> 57 then Some (n - 48)
         else if 97 \<le> n \<and> n \<le> 102 then Some (n - 87)
         else if 65 \<le> n \<and> n \<le> 70 then Some (n - 55)
         else None)"

fun hex_fold :: "nat \<Rightarrow> string \<Rightarrow> u64 option" where
  "hex_fold acc [] = Some (of_nat acc)"
| "hex_fold acc (c # cs) =
     (case hex_val c of
        None \<Rightarrow> None
      | Some d \<Rightarrow> if acc * 16 + d < 2 ^ 64 then hex_fold (acc * 16 + d) cs else None)"

definition from_str_radix16 :: "string \<Rightarrow> u64 option" where
  "from_str_radix16 s =
     (if s = [] \<or> s = ''+'' \<or> s = ''-'' then None
      else hex_fold 0 (if hd s = CHR ''+'' then tl s else s))"

lemma str_bytes_append [simp]: "str_bytes (a @ b) = str_bytes a @ str_bytes b"
  by (simp add: str_bytes_def)

lemma unat_of_char_u8 [simp]: "unat (of_char c :: u8) = of_char c"
proof -
  have "(of_char c :: u8) = of_nat (of_char c)"
    by (rule of_nat_of_char [symmetric])
  then show ?thesis
    using nat_of_char_less_256 [of c] by (simp only: unat_of_nat) (simp add: take_bit_eq_mod)
qed

lemma bytes_str_str_bytes [simp, codec_simps]: "bytes_str (str_bytes s) = s"
  by (simp add: str_bytes_def bytes_str_def comp_def)

lemma str_bytes_inject [simp]: "str_bytes a = str_bytes b \<longleftrightarrow> a = b"
  using bytes_str_str_bytes by metis

lemma length_str_bytes [simp]: "length (str_bytes s) = length s"
  by (simp add: str_bytes_def)

lemma hex_val_hex_char [simp]: "d < 16 \<Longrightarrow> hex_val (hex_char d) = Some d"
  by (simp add: hex_val_def hex_char_def Let_def)

lemma length_hex_digits [simp]: "length (hex_digits n x) = n"
  by (induction n arbitrary: x) simp_all

lemma hex_digits_val: "c \<in> set (hex_digits n x) \<Longrightarrow> hex_val c \<noteq> None"
  by (induction n arbitrary: x) auto

lemma hex_fold_digits:
  "x < 16 ^ n \<Longrightarrow> acc * 16 ^ n + x < 2 ^ 64 \<Longrightarrow>
   hex_fold acc (hex_digits n x @ cs) = hex_fold (acc * 16 ^ n + x) cs"
proof (induction n arbitrary: x cs)
  case (Suc n)
  have x: "x = 16 * (x div 16) + x mod 16"
    by simp
  have "acc * 16 ^ n + x div 16 \<le> acc * 16 ^ Suc n + x"
    by (intro add_mono) simp_all
  then have "hex_fold acc (hex_digits n (x div 16) @ hex_char (x mod 16) # cs)
      = hex_fold (acc * 16 ^ n + x div 16) (hex_char (x mod 16) # cs)"
    using Suc.prems by (intro Suc.IH) (simp_all add: less_mult_imp_div_less mult.commute)
  moreover have "(acc * 16 ^ n + x div 16) * 16 + x mod 16 = acc * 16 ^ Suc n + x"
    by (simp add: algebra_simps)
  ultimately show ?case
    using Suc.prems(2) by (simp add: algebra_simps)
qed simp

lemma from_str_radix16_fmt [simp, codec_simps]: "from_str_radix16 (fmt_016x w) = Some w"
proof -
  have len: "length (fmt_016x w) = 16"
    by (simp add: fmt_016x_def)
  have "hex_val (CHR ''+'') = None"
    by (simp add: hex_val_def)
  then have "hd (fmt_016x w) \<noteq> CHR ''+''"
    using len hex_digits_val [of "hd (fmt_016x w)" 16 "unat w"]
    by (metis fmt_016x_def hd_in_set list.size(3) zero_neq_numeral)
  moreover have "fmt_016x w \<noteq> []" "fmt_016x w \<noteq> ''+''" "fmt_016x w \<noteq> ''-''"
    using len by auto
  moreover have "hex_fold 0 (fmt_016x w) = Some w"
    using hex_fold_digits [of "unat w" 16 0 "[]"] by (simp add: fmt_016x_def)
  ultimately show ?thesis
    by (simp add: from_str_radix16_def)
qed

lemma fmt_016x_inject [simp]: "fmt_016x a = fmt_016x b \<longleftrightarrow> a = b"
  using from_str_radix16_fmt by (metis option.inject)

text \<open>Keys with a prefix come before every later key without it.\<close>

lemma prefix_block:
  fixes p :: "'a::linorder list"
  shows "prefix p a \<Longrightarrow> p \<le> k \<Longrightarrow> \<not> prefix p k \<Longrightarrow> a < k"
proof (induction p arbitrary: a k)
  case (Cons x p)
  then obtain a' where a: "a = x # a'" "prefix p a'"
    by (auto simp: prefix_def)
  then show ?case
    using Cons by (cases k) auto
qed simp

subsection \<open>Hash maps\<close>

text \<open>A hash map is an association list with distinct keys; its order is the iteration
  order. The library's \<open>AList.update\<close> and \<open>AList.delete\<close> are \<open>insert\<close> and \<open>remove\<close>.\<close>

type_synonym ('k, 'v) hmap = "('k \<times> 'v) list"

abbreviation hm_ok :: "('k, 'v) hmap \<Rightarrow> bool" where
  "hm_ok m \<equiv> distinct (map fst m)"

abbreviation hm_get :: "('k, 'v) hmap \<Rightarrow> 'k \<Rightarrow> 'v option" where
  "hm_get m k \<equiv> map_of m k"

abbreviation hm_insert :: "'k \<Rightarrow> 'v \<Rightarrow> ('k, 'v) hmap \<Rightarrow> ('k, 'v) hmap" where
  "hm_insert k v m \<equiv> AList.update k v m"

abbreviation hm_remove :: "'k \<Rightarrow> ('k, 'v) hmap \<Rightarrow> ('k, 'v) hmap" where
  "hm_remove k m \<equiv> AList.delete k m"

definition hm_contains :: "('k, 'v) hmap \<Rightarrow> 'k \<Rightarrow> bool" where
  "hm_contains m k \<longleftrightarrow> hm_get m k \<noteq> None"

definition hm_get_or :: "'v \<Rightarrow> ('k, 'v) hmap \<Rightarrow> 'k \<Rightarrow> 'v" where
  "hm_get_or d m k = (case hm_get m k of None \<Rightarrow> d | Some v \<Rightarrow> v)"

text \<open>Collecting pairs into a map: a later pair replaces an earlier one.\<close>

definition hm_collect :: "('k \<times> 'v) list \<Rightarrow> ('k, 'v) hmap" where
  "hm_collect kvs = foldl (\<lambda>m (k, v). hm_insert k v m) [] kvs"

lemma hm_insert_fresh: "k \<notin> fst ` set m \<Longrightarrow> hm_insert k v m = m @ [(k, v)]"
  by (induction m) auto

lemma hm_collect_distinct: "distinct (map fst kvs) \<Longrightarrow> hm_collect kvs = kvs"
proof (induction kvs rule: rev_induct)
  case (snoc kv kvs)
  then show ?case
    by (cases kv) (simp add: hm_collect_def hm_insert_fresh)
qed (simp add: hm_collect_def)

lemma hm_get_insert [simp, hmap_simps]:
  "hm_get (hm_insert k v m) k' = (if k' = k then Some v else hm_get m k')"
  by (simp add: update_conv')

lemma hm_get_remove [simp, hmap_simps]:
  "hm_get (hm_remove k m) k' = (if k' = k then None else hm_get m k')"
  by (simp add: delete_conv')

lemma hm_ok_insert [simp, intro]: "hm_ok m \<Longrightarrow> hm_ok (hm_insert k v m)"
  by (rule distinct_update)

lemma hm_ok_remove [simp, intro]: "hm_ok m \<Longrightarrow> hm_ok (hm_remove k m)"
  by (rule distinct_delete)

lemma length_hm_insert:
  "length (hm_insert k v m) = (if k \<in> fst ` set m then length m else Suc (length m))"
  by (induction m) auto

lemma length_hm_remove_le: "length (hm_remove k m) \<le> length m"
  by (rule length_delete_le)

lemma hm_contains_iff: "hm_contains m k \<longleftrightarrow> k \<in> fst ` set m"
  by (simp add: hm_contains_def map_of_eq_None_iff)

end
