(* ===== verification/Storage_Engine.thy ===== *)
theory Storage_Engine
  imports Lite_Prelude
begin

text \<open>
  The storage interface of NodeDB Lite (\<open>storage/engine.rs\<close>, \<open>error.rs\<close>): the error type,
  the \<open>WriteOp\<close> and \<open>PrefixScan\<close> data, the trait \<open>StorageEngine\<close> as a record of
  operations, its default methods, and its contract as the locales \<open>kv_store\<close> (point
  reads, writes and atomic batches) and \<open>storage_engine\<close> (ordered scans on top).

  A storage handle is a state of type \<open>'s\<close>. Reads return a result; writes return a
  result and the next state, since a write that fails still returns a state. Message
  texts of errors are not modelled; the fields that name an object are kept.
\<close>

subsection \<open>Errors\<close>

datatype lite_error =
    Storage
  | LockPoisoned
  | JoinError
  | Serialization
  | InvalidNamespace u8
  | BadRequest
  | CollectionNotFound string string
  | UniqueViolation string
  | NotNullViolation string string
  | Sync
  | Query
  | ArrowTypeConversion string string
  | Backpressure
  | Unsupported
  | WorkerFailed
  | Encryption
  | Corrupted
  | FtsIndex string
  | TextIndexMissing string string
  | FtsQueryInvalid string
  | FtsSearch string
  | CounterFault string
  | TypeMismatch string
  | DataException
  | NumericValueOutOfRange
  | UndefinedObject string
  | ObjectNotReady string
  | ConstraintViolation string string
  | RetryableRefusal
  | AuthorizationDenied string
  | PrevalidationRejected string

type_synonym 'a lite_result = "(lite_error, 'a) result"

subsection \<open>Namespaces, rows and write operations\<close>

text \<open>The namespace enum belongs to the \<open>nodedb_types\<close> crate. The constructors are the
  variants the sources name; their discriminants are a parameter of the definitions that
  cast a namespace to a byte.\<close>

datatype namespace =
    Meta | Graph | Kv | Vector | Strict | Array | Fts | Crdt | Columnar | ArrayDelta | Spatial
  | LatestVersion | GraphHistory | LoroState | DocumentHistory | ArrayOpLog | StrictHistory
  | ColumnarPending | FtsIndexPending | FtsDeletePending | SpatialDeletePending
  | SpatialInsertPending | VectorInsertPending | VectorDeletePending | TimeseriesPending
  | KvPushPending

type_synonym kv_pair = "bytes \<times> bytes"

datatype prefix_scan_limit = Records | Bytes

record prefix_scan =
  ps_entries :: "kv_pair list"
  ps_limit :: "prefix_scan_limit option"

definition prefix_scan_default :: prefix_scan where
  "prefix_scan_default = \<lparr>ps_entries = [], ps_limit = None\<rparr>"

definition check_prefix_cursor :: "bytes \<Rightarrow> bytes option \<Rightarrow> unit lite_result" where
  "check_prefix_cursor pre after_key =
     (case after_key of
        Some key \<Rightarrow> if \<not> prefix pre key then Inl BadRequest else Inr ()
      | None \<Rightarrow> Inr ())"

definition prefix_scan_budget_error :: "bytes \<Rightarrow> bytes option \<Rightarrow> usize \<Rightarrow> lite_error" where
  "prefix_scan_budget_error pre after_key max_bytes = Backpressure"

record compaction_outcome =
  reclaimed_pages :: u64
  segments_repacked :: u32
  file_bytes_freed :: u64
  reclaimed_segments :: u64
  segment_bytes_freed :: u64

definition compaction_outcome_default :: compaction_outcome where
  "compaction_outcome_default =
     \<lparr>reclaimed_pages = 0, segments_repacked = 0, file_bytes_freed = 0,
      reclaimed_segments = 0, segment_bytes_freed = 0\<rparr>"

datatype write_op =
    Put namespace bytes bytes
  | Delete namespace bytes

subsection \<open>The trait as a record of operations\<close>

record 's storage_ops =
  so_get :: "'s \<Rightarrow> namespace \<Rightarrow> bytes \<Rightarrow> bytes option lite_result"
  so_put :: "'s \<Rightarrow> namespace \<Rightarrow> bytes \<Rightarrow> bytes \<Rightarrow> unit lite_result \<times> 's"
  so_delete :: "'s \<Rightarrow> namespace \<Rightarrow> bytes \<Rightarrow> unit lite_result \<times> 's"
  so_scan_prefix :: "'s \<Rightarrow> namespace \<Rightarrow> bytes \<Rightarrow> kv_pair list lite_result"
  so_scan_prefix_bounded :: "'s \<Rightarrow> namespace \<Rightarrow> bytes \<Rightarrow> usize \<Rightarrow> kv_pair list lite_result"
  so_scan_prefix_budgeted ::
    "'s \<Rightarrow> namespace \<Rightarrow> bytes \<Rightarrow> usize \<Rightarrow> usize \<Rightarrow> prefix_scan lite_result"
  so_scan_prefix_from_budgeted ::
    "'s \<Rightarrow> namespace \<Rightarrow> bytes \<Rightarrow> bytes option \<Rightarrow> usize \<Rightarrow> usize \<Rightarrow> prefix_scan lite_result"
  so_batch_write :: "'s \<Rightarrow> write_op list \<Rightarrow> unit lite_result \<times> 's"
  so_count :: "'s \<Rightarrow> namespace \<Rightarrow> u64 lite_result"
  so_compact :: "'s \<Rightarrow> compaction_outcome lite_result \<times> 's"
  so_scan_range :: "'s \<Rightarrow> namespace \<Rightarrow> bytes \<Rightarrow> usize \<Rightarrow> kv_pair list lite_result"
  so_scan_range_bounded ::
    "'s \<Rightarrow> namespace \<Rightarrow> bytes option \<Rightarrow> bytes option \<Rightarrow> usize option \<Rightarrow> kv_pair list lite_result"

text \<open>The default methods of the trait, for backends that do not override them.\<close>

definition default_scan_prefix_bounded ::
  "'s \<Rightarrow> namespace \<Rightarrow> bytes \<Rightarrow> usize \<Rightarrow> kv_pair list lite_result" where
  "default_scan_prefix_bounded s ns pre lim = (if lim = 0 then Inr [] else Inl Unsupported)"

definition default_scan_prefix_budgeted ::
  "'s \<Rightarrow> namespace \<Rightarrow> bytes \<Rightarrow> usize \<Rightarrow> usize \<Rightarrow> prefix_scan lite_result" where
  "default_scan_prefix_budgeted s ns pre max_records max_bytes =
     (if max_records = 0 then Inr prefix_scan_default else Inl Unsupported)"

definition default_scan_prefix_from_budgeted ::
  "'s \<Rightarrow> namespace \<Rightarrow> bytes \<Rightarrow> bytes option \<Rightarrow> usize \<Rightarrow> usize \<Rightarrow> prefix_scan lite_result" where
  "default_scan_prefix_from_budgeted s ns pre after_key max_records max_bytes =
     (if max_records = 0 then Inr prefix_scan_default
      else case check_prefix_cursor pre after_key of
             Inl e \<Rightarrow> Inl e
           | Inr _ \<Rightarrow> Inl Unsupported)"

definition default_compact :: "'s \<Rightarrow> compaction_outcome lite_result \<times> 's" where
  "default_compact s = (Inr compaction_outcome_default, s)"

subsection \<open>The abstract rows of a store\<close>

type_synonym rows = "namespace \<Rightarrow> bytes \<rightharpoonup> bytes"

fun rows_apply :: "rows \<Rightarrow> write_op \<Rightarrow> rows" where
  "rows_apply m (Put ns k v) = m(ns := (m ns)(k \<mapsto> v))"
| "rows_apply m (Delete ns k) = m(ns := (m ns)(k := None))"

definition rows_apply_all :: "rows \<Rightarrow> write_op list \<Rightarrow> rows" where
  "rows_apply_all m ops = foldl rows_apply m ops"

lemma rows_apply_all_simps [simp]:
  "rows_apply_all m [] = m"
  "rows_apply_all m (op # ops) = rows_apply_all (rows_apply m op) ops"
  "rows_apply_all m (ops @ ops') = rows_apply_all (rows_apply_all m ops) ops'"
  by (simp_all add: rows_apply_all_def)

lemma finite_rows_apply: "finite (dom (m ns)) \<Longrightarrow> finite (dom (rows_apply m op ns))"
  by (cases op) auto

lemma rows_apply_all_deletes:
  "rows_apply_all m (map (Delete ns) ks) ns' k =
     (if ns' = ns \<and> k \<in> set ks then None else m ns' k)"
  by (induction ks arbitrary: m) auto

text \<open>Cursor start of a continuation: strictly after the cursor, or the prefix itself.\<close>

definition cursor_match :: "bytes \<Rightarrow> bytes option \<Rightarrow> bytes \<Rightarrow> bool" where
  "cursor_match pre after_key k \<longleftrightarrow>
     prefix pre k \<and> (case after_key of None \<Rightarrow> True | Some a \<Rightarrow> a < k)"

definition row_bytes :: "kv_pair list \<Rightarrow> nat" where
  "row_bytes kvs = sum_list (map (\<lambda>(k, v). length k + length v) kvs)"

lemma row_bytes_simps [simp]:
  "row_bytes [] = 0"
  "row_bytes ((k, v) # kvs) = length k + length v + row_bytes kvs"
  "row_bytes (xs @ ys) = row_bytes xs + row_bytes ys"
  by (simp_all add: row_bytes_def)

text \<open>What a budgeted scan promises of a result, given all the matching rows.\<close>

definition budget_ok :: "kv_pair list \<Rightarrow> usize \<Rightarrow> usize \<Rightarrow> prefix_scan \<Rightarrow> bool" where
  "budget_ok matching max_records max_bytes sc \<longleftrightarrow>
     prefix (ps_entries sc) matching \<and>
     length (ps_entries sc) \<le> max_records \<and>
     row_bytes (ps_entries sc) \<le> max_bytes \<and>
     (ps_limit sc = None \<longleftrightarrow> ps_entries sc = matching) \<and>
     (ps_limit sc = Some Records \<longrightarrow> length (ps_entries sc) = max_records)"

subsection \<open>The contract of point operations and batches\<close>

text \<open>The laws are conditional on the operation's result: a read that returns an error
  says nothing, and a write that returns an error leaves the rows as they were (\<open>All
  operations in the batch succeed or fail together\<close>).\<close>

locale kv_store =
  fixes so :: "'s storage_ops"
    and rows_of :: "'s \<Rightarrow> rows"
    and store_inv :: "'s \<Rightarrow> bool"
  assumes finite_rows: "store_inv s \<Longrightarrow> finite (dom (rows_of s ns))"
    and get_law: "store_inv s \<Longrightarrow> so_get so s ns k = Inr found \<Longrightarrow> found = rows_of s ns k"
    and put_inv: "store_inv s \<Longrightarrow> so_put so s ns k v = (r, s') \<Longrightarrow> store_inv s'"
    and put_ok: "store_inv s \<Longrightarrow> so_put so s ns k v = (Inr u, s') \<Longrightarrow>
                 rows_of s' = rows_apply (rows_of s) (Put ns k v)"
    and put_err: "store_inv s \<Longrightarrow> so_put so s ns k v = (Inl e, s') \<Longrightarrow> rows_of s' = rows_of s"
    and delete_inv: "store_inv s \<Longrightarrow> so_delete so s ns k = (r, s') \<Longrightarrow> store_inv s'"
    and delete_ok: "store_inv s \<Longrightarrow> so_delete so s ns k = (Inr u, s') \<Longrightarrow>
                    rows_of s' = rows_apply (rows_of s) (Delete ns k)"
    and delete_err: "store_inv s \<Longrightarrow> so_delete so s ns k = (Inl e, s') \<Longrightarrow> rows_of s' = rows_of s"
    and batch_inv: "store_inv s \<Longrightarrow> so_batch_write so s ops = (r, s') \<Longrightarrow> store_inv s'"
    and batch_ok: "store_inv s \<Longrightarrow> so_batch_write so s ops = (Inr u, s') \<Longrightarrow>
                   rows_of s' = rows_apply_all (rows_of s) ops"
    and batch_err: "store_inv s \<Longrightarrow> so_batch_write so s ops = (Inl e, s') \<Longrightarrow> rows_of s' = rows_of s"
    and count_law: "store_inv s \<Longrightarrow> so_count so s ns = Inr n \<Longrightarrow> n = of_nat (card (dom (rows_of s ns)))"
    and compact_inv: "store_inv s \<Longrightarrow> so_compact so s = (outcome, s') \<Longrightarrow> store_inv s'"
    and compact_rows: "store_inv s \<Longrightarrow> so_compact so s = (outcome, s') \<Longrightarrow> rows_of s' = rows_of s"
begin

lemma get_after_put:
  assumes "store_inv s" "so_put so s ns k v = (Inr u, s')" "so_get so s' ns' k' = Inr r"
  shows "r = (if ns' = ns \<and> k' = k then Some v else rows_of s ns' k')"
  using get_law [OF put_inv [OF assms(1,2)] assms(3)] put_ok [OF assms(1,2)] by simp

lemma delete_frame:
  assumes "store_inv s" "so_delete so s ns k = (r, s')" "(ns', k') \<noteq> (ns, k)"
  shows "rows_of s' ns' k' = rows_of s ns' k'"
  using assms delete_ok [of s ns k] delete_err [of s ns k] by (cases r) auto

lemma put_cases:
  assumes "store_inv s" "so_put so s ns k v = (r, s')"
  obtains "r = Inr ()" "rows_of s' = rows_apply (rows_of s) (Put ns k v)"
        | e where "r = Inl e" "rows_of s' = rows_of s"
  using assms put_ok put_err by (cases r) auto

lemma batch_atomic:
  assumes "store_inv s" "so_batch_write so s ops = (r, s')"
  shows "rows_of s' = (if is_ok r then rows_apply_all (rows_of s) ops else rows_of s)"
  using assms batch_ok batch_err by (cases r) auto

end

subsection \<open>The contract of ordered scans\<close>

text \<open>A backend may keep rows of its own among the caller's (the encrypting wrapper keeps
  its key-derivation salt); \<open>hidden\<close> names them. A scan over a range with no hidden
  row returns exactly the matching rows in key order.\<close>

locale storage_engine = kv_store +
  fixes hidden :: "namespace \<Rightarrow> bytes \<Rightarrow> bool"
  assumes scan_prefix_law:
      "store_inv s \<Longrightarrow> (\<And>k. prefix pre k \<Longrightarrow> \<not> hidden ns k) \<Longrightarrow> so_scan_prefix so s ns pre = Inr kvs \<Longrightarrow>
       kvs = entries_where (prefix pre) (rows_of s ns)"
    and scan_prefix_bounded_law:
      "store_inv s \<Longrightarrow> (\<And>k. prefix pre k \<Longrightarrow> \<not> hidden ns k) \<Longrightarrow>
       so_scan_prefix_bounded so s ns pre lim = Inr kvs \<Longrightarrow>
       kvs = take lim (entries_where (prefix pre) (rows_of s ns))"
    and scan_prefix_budgeted_law:
      "store_inv s \<Longrightarrow> (\<And>k. prefix pre k \<Longrightarrow> \<not> hidden ns k) \<Longrightarrow>
       so_scan_prefix_budgeted so s ns pre max_records max_bytes = Inr sc \<Longrightarrow> 0 < max_records \<Longrightarrow>
       max_bytes \<le> usize_max \<Longrightarrow>
       budget_ok (entries_where (prefix pre) (rows_of s ns)) max_records max_bytes sc"
    and scan_prefix_from_budgeted_law:
      "store_inv s \<Longrightarrow> (\<And>k. prefix pre k \<Longrightarrow> \<not> hidden ns k) \<Longrightarrow>
       so_scan_prefix_from_budgeted so s ns pre after_key max_records max_bytes = Inr sc \<Longrightarrow>
       0 < max_records \<Longrightarrow> max_bytes \<le> usize_max \<Longrightarrow>
       budget_ok (entries_where (cursor_match pre after_key) (rows_of s ns)) max_records max_bytes sc
         \<and> (ps_entries sc = [] \<longrightarrow> ps_limit sc \<noteq> Some Bytes)"
    and scan_range_law:
      "store_inv s \<Longrightarrow> (\<And>k. start \<le> k \<Longrightarrow> \<not> hidden ns k) \<Longrightarrow> so_scan_range so s ns start lim = Inr kvs \<Longrightarrow>
       kvs = take lim (entries_where (\<lambda>k. start \<le> k) (rows_of s ns))"
    and scan_range_bounded_law:
      "store_inv s \<Longrightarrow> (\<And>k. \<not> hidden ns k) \<Longrightarrow>
       so_scan_range_bounded so s ns st en lim_opt = Inr kvs \<Longrightarrow>
       card (dom (rows_of s ns)) \<le> usize_max \<Longrightarrow>
       kvs = (case lim_opt of None \<Rightarrow> (\<lambda>xs. xs) | Some l \<Rightarrow> take l)
               (entries_where (\<lambda>k. (case st of None \<Rightarrow> True | Some a \<Rightarrow> a \<le> k) \<and>
                                   (case en of None \<Rightarrow> True | Some b \<Rightarrow> k < b)) (rows_of s ns))"

end
