(* ===== verification/Pagedb_Storage.thy ===== *)
theory Pagedb_Storage
  imports Storage_Engine
begin

text \<open>
  The B+ tree backend (\<open>storage/pagedb_storage/\<close>): composite keys, the error mapping, the
  row operations and the scans of \<open>PagedbStorage\<close>, and the proof that it keeps the
  \<open>StorageEngine\<close> contract.

  The \<open>pagedb\<close> crate is external: its transactions are the record \<open>pagedb_ops\<close>, an
  argument of every definition, and what the backend relies on is the locale
  \<open>pagedb_api\<close>. The discriminants of the namespace enum are the argument \<open>nsb\<close>.
  \<open>mem_pagedb\<close> is a reference instance over association lists, which shows that the
  laws can hold and lets witnesses compute.
\<close>

subsection \<open>The external crate\<close>

datatype scan_limit = ScanRecords | ScanBytes

datatype pagedb_error = Corruption | ChecksumFailure | Quota | PagedbUnsupported | PagedbOther

record compact_stats =
  main_db_pages_reclaimed :: u64
  stats_segments_repacked :: u32
  bytes_truncated :: u64

record gc_stats =
  gc_reclaimed_segments :: u64
  gc_reclaimed_bytes :: u64

type_synonym 'a pagedb_result = "(pagedb_error, 'a) result"
type_synonym tree = "bytes \<rightharpoonup> bytes"

record ('d, 'r, 'w) pagedb_ops =
  pd_begin_read :: "'d \<Rightarrow> 'r pagedb_result"
  pd_get :: "'r \<Rightarrow> bytes \<Rightarrow> bytes option pagedb_result"
  pd_scan_prefix :: "'r \<Rightarrow> bytes \<Rightarrow> kv_pair list pagedb_result"
  pd_scan_prefix_from :: "'r \<Rightarrow> bytes \<Rightarrow> bytes \<Rightarrow> usize \<Rightarrow> kv_pair list pagedb_result"
  pd_scan :: "'r \<Rightarrow> bytes \<Rightarrow> bytes \<Rightarrow> kv_pair list pagedb_result"
  pd_scan_prefix_from_bounded ::
    "'r \<Rightarrow> bytes \<Rightarrow> bytes \<Rightarrow> usize \<Rightarrow> usize \<Rightarrow> (kv_pair list \<times> scan_limit option) pagedb_result"
  pd_begin_write :: "'d \<Rightarrow> 'w pagedb_result"
  pd_put :: "'w \<Rightarrow> bytes \<Rightarrow> bytes \<Rightarrow> 'w pagedb_result"
  pd_delete :: "'w \<Rightarrow> bytes \<Rightarrow> 'w pagedb_result"
  pd_put_batch :: "'w \<Rightarrow> kv_pair list \<Rightarrow> 'w pagedb_result"
  pd_delete_batch :: "'w \<Rightarrow> bytes list \<Rightarrow> 'w pagedb_result"
  pd_commit :: "'d \<Rightarrow> 'w \<Rightarrow> unit pagedb_result \<times> 'd"
  pd_compact_now :: "'d \<Rightarrow> compact_stats pagedb_result \<times> 'd"
  pd_gc_now :: "'d \<Rightarrow> gc_stats pagedb_result \<times> 'd"

subsection \<open>Errors\<close>

definition is_corruption :: "pagedb_error \<Rightarrow> bool" where
  "is_corruption e \<longleftrightarrow> e = Corruption \<or> e = ChecksumFailure"

definition lite_from_pagedb :: "pagedb_error \<Rightarrow> lite_error" where
  "lite_from_pagedb e =
     (if is_corruption e then Corrupted
      else case e of
             Quota \<Rightarrow> Storage
           | PagedbUnsupported \<Rightarrow> WorkerFailed
           | _ \<Rightarrow> Storage)"

definition lift_err :: "'a pagedb_result \<Rightarrow> 'a lite_result" where
  "lift_err r = map_err lite_from_pagedb r"

lemma lift_err_simps [simp, result_simps]:
  "lift_err (Inr x) = Inr x" "lift_err (Inl e) = Inl (lite_from_pagedb e)"
  "lift_err r = Inr y \<longleftrightarrow> r = Inr y"
  by (simp_all add: lift_err_def)

subsection \<open>Composite keys\<close>

definition prefix_key :: "(namespace \<Rightarrow> u8) \<Rightarrow> namespace \<Rightarrow> bytes \<Rightarrow> bytes" where
  "prefix_key nsb ns key = nsb ns # key"

datatype key_buf = Stack bytes usize | Heap bytes

definition KeyBuf_new :: "(namespace \<Rightarrow> u8) \<Rightarrow> namespace \<Rightarrow> bytes \<Rightarrow> key_buf" where
  "KeyBuf_new nsb ns key =
     (let total = 1 + length key
      in if total \<le> 64 then
           (let data0 = replicate 64 0;
                data1 = data0[0 := nsb ns];
                data2 = take 1 data1 @ key @ drop total data1
            in Stack data2 total)
         else Heap ([nsb ns] @ key))"

fun KeyBuf_as_slice :: "key_buf \<Rightarrow> bytes" where
  "KeyBuf_as_slice (Stack data len) = take len data"
| "KeyBuf_as_slice (Heap v) = v"

definition strip_prefix :: "bytes \<Rightarrow> bytes" where
  "strip_prefix composite = (if length composite > 1 then drop 1 composite else [])"

text \<open>\<open>ns_end\<close> asserts that the byte is below 255; the assertion is a law of the
  parameter \<open>nsb\<close> in \<open>pagedb_ns\<close>.\<close>

definition ns_end :: "(namespace \<Rightarrow> u8) \<Rightarrow> namespace \<Rightarrow> bytes" where
  "ns_end nsb ns = [nsb ns + 1]"

subsection \<open>Rows\<close>

definition get_rows ::
  "('d, 'r, 'w) pagedb_ops \<Rightarrow> (namespace \<Rightarrow> u8) \<Rightarrow> 'd \<Rightarrow> namespace \<Rightarrow> bytes \<Rightarrow> bytes option lite_result" where
  "get_rows pd nsb db ns key =
     (let composite = KeyBuf_new nsb ns key
      in rbind (lift_err (pd_begin_read pd db)) (\<lambda>txn.
           lift_err (pd_get pd txn (KeyBuf_as_slice composite))))"

definition commit_txn ::
  "('d, 'r, 'w) pagedb_ops \<Rightarrow> 'd \<Rightarrow> 'w lite_result \<Rightarrow> unit lite_result \<times> 'd" where
  "commit_txn pd db staged =
     (case staged of
        Inl e \<Rightarrow> (Inl e, db)
      | Inr txn \<Rightarrow> (let (r, db') = pd_commit pd db txn in (lift_err r, db')))"

definition put_rows ::
  "('d, 'r, 'w) pagedb_ops \<Rightarrow> (namespace \<Rightarrow> u8) \<Rightarrow> 'd \<Rightarrow> namespace \<Rightarrow> bytes \<Rightarrow> bytes
     \<Rightarrow> unit lite_result \<times> 'd" where
  "put_rows pd nsb db ns key val =
     (let composite = prefix_key nsb ns key
      in commit_txn pd db
           (rbind (lift_err (pd_begin_write pd db)) (\<lambda>txn.
              lift_err (pd_put pd txn composite val))))"

definition delete_rows ::
  "('d, 'r, 'w) pagedb_ops \<Rightarrow> (namespace \<Rightarrow> u8) \<Rightarrow> 'd \<Rightarrow> namespace \<Rightarrow> bytes
     \<Rightarrow> unit lite_result \<times> 'd" where
  "delete_rows pd nsb db ns key =
     (let composite = prefix_key nsb ns key
      in commit_txn pd db
           (rbind (lift_err (pd_begin_write pd db)) (\<lambda>txn.
              lift_err (pd_delete pd txn composite))))"

fun op_key :: "(namespace \<Rightarrow> u8) \<Rightarrow> write_op \<Rightarrow> bytes" where
  "op_key nsb (Put ns key _) = prefix_key nsb ns key"
| "op_key nsb (Delete ns key) = prefix_key nsb ns key"

fun apply_in_order ::
  "('d, 'r, 'w) pagedb_ops \<Rightarrow> 'w \<Rightarrow> (write_op \<times> bytes) list \<Rightarrow> 'w lite_result" where
  "apply_in_order pd txn [] = Inr txn"
| "apply_in_order pd txn ((Put _ _ val, composite) # rest) =
     rbind (lift_err (pd_put pd txn composite val)) (\<lambda>txn'. apply_in_order pd txn' rest)"
| "apply_in_order pd txn ((Delete _ _, composite) # rest) =
     rbind (lift_err (pd_delete pd txn composite)) (\<lambda>txn'. apply_in_order pd txn' rest)"

fun partition_ops :: "(write_op \<times> bytes) list \<Rightarrow> kv_pair list \<times> bytes list" where
  "partition_ops [] = ([], [])"
| "partition_ops ((Put _ _ val, composite) # rest) =
     (let (puts, deletes) = partition_ops rest in ((composite, val) # puts, deletes))"
| "partition_ops ((Delete _ _, composite) # rest) =
     (let (puts, deletes) = partition_ops rest in (puts, composite # deletes))"

definition apply_batched ::
  "('d, 'r, 'w) pagedb_ops \<Rightarrow> 'w \<Rightarrow> (write_op \<times> bytes) list \<Rightarrow> 'w lite_result" where
  "apply_batched pd txn zipped =
     (let (puts, deletes) = partition_ops zipped;
          puts = sort_key fst puts;
          deletes = sort deletes
      in rbind (if puts \<noteq> [] then lift_err (pd_put_batch pd txn puts) else Inr txn) (\<lambda>txn'.
           if deletes \<noteq> [] then lift_err (pd_delete_batch pd txn' deletes) else Inr txn'))"

definition batch_write_rows ::
  "('d, 'r, 'w) pagedb_ops \<Rightarrow> (namespace \<Rightarrow> u8) \<Rightarrow> 'd \<Rightarrow> write_op list \<Rightarrow> unit lite_result \<times> 'd" where
  "batch_write_rows pd nsb db ops =
     (if ops = [] then (Inr (), db)
      else commit_txn pd db
        (rbind (lift_err (pd_begin_write pd db)) (\<lambda>txn.
           let all_keys = map (op_key nsb) ops;
               unique_count = length (remdups all_keys)
           in if unique_count < length all_keys
              then apply_in_order pd txn (zip ops all_keys)
              else apply_batched pd txn (zip ops all_keys))))"

definition count_rows ::
  "('d, 'r, 'w) pagedb_ops \<Rightarrow> (namespace \<Rightarrow> u8) \<Rightarrow> 'd \<Rightarrow> namespace \<Rightarrow> u64 lite_result" where
  "count_rows pd nsb db ns =
     (let ns_prefix = [nsb ns]
      in rbind (lift_err (pd_begin_read pd db)) (\<lambda>txn.
           rbind (lift_err (pd_scan_prefix pd txn ns_prefix)) (\<lambda>raw.
             Inr (of_nat (length raw)))))"

definition compact_rows ::
  "('d, 'r, 'w) pagedb_ops \<Rightarrow> 'd \<Rightarrow> compaction_outcome lite_result \<times> 'd" where
  "compact_rows pd db =
     (case pd_compact_now pd db of
        (Inl e, db') \<Rightarrow> (Inl (lite_from_pagedb e), db')
      | (Inr stats, db') \<Rightarrow>
          (case pd_gc_now pd db' of
             (Inl e, db'') \<Rightarrow> (Inl (lite_from_pagedb e), db'')
           | (Inr gc, db'') \<Rightarrow>
               (Inr \<lparr>reclaimed_pages = main_db_pages_reclaimed stats,
                     segments_repacked = stats_segments_repacked stats,
                     file_bytes_freed = bytes_truncated stats,
                     reclaimed_segments = gc_reclaimed_segments gc,
                     segment_bytes_freed = gc_reclaimed_bytes gc\<rparr>, db'')))"

subsection \<open>Scans\<close>

definition strip_rows :: "kv_pair list \<Rightarrow> kv_pair list" where
  "strip_rows raw = map (\<lambda>(k, v). (strip_prefix k, v)) raw"

definition scan_prefix_rows ::
  "('d, 'r, 'w) pagedb_ops \<Rightarrow> (namespace \<Rightarrow> u8) \<Rightarrow> 'd \<Rightarrow> namespace \<Rightarrow> bytes \<Rightarrow> kv_pair list lite_result" where
  "scan_prefix_rows pd nsb db ns pre =
     (let ns_prefix = prefix_key nsb ns pre
      in rbind (lift_err (pd_begin_read pd db)) (\<lambda>txn.
           rbind (lift_err (pd_scan_prefix pd txn ns_prefix)) (\<lambda>raw.
             Inr (strip_rows raw))))"

definition scan_prefix_bounded_rows ::
  "('d, 'r, 'w) pagedb_ops \<Rightarrow> (namespace \<Rightarrow> u8) \<Rightarrow> 'd \<Rightarrow> namespace \<Rightarrow> bytes \<Rightarrow> usize
     \<Rightarrow> kv_pair list lite_result" where
  "scan_prefix_bounded_rows pd nsb db ns pre lim =
     (if lim = 0 then Inr []
      else let ns_prefix = prefix_key nsb ns pre
           in rbind (lift_err (pd_begin_read pd db)) (\<lambda>txn.
                rbind (lift_err (pd_scan_prefix_from pd txn ns_prefix ns_prefix lim)) (\<lambda>raw.
                  Inr (strip_rows raw))))"

definition scan_range_rows ::
  "('d, 'r, 'w) pagedb_ops \<Rightarrow> (namespace \<Rightarrow> u8) \<Rightarrow> 'd \<Rightarrow> namespace \<Rightarrow> bytes \<Rightarrow> usize
     \<Rightarrow> kv_pair list lite_result" where
  "scan_range_rows pd nsb db ns start lim =
     (let start_key = prefix_key nsb ns start;
          end_key = ns_end nsb ns
      in rbind (lift_err (pd_begin_read pd db)) (\<lambda>txn.
           rbind (lift_err (pd_scan pd txn start_key end_key)) (\<lambda>raw.
             Inr (strip_rows (take lim raw)))))"

definition scan_range_bounded_rows ::
  "('d, 'r, 'w) pagedb_ops \<Rightarrow> (namespace \<Rightarrow> u8) \<Rightarrow> 'd \<Rightarrow> namespace \<Rightarrow> bytes option \<Rightarrow> bytes option
     \<Rightarrow> usize option \<Rightarrow> kv_pair list lite_result" where
  "scan_range_bounded_rows pd nsb db ns start en lim =
     (let start_key = (case start of Some s \<Rightarrow> prefix_key nsb ns s | None \<Rightarrow> [nsb ns]);
          end_key = (case en of Some e \<Rightarrow> prefix_key nsb ns e | None \<Rightarrow> ns_end nsb ns)
      in rbind (lift_err (pd_begin_read pd db)) (\<lambda>txn.
           rbind (lift_err (pd_scan pd txn start_key end_key)) (\<lambda>raw.
             let effective_limit = (case lim of Some l \<Rightarrow> l | None \<Rightarrow> usize_max)
             in Inr (strip_rows (take effective_limit raw)))))"

fun limit_from_pagedb :: "scan_limit \<Rightarrow> prefix_scan_limit" where
  "limit_from_pagedb ScanRecords = Records"
| "limit_from_pagedb ScanBytes = Bytes"

text \<open>The loop of \<open>scan_budgeted\<close>, with its accumulators \<open>bytes\<close> and \<open>result\<close>.\<close>

fun budget_loop :: "usize \<Rightarrow> kv_pair list \<Rightarrow> usize \<Rightarrow> prefix_scan \<Rightarrow> prefix_scan" where
  "budget_loop max_bytes [] bytes res = res"
| "budget_loop max_bytes ((key, val) # rest) bytes res =
     (let key = strip_prefix key;
          next_bytes = Option.bind (usize_checked_add (length key) (length val)) (usize_checked_add bytes)
      in case next_bytes of
           Some n \<Rightarrow>
             if n \<le> max_bytes
             then budget_loop max_bytes rest n (res\<lparr>ps_entries := ps_entries res @ [(key, val)]\<rparr>)
             else res\<lparr>ps_limit := Some Bytes\<rparr>
         | None \<Rightarrow> res\<lparr>ps_limit := Some Bytes\<rparr>)"

definition scan_budgeted ::
  "('d, 'r, 'w) pagedb_ops \<Rightarrow> (namespace \<Rightarrow> u8) \<Rightarrow> 'd \<Rightarrow> namespace \<Rightarrow> bytes \<Rightarrow> bytes option
     \<Rightarrow> usize \<Rightarrow> usize \<Rightarrow> bool \<Rightarrow> prefix_scan lite_result" where
  "scan_budgeted pd nsb db ns pre after_key max_records max_bytes reject_oversized =
     (if max_records = 0 then Inr prefix_scan_default
      else
        rbind (check_prefix_cursor pre after_key) (\<lambda>_.
          let ns_prefix = prefix_key nsb ns pre;
              start = prefix_key nsb ns (case after_key of Some a \<Rightarrow> a | None \<Rightarrow> pre);
              start = (if after_key \<noteq> None then start @ [0] else start)
          in rbind (lift_err (pd_begin_read pd db)) (\<lambda>txn.
             rbind (lift_err (pd_scan_prefix_from_bounded pd txn ns_prefix start max_records
                                (usize_sat_add max_bytes max_records))) (\<lambda>(raw, raw_limit).
               let result = budget_loop max_bytes raw 0
                              \<lparr>ps_entries = [], ps_limit = map_option limit_from_pagedb raw_limit\<rparr>
               in if reject_oversized \<and> ps_entries result = [] \<and> ps_limit result = Some Bytes
                  then Inl (prefix_scan_budget_error pre after_key max_bytes)
                  else Inr result))))"

text \<open>
  Paging over the resumable scan, as its callers do: while a page reports a limit, the next call
  resumes after its last key. \<open>None\<close> would mean that the loop never ends.
\<close>

partial_function (option) page_through ::
  "('d, 'r, 'w) pagedb_ops \<Rightarrow> (namespace \<Rightarrow> u8) \<Rightarrow> 'd \<Rightarrow> namespace \<Rightarrow> bytes
     \<Rightarrow> usize \<Rightarrow> usize \<Rightarrow> bytes option \<Rightarrow> kv_pair list lite_result option" where
  "page_through pd nsb db ns pre max_records max_bytes after_key =
     (case scan_budgeted pd nsb db ns pre after_key max_records max_bytes True of
        Inl e \<Rightarrow> Some (Inl e)
      | Inr sc \<Rightarrow>
          if ps_limit sc = None then Some (Inr (ps_entries sc))
          else Option.bind
                 (page_through pd nsb db ns pre max_records max_bytes (Some (fst (last (ps_entries sc)))))
                 (\<lambda>rest. Some (rbind rest (\<lambda>kvs. Inr (ps_entries sc @ kvs)))))"

definition reads_fail :: "('d, 'r, 'w) pagedb_ops \<Rightarrow> 'd \<Rightarrow> bool" where
  "reads_fail pd db \<longleftrightarrow>
     (case pd_begin_read pd db of
        Inl e \<Rightarrow> True
      | Inr txn \<Rightarrow> \<exists>pre start mr mb. \<not> is_ok (pd_scan_prefix_from_bounded pd txn pre start mr mb))"

subsection \<open>The trait implementation\<close>

definition pagedb_engine ::
  "('d, 'r, 'w) pagedb_ops \<Rightarrow> (namespace \<Rightarrow> u8) \<Rightarrow> 'd storage_ops" where
  "pagedb_engine pd nsb =
     \<lparr>so_get = get_rows pd nsb,
      so_put = put_rows pd nsb,
      so_delete = delete_rows pd nsb,
      so_scan_prefix = scan_prefix_rows pd nsb,
      so_scan_prefix_bounded = scan_prefix_bounded_rows pd nsb,
      so_scan_prefix_budgeted =
        (\<lambda>db ns pre max_records max_bytes.
           scan_budgeted pd nsb db ns pre None max_records max_bytes False),
      so_scan_prefix_from_budgeted =
        (\<lambda>db ns pre after_key max_records max_bytes.
           scan_budgeted pd nsb db ns pre after_key max_records max_bytes True),
      so_batch_write = batch_write_rows pd nsb,
      so_count = count_rows pd nsb,
      so_compact = compact_rows pd,
      so_scan_range = scan_range_rows pd nsb,
      so_scan_range_bounded = scan_range_bounded_rows pd nsb\<rparr>"

lemma pagedb_engine_sel [simp]:
  "so_get (pagedb_engine pd nsb) = get_rows pd nsb"
  "so_put (pagedb_engine pd nsb) = put_rows pd nsb"
  "so_delete (pagedb_engine pd nsb) = delete_rows pd nsb"
  "so_scan_prefix (pagedb_engine pd nsb) = scan_prefix_rows pd nsb"
  "so_scan_prefix_bounded (pagedb_engine pd nsb) = scan_prefix_bounded_rows pd nsb"
  "so_scan_prefix_budgeted (pagedb_engine pd nsb) db ns pre mr mb =
     scan_budgeted pd nsb db ns pre None mr mb False"
  "so_scan_prefix_from_budgeted (pagedb_engine pd nsb) db ns pre ak mr mb =
     scan_budgeted pd nsb db ns pre ak mr mb True"
  "so_batch_write (pagedb_engine pd nsb) = batch_write_rows pd nsb"
  "so_count (pagedb_engine pd nsb) = count_rows pd nsb"
  "so_compact (pagedb_engine pd nsb) = compact_rows pd"
  "so_scan_range (pagedb_engine pd nsb) = scan_range_rows pd nsb"
  "so_scan_range_bounded (pagedb_engine pd nsb) = scan_range_bounded_rows pd nsb"
  by (simp_all add: pagedb_engine_def)

subsection \<open>Keys keep order and namespaces apart\<close>

lemma KeyBuf_eq_prefix_key [simp]: "KeyBuf_as_slice (KeyBuf_new nsb ns key) = prefix_key nsb ns key"
proof -
  have "replicate 64 (0 :: u8) = 0 # replicate 63 0"
    by (simp flip: replicate_Suc)
  then show ?thesis
    by (simp add: KeyBuf_new_def Let_def prefix_key_def)
qed

lemma strip_prefix_Cons [simp]: "strip_prefix (b # k) = k"
  by (cases k) (simp_all add: strip_prefix_def)

lemma prefix_le: "prefix (p :: 'a::linorder list) k \<Longrightarrow> p \<le> k"
  by (induction p arbitrary: k) (auto simp: prefix_def)

lemma snoc_zero_le_iff: "(a :: bytes) @ [0] \<le> k \<longleftrightarrow> a < k"
proof (induction a arbitrary: k)
  case Nil
  then show ?case by (cases k) (auto simp: word_gt_0)
next
  case (Cons b a)
  then show ?case by (cases k) auto
qed

lemma ns_range_Cons:
  fixes b :: u8
  assumes "b < 255" "b # s \<le> c" "c < [b + 1]"
  shows "\<exists>k. c = b # k"
proof (cases c)
  case (Cons h t)
  then have h: "h < b + 1" "b \<le> h"
    using assms(2,3) by auto
  have "unat (b + 1) = unat b + 1"
    using assms(1) by (simp add: unat_word_ariths word_less_nat_alt)
  then have "h = b"
    using h by (simp add: word_less_nat_alt word_le_nat_alt word_unat_eq_iff)
  then show ?thesis using Cons by simp
qed (use assms in simp)

lemma Cons_less_ns_end: "(b :: u8) < 255 \<Longrightarrow> b # k < [b + 1]"
  by (simp add: word_less_nat_alt unat_word_ariths)

lemma strip_entries:
  assumes "finite (dom m)" "\<And>c. P c \<Longrightarrow> \<exists>k. c = b # k"
  shows "strip_rows (entries_where P m) = entries_where (\<lambda>k. P (b # k)) (\<lambda>k. m (b # k))"
  by (subst entries_where_image [where f = "(#) b"])
    (auto simp: assms strip_rows_def comp_def case_prod_unfold)

lemma strip_rows_take: "strip_rows (take n xs) = take n (strip_rows xs)"
  by (simp add: strip_rows_def take_map)

subsection \<open>What the backend relies on\<close>

definition bounded_scan_ok ::
  "kv_pair list \<Rightarrow> usize \<Rightarrow> usize \<Rightarrow> kv_pair list \<Rightarrow> scan_limit option \<Rightarrow> bool" where
  "bounded_scan_ok matching max_records max_bytes es lim \<longleftrightarrow>
     prefix es matching \<and> length es \<le> max_records \<and> row_bytes es \<le> max_bytes \<and>
     (lim = None \<longleftrightarrow> es = matching) \<and>
     (lim = Some ScanRecords \<longrightarrow> length es = max_records) \<and>
     (lim = Some ScanBytes \<longrightarrow> max_bytes < row_bytes (take (Suc (length es)) matching))"

locale pagedb_api =
  fixes pd :: "('d, 'r, 'w) pagedb_ops"
    and contents :: "'d \<Rightarrow> tree"
    and snapshot :: "'r \<Rightarrow> tree"
    and pending :: "'w \<Rightarrow> tree"
  assumes finite_contents: "finite (dom (contents db))"
    and begin_read_law: "pd_begin_read pd db = Inr rtxn \<Longrightarrow> snapshot rtxn = contents db"
    and tree_get_law: "pd_get pd rtxn c = Inr found \<Longrightarrow> found = snapshot rtxn c"
    and tree_scan_prefix_law:
      "pd_scan_prefix pd rtxn pre = Inr kvs \<Longrightarrow> kvs = entries_where (prefix pre) (snapshot rtxn)"
    and tree_scan_prefix_from_law:
      "pd_scan_prefix_from pd rtxn pre start lim = Inr kvs \<Longrightarrow>
       kvs = take lim (entries_where (\<lambda>c. prefix pre c \<and> start \<le> c) (snapshot rtxn))"
    and tree_scan_law:
      "pd_scan pd rtxn start stop = Inr kvs \<Longrightarrow>
       kvs = entries_where (\<lambda>c. start \<le> c \<and> c < stop) (snapshot rtxn)"
    and tree_scan_bounded_law:
      "pd_scan_prefix_from_bounded pd rtxn pre start mr mb = Inr (kvs, sl) \<Longrightarrow>
       bounded_scan_ok (entries_where (\<lambda>c. prefix pre c \<and> start \<le> c) (snapshot rtxn)) mr mb kvs sl"
    and begin_write_law: "pd_begin_write pd db = Inr wtxn \<Longrightarrow> pending wtxn = contents db"
    and tree_put_law: "pd_put pd wtxn c v = Inr wtxn' \<Longrightarrow> pending wtxn' = (pending wtxn)(c \<mapsto> v)"
    and tree_delete_law: "pd_delete pd wtxn c = Inr wtxn' \<Longrightarrow> pending wtxn' = (pending wtxn)(c := None)"
    and tree_put_batch_law:
      "pd_put_batch pd wtxn puts = Inr wtxn' \<Longrightarrow> sorted_wrt (<) (map fst puts) \<Longrightarrow>
       pending wtxn' = pending wtxn ++ map_of puts"
    and tree_delete_batch_law:
      "pd_delete_batch pd wtxn dels = Inr wtxn' \<Longrightarrow> sorted_wrt (<) dels \<Longrightarrow>
       pending wtxn' = pending wtxn |` (- set dels)"
    and commit_ok: "pd_commit pd db wtxn = (Inr u, db') \<Longrightarrow> contents db' = pending wtxn"
    and commit_err: "pd_commit pd db wtxn = (Inl e, db') \<Longrightarrow> contents db' = contents db"
    and compact_law: "pd_compact_now pd db = (cres, db') \<Longrightarrow> contents db' = contents db"
    and gc_law: "pd_gc_now pd db = (gres, db') \<Longrightarrow> contents db' = contents db"

locale pagedb_ns = pagedb_api +
  fixes nsb :: "namespace \<Rightarrow> u8"
  assumes nsb_inj: "inj nsb" and nsb_bound: "nsb ns < 255"

definition pagedb_rows :: "('d \<Rightarrow> tree) \<Rightarrow> (namespace \<Rightarrow> u8) \<Rightarrow> 'd \<Rightarrow> rows" where
  "pagedb_rows contents nsb db ns k = contents db (nsb ns # k)"

subsection \<open>Batches: the sorted fast path against in-order application\<close>

fun tree_apply :: "tree \<Rightarrow> write_op \<times> bytes \<Rightarrow> tree" where
  "tree_apply m (Put _ _ v, c) = m(c \<mapsto> v)"
| "tree_apply m (Delete _ _, c) = m(c := None)"

lemma partition_ops_cases:
  obtains p d where "partition_ops zs = (p, d)"
  by fastforce

lemma partition_ops_set:
  "partition_ops zs = (puts, dels) \<Longrightarrow> fst ` set puts \<union> set dels = snd ` set zs"
proof (induction zs arbitrary: puts dels rule: partition_ops.induct)
  case (2 a b v c rest)
  obtain p d where pd: "partition_ops rest = (p, d)" by (rule partition_ops_cases)
  then have "puts = (c, v) # p" "dels = d"
    using 2(2) by simp_all
  with 2(1) [OF pd] show ?case by simp
next
  case (3 a b c rest)
  obtain p d where pd: "partition_ops rest = (p, d)" by (rule partition_ops_cases)
  then have "puts = p" "dels = c # d"
    using 3(2) by simp_all
  with 3(1) [OF pd] show ?case by simp
qed simp

lemma partition_ops_distinct:
  "partition_ops zs = (puts, dels) \<Longrightarrow> distinct (map snd zs) \<Longrightarrow>
   distinct (map fst puts) \<and> distinct dels"
proof (induction zs arbitrary: puts dels rule: partition_ops.induct)
  case (2 a b v c rest)
  obtain p d where pd: "partition_ops rest = (p, d)" by (rule partition_ops_cases)
  have "c \<notin> fst ` set p"
    using 2(3) partition_ops_set [OF pd] by auto
  with 2(1) [OF pd] 2(2,3) pd show ?case by auto
next
  case (3 a b c rest)
  obtain p d where pd: "partition_ops rest = (p, d)" by (rule partition_ops_cases)
  have "c \<notin> set d"
    using 3(3) partition_ops_set [OF pd] by auto
  with 3(1) [OF pd] 3(2,3) pd show ?case by auto
qed simp

lemma tree_apply_frame: "c \<notin> set (map snd zs) \<Longrightarrow> foldl tree_apply m zs c = m c"
proof (induction zs arbitrary: m)
  case (Cons z zs)
  then show ?case by (cases z; cases "fst z") auto
qed simp

lemma foldl_tree_apply_partition:
  "partition_ops zs = (puts, dels) \<Longrightarrow> distinct (map snd zs) \<Longrightarrow>
   foldl tree_apply m zs = (m ++ map_of puts) |` (- set dels)"
proof (induction zs arbitrary: m puts dels rule: partition_ops.induct)
  case (2 a b v c rest)
  obtain p d where pd: "partition_ops rest = (p, d)" by (rule partition_ops_cases)
  have "c \<notin> set d" "map_of p c = None"
    using 2(3) partition_ops_set [OF pd] by (auto simp: map_of_eq_None_iff)
  then show ?case
    using 2(1) [OF pd] 2(2,3) pd
    by (auto simp: restrict_map_def map_add_def fun_eq_iff split: option.splits)
next
  case (3 a b c rest)
  obtain p d where pd: "partition_ops rest = (p, d)" by (rule partition_ops_cases)
  have "map_of p c = None"
    using 3(3) partition_ops_set [OF pd] by (auto simp: map_of_eq_None_iff)
  then show ?case
    using 3(1) [OF pd] 3(2,3) pd
    by (auto simp: restrict_map_def map_add_def fun_eq_iff split: option.splits)
qed (simp add: restrict_map_def)

lemma rows_of_tree_apply:
  assumes "inj nsb"
  shows "(\<lambda>ns k. foldl tree_apply m (zip ops (map (op_key nsb) ops)) (nsb ns # k))
       = rows_apply_all (\<lambda>ns k. m (nsb ns # k)) ops"
proof (induction ops arbitrary: m)
  case (Cons op ops)
  have "(\<lambda>ns k. tree_apply m (op, op_key nsb op) (nsb ns # k))
      = rows_apply (\<lambda>ns k. m (nsb ns # k)) op"
    using injD [OF assms] by (cases op) (auto simp: prefix_key_def fun_eq_iff)
  then show ?case
    using Cons [of "tree_apply m (op, op_key nsb op)"] by simp
qed simp

lemma sort_key_fst_map_of:
  "distinct (map fst xs) \<Longrightarrow> map_of (sort_key fst xs) = map_of (xs :: ('a::linorder \<times> 'b) list)"
  by (rule map_of_inject_set [THEN iffD2]) (simp_all add: distinct_map inj_on_def)

lemma sort_key_fst_strict:
  "distinct (map fst xs) \<Longrightarrow> sorted_wrt (<) (map fst (sort_key fst (xs :: ('a::linorder \<times> 'b) list)))"
  by (simp add: strict_sorted_iff distinct_map inj_on_def)

lemma unique_count_iff: "\<not> length (remdups xs) < length xs \<longleftrightarrow> distinct xs"
  using card_length [of xs] card_distinct [of xs] distinct_card [of xs]
  by (auto simp: length_remdups_card_conv)

subsection \<open>Budgeted scans\<close>

lemma budget_loop_spec:
  assumes "mb \<le> usize_max" "acc \<le> mb"
  shows "\<exists>g \<le> length raw.
     ps_entries (budget_loop mb raw acc res) = ps_entries res @ take g (strip_rows raw) \<and>
     acc + row_bytes (take g (strip_rows raw)) \<le> mb \<and>
     (g = length raw \<longrightarrow> ps_limit (budget_loop mb raw acc res) = ps_limit res) \<and>
     (g < length raw \<longrightarrow> ps_limit (budget_loop mb raw acc res) = Some Bytes \<and>
        mb < acc + row_bytes (take (Suc g) (strip_rows raw)))"
  using assms(2)
proof (induction raw arbitrary: acc res)
  case (Cons kv raw)
  obtain key val where kv: "kv = (key, val)" by fastforce
  let ?n = "length (strip_prefix key) + length val"
  show ?case
  proof (cases "acc + ?n \<le> mb")
    case True
    let ?res = "res\<lparr>ps_entries := ps_entries res @ [(strip_prefix key, val)]\<rparr>"
    have step: "budget_loop mb (kv # raw) acc res = budget_loop mb raw (acc + ?n) ?res"
      using True assms(1) by (simp add: kv usize_checked_add_def Let_def)
    obtain g where "g \<le> length raw"
      "ps_entries (budget_loop mb raw (acc + ?n) ?res) = ps_entries ?res @ take g (strip_rows raw)"
      "acc + ?n + row_bytes (take g (strip_rows raw)) \<le> mb"
      "g = length raw \<longrightarrow> ps_limit (budget_loop mb raw (acc + ?n) ?res) = ps_limit ?res"
      "g < length raw \<longrightarrow> ps_limit (budget_loop mb raw (acc + ?n) ?res) = Some Bytes \<and>
        mb < acc + ?n + row_bytes (take (Suc g) (strip_rows raw))"
      using Cons.IH [OF True] by blast
    then show ?thesis
      unfolding step by (intro exI [of _ "Suc g"]) (simp add: kv strip_rows_def add.assoc)
  next
    case False
    then have "budget_loop mb (kv # raw) acc res = res\<lparr>ps_limit := Some Bytes\<rparr>"
      by (simp add: kv usize_checked_add_def Let_def)
    then show ?thesis
      using False Cons.prems by (intro exI [of _ 0]) (simp add: kv strip_rows_def add.assoc)
  qed
qed simp

lemma row_bytes_take_mono: "m \<le> n \<Longrightarrow> row_bytes (take m xs) \<le> row_bytes (take n xs)"
  by (metis le_add1 le_iff_add row_bytes_simps(3) take_add)

lemma row_bytes_composite:
  "[] \<notin> fst ` set raw \<Longrightarrow> row_bytes raw = row_bytes (strip_rows raw) + length raw"
proof (induction raw)
  case (Cons kv raw)
  then obtain b k v where "kv = (b # k, v)"
    by (cases kv; cases "fst kv") auto
  with Cons show ?case by (simp add: strip_rows_def)
qed (simp add: strip_rows_def)

text \<open>A budgeted scan keeps as many rows as both budgets allow.\<close>

definition budget_maximal :: "kv_pair list \<Rightarrow> usize \<Rightarrow> usize \<Rightarrow> prefix_scan \<Rightarrow> bool" where
  "budget_maximal matching max_records max_bytes sc \<longleftrightarrow>
     ps_entries sc = matching \<or> length (ps_entries sc) = max_records \<or>
     max_bytes < row_bytes (take (Suc (length (ps_entries sc))) matching)"

lemma budget_loop_raw:
  assumes "prefix kvs whole" "mb \<le> usize_max" "n = length kvs"
    and "sc = budget_loop mb kvs 0 \<lparr>ps_entries = [], ps_limit = l\<rparr>"
  obtains g where "g \<le> n"
    "ps_entries sc = take g (strip_rows whole)"
    "row_bytes (take g (strip_rows whole)) \<le> mb"
    "g = n \<Longrightarrow> ps_limit sc = l"
    "g < n \<Longrightarrow> ps_limit sc = Some Bytes \<and> mb < row_bytes (take (Suc g) (strip_rows whole))"
proof -
  have kvs: "strip_rows kvs = take n (strip_rows whole)"
    using assms(1,3) by (auto simp: prefix_def strip_rows_def)
  obtain g where g: "g \<le> n"
    "ps_entries sc = take g (strip_rows kvs)"
    "row_bytes (take g (strip_rows kvs)) \<le> mb"
    "g = n \<longrightarrow> ps_limit sc = l"
    "g < n \<longrightarrow> ps_limit sc = Some Bytes \<and> mb < row_bytes (take (Suc g) (strip_rows kvs))"
    using budget_loop_spec [OF assms(2) le0, of kvs "\<lparr>ps_entries = [], ps_limit = l\<rparr>"] assms(3,4)
    by auto
  show thesis
  proof (rule that)
    show "ps_entries sc = take g (strip_rows whole)" "row_bytes (take g (strip_rows whole)) \<le> mb"
      using g(1-3) unfolding kvs by (simp_all add: min_absorb1)
    show "ps_limit sc = Some Bytes \<and> mb < row_bytes (take (Suc g) (strip_rows whole))" if "g < n"
      using g(5) that unfolding kvs by (simp add: min_absorb1)
  qed (use g in auto)
qed

lemma budget_loop_ok:
  assumes raw: "bounded_scan_ok whole mr (usize_sat_add mb mr) kvs sl"
    and comp: "[] \<notin> fst ` set whole"
    and mb: "mb \<le> usize_max"
    and sc: "sc = budget_loop mb kvs 0 \<lparr>ps_entries = [], ps_limit = map_option limit_from_pagedb sl\<rparr>"
  shows "budget_ok (strip_rows whole) mr mb sc"
    and "mb + mr \<le> usize_max \<Longrightarrow> budget_maximal (strip_rows whole) mr mb sc"
proof -
  have pre: "prefix kvs whole" and len_mr: "length kvs \<le> mr"
    and sl_None: "(sl = None) = (kvs = whole)"
    and sl_Rec: "sl = Some ScanRecords \<Longrightarrow> length kvs = mr"
    and sl_Bytes: "sl = Some ScanBytes \<Longrightarrow>
                     usize_sat_add mb mr < row_bytes (take (Suc (length kvs)) whole)"
    using raw by (auto simp: bounded_scan_ok_def)
  define n where "n = length kvs"
  have n: "n \<le> length whole" "kvs = whole \<longleftrightarrow> n = length whole"
    using pre by (auto simp: n_def prefix_length_le prefix_def)
  obtain g where g: "g \<le> n" "ps_entries sc = take g (strip_rows whole)"
    "row_bytes (take g (strip_rows whole)) \<le> mb"
    "g = n \<Longrightarrow> ps_limit sc = map_option limit_from_pagedb sl"
    "g < n \<Longrightarrow> ps_limit sc = Some Bytes \<and> mb < row_bytes (take (Suc g) (strip_rows whole))"
    using budget_loop_raw [OF pre mb n_def sc] by metis
  have len: "length (strip_rows whole) = length whole"
    by (simp add: strip_rows_def)
  then have es: "length (ps_entries sc) = g" "ps_entries sc = strip_rows whole \<longleftrightarrow> g = length whole"
    using g(1,2) n(1) by (auto simp: take_all_iff)
  have lim: "ps_limit sc = None \<longleftrightarrow> g = length whole"
    using g(1,4,5) n sl_None by (cases "g = n") auto
  have rec: "ps_limit sc = Some Records \<Longrightarrow> g = mr"
    using g(1,4,5) sl_Rec unfolding n_def [symmetric]
    by (cases "g = n"; cases sl; cases "the sl") auto
  show "budget_ok (strip_rows whole) mr mb sc"
    unfolding budget_ok_def es(2) lim
    using es(1) rec g(1-3) len_mr by (auto simp: take_is_prefix n_def)
  show "budget_maximal (strip_rows whole) mr mb sc" if fit: "mb + mr \<le> usize_max"
  proof (cases "g < n \<or> n = length whole \<or> n = mr")
    case True
    then show ?thesis
      using g(1,5) es by (cases "g < n") (auto simp: budget_maximal_def)
  next
    case False
    then have f: "g = n" "sl = Some ScanBytes" "n < mr" "n < length whole"
      using g(1) n sl_None sl_Rec len_mr unfolding n_def [symmetric]
      by (cases sl; cases "the sl"; simp)+
    have "row_bytes (take (Suc n) whole) = row_bytes (take (Suc n) (strip_rows whole)) + Suc n"
      using f(4) comp row_bytes_composite [of "take (Suc n) whole"]
      by (simp add: strip_rows_take min_absorb2) (meson image_mono set_take_subset subsetD)
    then have "mb < row_bytes (take (Suc n) (strip_rows whole))"
      using sl_Bytes [OF f(2)] f(3) fit by (simp add: usize_sat_add_def min_absorb1 flip: n_def)
    then show ?thesis
      using f(1) es by (simp add: budget_maximal_def)
  qed
qed

subsection \<open>The backend keeps the storage contract\<close>

context pagedb_ns
begin

lemma nsb_eq [simp]: "nsb a = nsb b \<longleftrightarrow> a = b"
  using nsb_inj by (auto dest: injD)

lemma rows_finite: "finite (dom (pagedb_rows contents nsb db ns))"
proof (rule finite_imageD [of "(#) (nsb ns)"])
  show "finite ((#) (nsb ns) ` dom (pagedb_rows contents nsb db ns))"
    by (rule finite_subset [OF _ finite_contents [of db]]) (auto simp: pagedb_rows_def)
qed simp

lemma rows_of_entries:
  assumes "\<And>c. P c \<Longrightarrow> \<exists>k. c = nsb ns # k"
  shows "strip_rows (entries_where P (contents db))
       = entries_where (\<lambda>k. P (nsb ns # k)) (pagedb_rows contents nsb db ns)"
  using strip_entries [OF finite_contents assms] by (simp add: pagedb_rows_def [abs_def])

lemma get_rows_ok:
  "get_rows pd nsb db ns k = Inr found \<Longrightarrow> found = pagedb_rows contents nsb db ns k"
  by (auto simp: get_rows_def pagedb_rows_def prefix_key_def dest!: begin_read_law tree_get_law)

lemma commit_txn_ok:
  "commit_txn pd db staged = (Inr u, db') \<Longrightarrow> \<exists>txn. staged = Inr txn \<and> contents db' = pending txn"
  by (auto simp: commit_txn_def split: sum.splits prod.splits dest: commit_ok)

lemma commit_txn_err: "commit_txn pd db staged = (Inl e, db') \<Longrightarrow> contents db' = contents db"
  using commit_err
  by (auto simp: commit_txn_def lift_err_def map_err_Inl_iff split: sum.splits prod.splits)

lemma put_rows_ok:
  assumes "put_rows pd nsb db ns k v = (Inr u, db')"
  shows "pagedb_rows contents nsb db' = rows_apply (pagedb_rows contents nsb db) (Put ns k v)"
proof -
  obtain w w' where "pd_begin_write pd db = Inr w" "pd_put pd w (nsb ns # k) v = Inr w'"
    "contents db' = pending w'"
    using commit_txn_ok [of db _ u db'] assms by (fastforce simp: put_rows_def prefix_key_def)
  then have "contents db' = (contents db)(nsb ns # k \<mapsto> v)"
    using begin_write_law tree_put_law by metis
  then show ?thesis
    by (auto simp: pagedb_rows_def fun_eq_iff)
qed

lemma delete_rows_ok:
  assumes "delete_rows pd nsb db ns k = (Inr u, db')"
  shows "pagedb_rows contents nsb db' = rows_apply (pagedb_rows contents nsb db) (Delete ns k)"
proof -
  obtain w w' where "pd_begin_write pd db = Inr w" "pd_delete pd w (nsb ns # k) = Inr w'"
    "contents db' = pending w'"
    using commit_txn_ok [of db _ u db'] assms by (fastforce simp: delete_rows_def prefix_key_def)
  then have "contents db' = (contents db)(nsb ns # k := None)"
    using begin_write_law tree_delete_law by metis
  then show ?thesis
    by (auto simp: pagedb_rows_def fun_eq_iff)
qed

lemma apply_in_order_ok:
  "apply_in_order pd w zs = Inr w' \<Longrightarrow> pending w' = foldl tree_apply (pending w) zs"
proof (induction zs arbitrary: w)
  case (Cons z zs)
  obtain op c where z: "z = (op, c)" by fastforce
  obtain w1 where w1: "apply_in_order pd w1 zs = Inr w'" "pending w1 = tree_apply (pending w) z"
    using Cons.prems by (cases op) (auto simp: z tree_put_law tree_delete_law)
  show ?case
    by (simp only: Cons.IH [OF w1(1)] w1(2) foldl_Cons)
qed simp

lemma apply_batched_ok:
  assumes "apply_batched pd w zs = Inr w'" "distinct (map snd zs)"
  shows "pending w' = foldl tree_apply (pending w) zs"
proof -
  obtain puts dels where part: "partition_ops zs = (puts, dels)" by (rule partition_ops_cases)
  have d: "distinct (map fst puts)" "distinct dels"
    using partition_ops_distinct [OF part assms(2)] by auto
  obtain w1 where w1:
    "(if sort_key fst puts \<noteq> [] then lift_err (pd_put_batch pd w (sort_key fst puts)) else Inr w) = Inr w1"
    "(if sort dels \<noteq> [] then lift_err (pd_delete_batch pd w1 (sort dels)) else Inr w1) = Inr w'"
    using assms(1) unfolding apply_batched_def part Let_def by auto
  have p1: "pending w1 = pending w ++ map_of puts"
    using w1(1) tree_put_batch_law [OF _ sort_key_fst_strict [OF d(1)], of w w1]
    by (cases "sort_key fst puts = []") (auto simp: sort_key_fst_map_of [OF d(1)] map_of_eq_empty_iff
        dest!: arg_cong [where f = set])
  have "sorted_wrt (<) (sort dels)"
    using d(2) by (simp add: strict_sorted_iff)
  then have "pending w' = pending w1 |` (- set dels)"
    using w1(2) tree_delete_batch_law [of w1 "sort dels" w']
    by (cases "sort dels = []") (auto dest!: arg_cong [where f = set] simp: restrict_map_def)
  then show ?thesis
    by (simp add: p1 foldl_tree_apply_partition [OF part assms(2)])
qed

lemma batch_write_rows_ok:
  assumes "batch_write_rows pd nsb db ops = (Inr u, db')"
  shows "pagedb_rows contents nsb db' = rows_apply_all (pagedb_rows contents nsb db) ops"
proof (cases "ops = []")
  case True
  then show ?thesis using assms by (simp add: batch_write_rows_def)
next
  case False
  let ?zs = "zip ops (map (op_key nsb) ops)"
  obtain w w' where w: "pd_begin_write pd db = Inr w" "contents db' = pending w'"
    "(if length (remdups (map (op_key nsb) ops)) < length (map (op_key nsb) ops)
      then apply_in_order pd w ?zs else apply_batched pd w ?zs) = Inr w'"
    using assms False commit_txn_ok [of db _ u db'] by (fastforce simp: batch_write_rows_def Let_def)
  have "pending w' = foldl tree_apply (pending w) ?zs"
    using w(3) apply_in_order_ok apply_batched_ok unique_count_iff [of "map (op_key nsb) ops"]
    by (auto split: if_splits)
  then have "contents db' = foldl tree_apply (contents db) ?zs"
    using w begin_write_law by simp
  then show ?thesis
    using rows_of_tree_apply [OF nsb_inj, of "contents db" ops]
    by (simp add: pagedb_rows_def [abs_def])
qed

end

context pagedb_ns
begin

lemma prefix_ns_Cons: "prefix (nsb ns # pre) c \<Longrightarrow> \<exists>k. c = nsb ns # k"
  by (cases c) auto

lemma scan_prefix_rows_ok:
  assumes "scan_prefix_rows pd nsb db ns pre = Inr kvs"
  shows "kvs = entries_where (prefix pre) (pagedb_rows contents nsb db ns)"
proof -
  have "kvs = strip_rows (entries_where (prefix (nsb ns # pre)) (contents db))"
    using assms by (auto simp: scan_prefix_rows_def prefix_key_def
        dest!: begin_read_law tree_scan_prefix_law)
  then show ?thesis
    by (simp add: rows_of_entries [OF prefix_ns_Cons])
qed

lemma scan_prefix_bounded_rows_ok:
  assumes "scan_prefix_bounded_rows pd nsb db ns pre lim = Inr kvs"
  shows "kvs = take lim (entries_where (prefix pre) (pagedb_rows contents nsb db ns))"
proof -
  have le: "prefix (nsb ns # pre) c \<Longrightarrow> nsb ns # pre \<le> c" for c
    by (rule prefix_le)
  have "kvs = take lim (strip_rows (entries_where (prefix (nsb ns # pre)) (contents db)))"
    using assms le
    by (auto simp: scan_prefix_bounded_rows_def prefix_key_def strip_rows_take Let_def split: if_splits
        dest!: begin_read_law tree_scan_prefix_from_law
        intro!: arg_cong [where f = "take lim"] arg_cong [where f = strip_rows] entries_where_cong)
  then show ?thesis
    by (simp add: rows_of_entries [OF prefix_ns_Cons])
qed

lemma scan_range_bounded_raw:
  "strip_rows (entries_where
       (\<lambda>c. (case st of Some s \<Rightarrow> nsb ns # s | None \<Rightarrow> [nsb ns]) \<le> c \<and>
            c < (case en of Some e \<Rightarrow> nsb ns # e | None \<Rightarrow> [nsb ns + 1])) (contents db))
   = entries_where (\<lambda>k. (case st of None \<Rightarrow> True | Some a \<Rightarrow> a \<le> k) \<and>
                        (case en of None \<Rightarrow> True | Some b \<Rightarrow> k < b)) (pagedb_rows contents nsb db ns)"
    (is "strip_rows (entries_where ?P _) = _")
proof -
  have "\<exists>k. c = nsb ns # k" if P: "?P c" for c
  proof -
    obtain s where "nsb ns # s \<le> c"
      using P by (cases st) auto
    moreover have "c < [nsb ns + 1]"
      using P Cons_less_ns_end [OF nsb_bound] by (cases en) (auto intro: less_trans)
    ultimately show ?thesis
      using ns_range_Cons [OF nsb_bound] by blast
  qed
  then have "strip_rows (entries_where ?P (contents db))
           = entries_where (\<lambda>k. ?P (nsb ns # k)) (pagedb_rows contents nsb db ns)"
    by (rule rows_of_entries)
  then show ?thesis
    using Cons_less_ns_end [OF nsb_bound, of ns]
    by (auto intro!: entries_where_cong split: option.splits)
qed

lemma scan_range_rows_ok:
  assumes "scan_range_rows pd nsb db ns start lim = Inr kvs"
  shows "kvs = take lim (entries_where (\<lambda>k. start \<le> k) (pagedb_rows contents nsb db ns))"
proof -
  have "kvs = take lim (strip_rows (entries_where (\<lambda>c. nsb ns # start \<le> c \<and> c < [nsb ns + 1]) (contents db)))"
    using assms by (auto simp: scan_range_rows_def prefix_key_def ns_end_def strip_rows_take
        dest!: begin_read_law tree_scan_law)
  then show ?thesis
    using scan_range_bounded_raw [where st = "Some start" and en = None] by simp
qed

lemma scan_range_bounded_rows_ok:
  assumes "scan_range_bounded_rows pd nsb db ns st en lim = Inr kvs"
    and "card (dom (pagedb_rows contents nsb db ns)) \<le> usize_max"
  shows "kvs = (case lim of None \<Rightarrow> (\<lambda>xs. xs) | Some l \<Rightarrow> take l)
          (entries_where (\<lambda>k. (case st of None \<Rightarrow> True | Some a \<Rightarrow> a \<le> k) \<and>
                              (case en of None \<Rightarrow> True | Some b \<Rightarrow> k < b)) (pagedb_rows contents nsb db ns))"
proof -
  let ?rows = "entries_where (\<lambda>k. (case st of None \<Rightarrow> True | Some a \<Rightarrow> a \<le> k) \<and>
                              (case en of None \<Rightarrow> True | Some b \<Rightarrow> k < b)) (pagedb_rows contents nsb db ns)"
  have "kvs = take (case lim of Some l \<Rightarrow> l | None \<Rightarrow> usize_max) ?rows"
    using assms(1) [unfolded scan_range_bounded_rows_def prefix_key_def ns_end_def]
      scan_range_bounded_raw [where st = st and en = en and ns = ns and db = db]
    by (auto simp: strip_rows_take Let_def
        dest!: begin_read_law tree_scan_law)
  moreover have "length ?rows \<le> usize_max"
    using assms(2) entries_where_length_le [OF rows_finite] le_trans by blast
  ultimately show ?thesis
    by (auto split: option.splits)
qed

lemma cursor_raw:
  assumes "check_prefix_cursor pre after_key = Inr u"
    and "start = (if after_key \<noteq> None then (nsb ns # the after_key) @ [0] else nsb ns # pre)"
  shows "strip_rows (entries_where (\<lambda>c. prefix (nsb ns # pre) c \<and> start \<le> c) (contents db))
       = entries_where (cursor_match pre after_key) (pagedb_rows contents nsb db ns)"
proof -
  have le: "prefix pre k \<Longrightarrow> pre \<le> k" for k :: bytes
    by (rule prefix_le)
  have "strip_rows (entries_where (\<lambda>c. prefix (nsb ns # pre) c \<and> start \<le> c) (contents db))
      = entries_where (\<lambda>k. prefix (nsb ns # pre) (nsb ns # k) \<and> start \<le> nsb ns # k)
          (pagedb_rows contents nsb db ns)"
    using prefix_ns_Cons by (intro rows_of_entries) blast
  also have "\<dots> = entries_where (cursor_match pre after_key) (pagedb_rows contents nsb db ns)"
    using le by (intro entries_where_cong) (auto simp: assms(2) cursor_match_def snoc_zero_le_iff)
  finally show ?thesis .
qed

lemma scan_budgeted_ok:
  assumes "scan_budgeted pd nsb db ns pre after_key mr mb rej = Inr sc" "0 < mr" "mb \<le> usize_max"
  defines "matching \<equiv> entries_where (cursor_match pre after_key) (pagedb_rows contents nsb db ns)"
  shows "budget_ok matching mr mb sc"
    and "mb + mr \<le> usize_max \<Longrightarrow> budget_maximal matching mr mb sc"
    and "rej \<Longrightarrow> ps_entries sc = [] \<Longrightarrow> ps_limit sc \<noteq> Some Bytes"
proof -
  define start where
    "start = (if after_key \<noteq> None then (nsb ns # the after_key) @ [0] else nsb ns # pre)"
  have start': "(let start = prefix_key nsb ns (case after_key of Some a \<Rightarrow> a | None \<Rightarrow> pre)
                 in if after_key \<noteq> None then start @ [0] else start) = start"
    by (cases after_key) (simp_all add: start_def prefix_key_def)
  obtain u r raw sl where r: "check_prefix_cursor pre after_key = Inr u"
    "pd_begin_read pd db = Inr r"
    "pd_scan_prefix_from_bounded pd r (nsb ns # pre) start mr (usize_sat_add mb mr) = Inr (raw, sl)"
    "sc = budget_loop mb raw 0 \<lparr>ps_entries = [], ps_limit = map_option limit_from_pagedb sl\<rparr>"
    "rej \<Longrightarrow> ps_entries sc = [] \<Longrightarrow> ps_limit sc \<noteq> Some Bytes"
    using assms(1,2) start' by (auto simp: scan_budgeted_def prefix_key_def Let_def split: if_splits)
  let ?whole = "entries_where (\<lambda>c. prefix (nsb ns # pre) c \<and> start \<le> c) (contents db)"
  have raw: "bounded_scan_ok ?whole mr (usize_sat_add mb mr) raw sl"
    using tree_scan_bounded_law [OF r(3)] begin_read_law [OF r(2)] by simp
  have ne: "[] \<notin> fst ` set ?whole"
    by (auto simp: entries_where_set [OF finite_contents])
  have m: "strip_rows ?whole = matching"
    using cursor_raw [OF r(1) start_def] by (simp add: matching_def)
  show "budget_ok matching mr mb sc"
    using budget_loop_ok(1) [OF raw ne assms(3) r(4)] by (simp add: m)
  show "mb + mr \<le> usize_max \<Longrightarrow> budget_maximal matching mr mb sc"
    using budget_loop_ok(2) [OF raw ne assms(3) r(4)] by (simp add: m)
qed (use assms in \<open>auto simp: scan_budgeted_def Let_def split: if_splits prod.splits\<close>)

end

context pagedb_ns
begin

lemma rows_cong: "contents db' = contents db \<Longrightarrow> pagedb_rows contents nsb db' = pagedb_rows contents nsb db"
  by (intro ext) (simp add: pagedb_rows_def)

lemma put_rows_err:
  "put_rows pd nsb db ns k v = (Inl e, db') \<Longrightarrow> pagedb_rows contents nsb db' = pagedb_rows contents nsb db"
  unfolding put_rows_def Let_def by (rule rows_cong, erule commit_txn_err)

lemma delete_rows_err:
  "delete_rows pd nsb db ns k = (Inl e, db') \<Longrightarrow> pagedb_rows contents nsb db' = pagedb_rows contents nsb db"
  unfolding delete_rows_def Let_def by (rule rows_cong, erule commit_txn_err)

lemma batch_write_rows_err:
  "batch_write_rows pd nsb db ops = (Inl e, db') \<Longrightarrow> pagedb_rows contents nsb db' = pagedb_rows contents nsb db"
  unfolding batch_write_rows_def
  by (cases "ops = []") (simp, simp only: if_False, rule rows_cong, erule commit_txn_err)

lemma compact_rows_keep:
  assumes "compact_rows pd db = (outcome, db')"
  shows "pagedb_rows contents nsb db' = pagedb_rows contents nsb db"
proof -
  obtain c db1 where c: "pd_compact_now pd db = (c, db1)" by fastforce
  obtain g db2 where g: "pd_gc_now pd db1 = (g, db2)" by fastforce
  have "db' = db1 \<or> db' = db2"
    using assms c g by (auto simp: compact_rows_def split: sum.splits)
  then show ?thesis
    using compact_law [OF c] gc_law [OF g] by (intro rows_cong) auto
qed

lemma count_rows_ok:
  assumes "count_rows pd nsb db ns = Inr n"
  shows "n = of_nat (card (dom (pagedb_rows contents nsb db ns)))"
proof -
  have n: "n = of_nat (length (entries_where (prefix [nsb ns]) (contents db)))"
    using assms begin_read_law tree_scan_prefix_law by (fastforce simp: count_rows_def)
  have "strip_rows (entries_where (prefix [nsb ns]) (contents db))
      = entries_where (\<lambda>k. prefix [nsb ns] (nsb ns # k)) (pagedb_rows contents nsb db ns)"
    by (rule rows_of_entries) (rule prefix_ns_Cons)
  then have "length (strip_rows (entries_where (prefix [nsb ns]) (contents db)))
      = card (dom (pagedb_rows contents nsb db ns))"
    by (simp add: entries_where_length [OF rows_finite])
  then show ?thesis
    by (simp add: n strip_rows_def)
qed

end

sublocale pagedb_ns \<subseteq> engine: storage_engine "pagedb_engine pd nsb" "pagedb_rows contents nsb" "\<lambda>_. True" "\<lambda>_ _. False"
proof (unfold_locales, goal_cases)
  case 1 show ?case by (rule rows_finite)
next
  case 2 then show ?case by (simp only: pagedb_engine_sel get_rows_ok)
next
  case 4 then show ?case by (simp only: pagedb_engine_sel put_rows_ok)
next
  case 5 then show ?case by (simp only: pagedb_engine_sel put_rows_err)
next
  case 7 then show ?case by (simp only: pagedb_engine_sel delete_rows_ok)
next
  case 8 then show ?case by (simp only: pagedb_engine_sel delete_rows_err)
next
  case 10 then show ?case by (simp only: pagedb_engine_sel batch_write_rows_ok)
next
  case 11 then show ?case by (simp only: pagedb_engine_sel batch_write_rows_err)
next
  case 12 then show ?case by (simp only: pagedb_engine_sel count_rows_ok)
next
  case 14 then show ?case by (simp only: pagedb_engine_sel compact_rows_keep)
next
  case 15 then show ?case by (simp only: pagedb_engine_sel scan_prefix_rows_ok)
next
  case 16 then show ?case by (simp only: pagedb_engine_sel scan_prefix_bounded_rows_ok)
next
  case (17 db pre ns mr mb sc)
  then show ?case using scan_budgeted_ok(1) [of db ns pre None mr mb False sc]
    by (simp add: cursor_match_def [abs_def])
next
  case (18 db pre ns after_key mr mb sc)
  then show ?case using scan_budgeted_ok [of db ns pre after_key mr mb True sc] by simp
next
  case 19 then show ?case by (simp only: pagedb_engine_sel scan_range_rows_ok)
next
  case 20 then show ?case by (simp only: pagedb_engine_sel scan_range_bounded_rows_ok)
qed simp_all

context pagedb_ns
begin

lemma is_engine:
  "storage_engine (pagedb_engine pd nsb) (pagedb_rows contents nsb) (\<lambda>_. True) (\<lambda>_ _. False)"
  by unfold_locales

end

subsection \<open>A reference instance of the external crate\<close>

text \<open>A database is an association list, a transaction a copy of it. Scans sort the keys.\<close>

definition mem_scan :: "(bytes \<Rightarrow> bool) \<Rightarrow> kv_pair list \<Rightarrow> kv_pair list" where
  "mem_scan P xs = map (\<lambda>k. (k, the (map_of xs k))) (sort (remdups (filter P (map fst xs))))"

fun mem_bounded :: "usize \<Rightarrow> usize \<Rightarrow> kv_pair list \<Rightarrow> kv_pair list \<times> scan_limit option" where
  "mem_bounded mr mb [] = ([], None)"
| "mem_bounded mr mb ((k, v) # rest) =
     (if mr = 0 then ([], Some ScanRecords)
      else if length k + length v > mb then ([], Some ScanBytes)
      else let (es, lim) = mem_bounded (mr - 1) (mb - (length k + length v)) rest
           in ((k, v) # es, lim))"

definition mem_pagedb :: "(kv_pair list, kv_pair list, kv_pair list) pagedb_ops" where
  "mem_pagedb =
     \<lparr>pd_begin_read = (\<lambda>db. Inr db),
      pd_get = (\<lambda>r c. Inr (map_of r c)),
      pd_scan_prefix = (\<lambda>r pre. Inr (mem_scan (prefix pre) r)),
      pd_scan_prefix_from = (\<lambda>r pre start lim. Inr (take lim (mem_scan (\<lambda>c. prefix pre c \<and> start \<le> c) r))),
      pd_scan = (\<lambda>r start stop. Inr (mem_scan (\<lambda>c. start \<le> c \<and> c < stop) r)),
      pd_scan_prefix_from_bounded =
        (\<lambda>r pre start mr mb. Inr (mem_bounded mr mb (mem_scan (\<lambda>c. prefix pre c \<and> start \<le> c) r))),
      pd_begin_write = (\<lambda>db. Inr db),
      pd_put = (\<lambda>w c v. Inr (AList.update c v w)),
      pd_delete = (\<lambda>w c. Inr (AList.delete c w)),
      pd_put_batch = (\<lambda>w puts. Inr (AList.merge w puts)),
      pd_delete_batch = (\<lambda>w dels. Inr (filter (\<lambda>(k, v). k \<notin> set dels) w)),
      pd_commit = (\<lambda>db w. (Inr (), w)),
      pd_compact_now =
        (\<lambda>db. (Inr \<lparr>main_db_pages_reclaimed = 0, stats_segments_repacked = 0, bytes_truncated = 0\<rparr>, db)),
      pd_gc_now = (\<lambda>db. (Inr \<lparr>gc_reclaimed_segments = 0, gc_reclaimed_bytes = 0\<rparr>, db))\<rparr>"

text \<open>Discriminants in declaration order, an injective assignment below 255.\<close>

fun demo_nsb :: "namespace \<Rightarrow> u8" where
  "demo_nsb Meta = 0" | "demo_nsb Graph = 1" | "demo_nsb Kv = 2" | "demo_nsb Vector = 3"
| "demo_nsb Strict = 4" | "demo_nsb Array = 5" | "demo_nsb Fts = 6" | "demo_nsb Crdt = 7"
| "demo_nsb Columnar = 8" | "demo_nsb ArrayDelta = 9" | "demo_nsb Spatial = 10"
| "demo_nsb LatestVersion = 11" | "demo_nsb GraphHistory = 12" | "demo_nsb LoroState = 13"
| "demo_nsb DocumentHistory = 14" | "demo_nsb ArrayOpLog = 15" | "demo_nsb StrictHistory = 16"
| "demo_nsb ColumnarPending = 17" | "demo_nsb FtsIndexPending = 18" | "demo_nsb FtsDeletePending = 19"
| "demo_nsb SpatialDeletePending = 20" | "demo_nsb SpatialInsertPending = 21"
| "demo_nsb VectorInsertPending = 22" | "demo_nsb VectorDeletePending = 23"
| "demo_nsb TimeseriesPending = 24" | "demo_nsb KvPushPending = 25"

lemma demo_nsb_inj: "inj demo_nsb"
proof -
  let ?all = "[Meta, Graph, Kv, Vector, Strict, Array, Fts, Crdt, Columnar, ArrayDelta, Spatial,
    LatestVersion, GraphHistory, LoroState, DocumentHistory, ArrayOpLog, StrictHistory,
    ColumnarPending, FtsIndexPending, FtsDeletePending, SpatialDeletePending, SpatialInsertPending,
    VectorInsertPending, VectorDeletePending, TimeseriesPending, KvPushPending]"
  have "ns \<in> set ?all" for ns
    by (cases ns) simp_all
  then have all: "UNIV \<subseteq> set ?all"
    by (intro subsetI)
  have "distinct (map demo_nsb ?all)"
    by code_simp
  then have "inj_on demo_nsb (set ?all)"
    unfolding distinct_map by (rule conjunct2)
  then show ?thesis
    by (rule inj_on_subset [OF _ all])
qed

lemma mem_scan_entries: "mem_scan P xs = entries_where P (map_of xs)"
proof -
  have "{k \<in> dom (map_of xs). P k} = set (filter P (map fst xs))"
    by (auto simp: dom_map_of_conv_image_fst)
  then show ?thesis
    by (simp only: mem_scan_def entries_where_def sorted_list_of_set_sort_remdups)
qed

lemma bounded_scan_ok_Cons:
  assumes "bounded_scan_ok rest (mr - 1) (mb - length k - length v) es lim"
    and "0 < mr" "length k + length v \<le> mb"
  shows "bounded_scan_ok ((k, v) # rest) mr mb ((k, v) # es) lim"
  using assms by (auto simp: bounded_scan_ok_def)

lemma mem_bounded_ok:
  "bounded_scan_ok kvs mr mb (fst (mem_bounded mr mb kvs)) (snd (mem_bounded mr mb kvs))"
proof (induction mr mb kvs rule: mem_bounded.induct)
  case (2 mr mb k v rest)
  show ?case
  proof (cases "0 < mr \<and> length k + length v \<le> mb")
    case True
    then have "bounded_scan_ok ((k, v) # rest) mr mb
        ((k, v) # fst (mem_bounded (mr - 1) (mb - (length k + length v)) rest))
        (snd (mem_bounded (mr - 1) (mb - (length k + length v)) rest))"
      using 2 by (intro bounded_scan_ok_Cons) (auto simp: diff_diff_left)
    with True show ?thesis
      by (simp add: case_prod_unfold Let_def)
  qed (auto simp: bounded_scan_ok_def)
qed (simp add: bounded_scan_ok_def)

lemma filter_not_in_map_of:
  "map_of (filter (\<lambda>(k, v). k \<notin> A) xs) = map_of xs |` (- A)"
  by (induction xs) (auto simp: restrict_map_def fun_eq_iff)

interpretation mem: pagedb_ns mem_pagedb map_of map_of map_of demo_nsb
proof (unfold_locales, goal_cases)
  case (7 rtxn pre start mr mb kvs sl)
  then show ?case
    using mem_bounded_ok [of "mem_scan (\<lambda>c. prefix pre c \<and> start \<le> c) rtxn" mr mb]
    by (simp add: mem_pagedb_def mem_scan_entries)
next
  case 17
  show ?case by (rule demo_nsb_inj)
next
  case (18 ns)
  show ?case by (cases ns) simp_all
qed (simp_all add: mem_pagedb_def mem_scan_entries finite_dom_map_of update_conv' delete_conv'
      merge_conv' filter_not_in_map_of)

context pagedb_ns
begin

lemma scan_err_cause:
  assumes "scan_budgeted pd nsb db ns pre after_key mr mb True = Inl e"
    and "0 < mr" "mb + mr \<le> usize_max" "check_prefix_cursor pre after_key = Inr ()"
  shows "reads_fail pd db \<or>
     (\<exists>(k, v) \<in> set (entries_where (cursor_match pre after_key) (pagedb_rows contents nsb db ns)).
        mb < length k + length v)"
proof (cases "scan_budgeted pd nsb db ns pre after_key mr mb False")
  case (Inl e')
  have "reads_fail pd db"
  proof (rule ccontr)
    assume "\<not> reads_fail pd db"
    then obtain txn where "pd_begin_read pd db = Inr txn"
      "\<And>p start m b. is_ok (pd_scan_prefix_from_bounded pd txn p start m b)"
      by (auto simp: reads_fail_def split: sum.splits)
    then have "is_ok (scan_budgeted pd nsb db ns pre after_key mr mb False)"
      using assms(2,4) by (simp add: scan_budgeted_def Let_def is_ok_iff)
    with Inl show False
      by simp
  qed
  then show ?thesis ..
next
  case (Inr sc)
  let ?matching = "entries_where (cursor_match pre after_key) (pagedb_rows contents nsb db ns)"
  have "ps_entries sc = []" "ps_limit sc = Some Bytes"
    using assms(1,2,4) Inr by (auto simp: scan_budgeted_def Let_def split: if_splits sum.splits prod.splits)
  moreover have "budget_ok ?matching mr mb sc" "budget_maximal ?matching mr mb sc"
    using scan_budgeted_ok(1,2) [OF Inr] assms(2,3) by auto
  ultimately have "mb < row_bytes (take 1 ?matching)"
    using assms(2) by (auto simp: budget_ok_def budget_maximal_def)
  then show ?thesis
    by (cases ?matching) auto
qed

lemma resume_rows:
  assumes "prefix es (entries_where (cursor_match pre after_key) (pagedb_rows contents nsb db ns))" "es \<noteq> []"
  shows "entries_where (cursor_match pre after_key) (pagedb_rows contents nsb db ns)
       = es @ entries_where (cursor_match pre (Some (fst (last es)))) (pagedb_rows contents nsb db ns)"
    and "check_prefix_cursor pre (Some (fst (last es))) = Inr ()"
proof -
  let ?rows = "pagedb_rows contents nsb db ns"
  have "last es \<in> set (entries_where (cursor_match pre after_key) ?rows)"
    using assms by (meson last_in_set set_mono_prefix subsetD)
  then have m: "cursor_match pre after_key (fst (last es))"
    by (auto simp: entries_where_set [OF rows_finite] case_prod_unfold)
  then have "(cursor_match pre after_key k \<and> fst (last es) < k) = cursor_match pre (Some (fst (last es))) k" for k
    by (auto simp: cursor_match_def split: option.splits)
  then show "entries_where (cursor_match pre after_key) ?rows
       = es @ entries_where (cursor_match pre (Some (fst (last es)))) ?rows"
    using entries_where_resume [OF rows_finite assms] by simp
  show "check_prefix_cursor pre (Some (fst (last es))) = Inr ()"
    using m by (simp add: check_prefix_cursor_def cursor_match_def)
qed

lemma page_through_ok:
  assumes "0 < mr" "mb + mr \<le> usize_max" "check_prefix_cursor pre after_key = Inr ()"
  shows "case page_through pd nsb db ns pre mr mb after_key of
           None \<Rightarrow> False
         | Some (Inr kvs) \<Rightarrow> kvs = entries_where (cursor_match pre after_key) (pagedb_rows contents nsb db ns)
         | Some (Inl e) \<Rightarrow> reads_fail pd db \<or>
             (\<exists>(k, v) \<in> set (entries_where (cursor_match pre after_key) (pagedb_rows contents nsb db ns)).
                mb < length k + length v)"
  using assms(3)
proof (induction "length (entries_where (cursor_match pre after_key) (pagedb_rows contents nsb db ns))"
    arbitrary: after_key rule: less_induct)
  case less
  let ?rows = "pagedb_rows contents nsb db ns"
  let ?page = "page_through pd nsb db ns pre mr mb"
  show ?case
  proof (cases "scan_budgeted pd nsb db ns pre after_key mr mb True")
    case (Inl e)
    then show ?thesis
      using scan_err_cause [OF Inl assms(1,2) less.prems] by (subst page_through.simps) simp
  next
    case (Inr sc)
    have ok: "budget_ok (entries_where (cursor_match pre after_key) ?rows) mr mb sc"
      "ps_entries sc = [] \<Longrightarrow> ps_limit sc \<noteq> Some Bytes"
      using scan_budgeted_ok(1,3) [OF Inr assms(1)] assms(2) by auto
    show ?thesis
    proof (cases "ps_limit sc")
      case None
      then show ?thesis
        using ok(1) Inr by (subst page_through.simps) (simp add: budget_ok_def)
    next
      case (Some l)
      then have ne: "ps_entries sc \<noteq> []"
        using ok assms(1) by (cases l) (auto simp: budget_ok_def)
      let ?next = "Some (fst (last (ps_entries sc)))"
      have pre: "prefix (ps_entries sc) (entries_where (cursor_match pre after_key) ?rows)"
        using ok(1) by (simp add: budget_ok_def)
      have all: "entries_where (cursor_match pre after_key) ?rows
          = ps_entries sc @ entries_where (cursor_match pre ?next) ?rows"
        and cur: "check_prefix_cursor pre ?next = Inr ()"
        using resume_rows [OF pre ne] by simp_all
      have "length (entries_where (cursor_match pre ?next) ?rows)
          < length (entries_where (cursor_match pre after_key) ?rows)"
        using ne by (simp add: all)
      from less.hyps [OF this cur] show ?thesis
        using Inr Some all by (subst page_through.simps) (auto split: option.splits sum.splits)
    qed
  qed
qed

end

subsection \<open>Properties of the backend\<close>

text \<open>
  C2. Whatever the external tree is, as long as it keeps the laws of \<open>pagedb_api\<close>, the
  backend implements the whole \<open>StorageEngine\<close> contract: point reads, writes and
  deletes, atomic batches, counts, and every ordered scan, with no row of one
  namespace visible in another.
\<close>

theorem pagedb_is_storage_engine:
  assumes "pagedb_ns pd contents snapshot pending nsb"
  shows "storage_engine (pagedb_engine pd nsb) (pagedb_rows contents nsb) (\<lambda>_. True) (\<lambda>_ _. False)"
  using assms by (rule pagedb_ns.is_engine)

text \<open>
  C1. A batch is applied in the order the caller gave it, whichever path
  \<open>batch_write_rows\<close> takes: with duplicate keys it applies the operations one by
  one, with distinct keys it sorts the puts and the deletes apart, and both give the
  rows of the in-order application. A batch that reports an error changes no row.
\<close>

theorem pagedb_batch_in_order:
  assumes "pagedb_ns pd contents snapshot pending nsb"
    and "batch_write_rows pd nsb db ops = (r, db')"
  shows "pagedb_rows contents nsb db' =
         (if is_ok r then rows_apply_all (pagedb_rows contents nsb db) ops
          else pagedb_rows contents nsb db)"
  using pagedb_ns.batch_write_rows_ok [OF assms(1)] pagedb_ns.batch_write_rows_err [OF assms(1)] assms(2)
  by (cases r) auto

text \<open>
  C3. A budgeted prefix scan returns an initial part of the matching rows after the
  cursor, within both budgets, reports a limit exactly when rows remain, and stops only
  when a budget is used up: the next row would not fit. The extra byte per record that
  the composite keys cost never evicts a row.
\<close>

theorem pagedb_scan_budgeted_exact:
  assumes "pagedb_ns pd contents snapshot pending nsb"
    and "scan_budgeted pd nsb db ns pre after_key max_records max_bytes rej = Inr sc"
    and "0 < max_records" "max_bytes + max_records \<le> usize_max"
  shows "budget_ok (entries_where (cursor_match pre after_key) (pagedb_rows contents nsb db ns))
           max_records max_bytes sc
       \<and> budget_maximal (entries_where (cursor_match pre after_key) (pagedb_rows contents nsb db ns))
           max_records max_bytes sc"
  using pagedb_ns.scan_budgeted_ok(1,2) [OF assms(1-3)] assms(4) by simp

text \<open>
  C4. Paging is exact. Repeating the resumable scan, each call from the last key of the page
  before, always ends. It returns every matching row once and in key order, whatever the page
  sizes are, and it fails only when the tree's own reads fail or when a single row is larger than
  the byte budget.
\<close>

theorem pagedb_paging_exact:
  assumes "pagedb_ns pd contents snapshot pending nsb"
    and "0 < max_records" "max_bytes + max_records \<le> usize_max"
  shows "case page_through pd nsb db ns pre max_records max_bytes None of
           None \<Rightarrow> False
         | Some (Inr kvs) \<Rightarrow> kvs = entries_where (prefix pre) (pagedb_rows contents nsb db ns)
         | Some (Inl e) \<Rightarrow> reads_fail pd db \<or>
             (\<exists>(k, v) \<in> set (entries_where (prefix pre) (pagedb_rows contents nsb db ns)).
                max_bytes < length k + length v)"
proof -
  have all: "cursor_match pre None = prefix pre"
    by (simp add: cursor_match_def fun_eq_iff)
  show ?thesis
    using pagedb_ns.page_through_ok [OF assms, of pre None db ns, unfolded all]
    by (simp add: check_prefix_cursor_def)
qed

theorem pagedb_is_storage_engine_witness:
  "storage_engine (pagedb_engine mem_pagedb demo_nsb) (pagedb_rows map_of demo_nsb) (\<lambda>_. True) (\<lambda>_ _. False)"
  by (rule pagedb_is_storage_engine [OF mem.pagedb_ns_axioms])

text \<open>A store with rows of two namespaces, a batch with distinct keys and a page of two rows.\<close>

definition demo_db :: "kv_pair list" where
  "demo_db = [([2, 97], [1]), ([2, 98], [2, 2]), ([2, 98, 99], [3]), ([3, 98], [9])]"

definition demo_batch :: "write_op list" where
  "demo_batch = [Put Kv [99] [7], Delete Kv [97], Put Vector [97] [8]]"

definition demo_page :: prefix_scan where
  "demo_page = \<lparr>ps_entries = [([97], [1]), ([98], [2, 2])], ps_limit = Some Records\<rparr>"

lemma demo_batch_ok: "is_ok (fst (batch_write_rows mem_pagedb demo_nsb demo_db demo_batch))"
  by (simp add: batch_write_rows_def demo_batch_def demo_db_def mem_pagedb_def commit_txn_def Let_def
      apply_batched_def prefix_key_def)

lemma demo_page_scan:
  "scan_budgeted mem_pagedb demo_nsb demo_db Kv [] None 2 5 True = Inr demo_page"
  by (simp add: scan_budgeted_def check_prefix_cursor_def demo_db_def mem_pagedb_def Let_def
      prefix_key_def mem_scan_def usize_sat_add_def usize_checked_add_def usize_max_def demo_page_def)

theorem pagedb_batch_in_order_witness:
  "pagedb_rows map_of demo_nsb (snd (batch_write_rows mem_pagedb demo_nsb demo_db demo_batch))
     = rows_apply_all (pagedb_rows map_of demo_nsb demo_db) demo_batch"
  using pagedb_batch_in_order [OF mem.pagedb_ns_axioms surjective_pairing, of demo_db demo_batch]
    demo_batch_ok by simp

theorem pagedb_scan_budgeted_exact_witness:
  "scan_budgeted mem_pagedb demo_nsb demo_db Kv [] None 2 5 True = Inr demo_page \<and>
   budget_maximal (entries_where (cursor_match [] None) (pagedb_rows map_of demo_nsb demo_db Kv)) 2 5 demo_page"
  using pagedb_scan_budgeted_exact [OF mem.pagedb_ns_axioms demo_page_scan] demo_page_scan
  by (simp add: usize_max_def)

theorem pagedb_paging_exact_witness:
  "case page_through mem_pagedb demo_nsb demo_db Kv [] 2 5 None of
     None \<Rightarrow> False
   | Some (Inr kvs) \<Rightarrow> kvs = entries_where (prefix []) (pagedb_rows map_of demo_nsb demo_db Kv)
   | Some (Inl e) \<Rightarrow> reads_fail mem_pagedb demo_db \<or>
       (\<exists>(k, v) \<in> set (entries_where (prefix []) (pagedb_rows map_of demo_nsb demo_db Kv)).
          5 < length k + length v)"
  by (rule pagedb_paging_exact [OF mem.pagedb_ns_axioms]) (simp_all add: usize_max_def)

end
