(* ===== verification/Encrypted_Storage.thy ===== *)
theory Encrypted_Storage
  imports Pagedb_Storage
begin

text \<open>
  The encrypting wrapper (\<open>storage/encrypted/\<close>): key derivation on open, the nonce, the
  trait operations of \<open>EncryptedStorage\<close> over any inner engine, and the proof that the
  wrapper keeps the storage contract of the engine it wraps.

  AES-GCM, Argon2id, CRC32C and the random source are external: the cipher is the
  record \<open>aead\<close>, an argument of every definition, with the documented law of an
  authenticated cipher (\<open>aead_law\<close>: what was encrypted under a nonce decrypts under
  it, and a ciphertext is 16 bytes longer); the checksum, the key derivation and the
  random bytes are function arguments.
\<close>

subsection \<open>Data\<close>

definition SALT_SIZE :: usize where
  "SALT_SIZE = 16"

definition SALT_KEY :: bytes where
  "SALT_KEY = map of_char ''encryption:salt''"

record aead =
  aead_encrypt :: "bytes \<Rightarrow> bytes \<Rightarrow> bytes option"
  aead_decrypt :: "bytes \<Rightarrow> bytes \<Rightarrow> bytes option"

record crypto_env =
  ce_crc32c :: "bytes \<Rightarrow> u32"
  ce_nsb :: "namespace \<Rightarrow> u8"
  ce_cipher :: aead

definition is_salt :: "namespace \<Rightarrow> bytes \<Rightarrow> bool" where
  "is_salt ns key \<longleftrightarrow> ns = Meta \<and> key = SALT_KEY"

subsection \<open>Opening\<close>

text \<open>\<open>random\<close> is what the random source fills the salt with (\<open>None\<close> when it fails),
  \<open>params_ok\<close> and \<open>hash_password\<close> are the Argon2id parameter check and hash, and
  \<open>new_cipher\<close> builds the cipher from the derived key.\<close>

definition read_or_make_salt ::
  "'s storage_ops \<Rightarrow> bytes option \<Rightarrow> 's \<Rightarrow> bytes lite_result \<times> 's" where
  "read_or_make_salt inner random s =
     (case so_get inner s Meta SALT_KEY of
        Inl e \<Rightarrow> (Inl e, s)
      | Inr (Some existing_salt) \<Rightarrow>
          if length existing_salt \<noteq> SALT_SIZE then (Inl Storage, s) else (Inr existing_salt, s)
      | Inr None \<Rightarrow>
          (case random of
             None \<Rightarrow> (Inl Storage, s)
           | Some salt \<Rightarrow>
               (case so_put inner s Meta SALT_KEY salt of
                  (Inl e, s') \<Rightarrow> (Inl e, s')
                | (Inr _, s') \<Rightarrow> (Inr salt, s'))))"

definition enc_open ::
  "'s storage_ops \<Rightarrow> bytes option \<Rightarrow> (u32 \<Rightarrow> u32 \<Rightarrow> u32 \<Rightarrow> bool)
     \<Rightarrow> (u32 \<Rightarrow> u32 \<Rightarrow> u32 \<Rightarrow> bytes \<Rightarrow> bytes \<Rightarrow> bytes option) \<Rightarrow> (bytes \<Rightarrow> aead option)
     \<Rightarrow> 's \<Rightarrow> string \<Rightarrow> u32 \<Rightarrow> u32 \<Rightarrow> u32 \<Rightarrow> aead lite_result \<times> 's" where
  "enc_open inner random params_ok hash_password new_cipher s passphrase m_cost t_cost p_cost =
     (case read_or_make_salt inner random s of
        (Inl e, s') \<Rightarrow> (Inl e, s')
      | (Inr salt, s') \<Rightarrow>
          if \<not> params_ok m_cost t_cost p_cost then (Inl Storage, s')
          else (case hash_password m_cost t_cost p_cost (map of_char passphrase) salt of
                  None \<Rightarrow> (Inl Storage, s')
                | Some key_bytes \<Rightarrow>
                    (case new_cipher key_bytes of
                       None \<Rightarrow> (Inl Storage, s')
                     | Some cipher \<Rightarrow> (Inr cipher, s'))))"

subsection \<open>Nonce, encryption and decryption\<close>

definition derive_nonce :: "(bytes \<Rightarrow> u32) \<Rightarrow> (namespace \<Rightarrow> u8) \<Rightarrow> namespace \<Rightarrow> bytes \<Rightarrow> bytes" where
  "derive_nonce crc32c nsb ns key =
     (let nonce_input = [nsb ns] @ key;
          crc_bytes = u32_to_le_bytes (crc32c nonce_input);
          prefix_len = min (length key) 5
      in crc_bytes @ [nsb ns] @ u16_to_le_bytes (length key)
           @ take prefix_len key @ replicate (5 - prefix_len) 0)"

definition encrypt :: "crypto_env \<Rightarrow> namespace \<Rightarrow> bytes \<Rightarrow> bytes \<Rightarrow> bytes lite_result" where
  "encrypt env ns key plaintext =
     (let nonce = derive_nonce (ce_crc32c env) (ce_nsb env) ns key
      in case aead_encrypt (ce_cipher env) nonce plaintext of
           Some c \<Rightarrow> Inr c
         | None \<Rightarrow> Inl Storage)"

definition decrypt :: "crypto_env \<Rightarrow> namespace \<Rightarrow> bytes \<Rightarrow> bytes \<Rightarrow> bytes lite_result" where
  "decrypt env ns key ciphertext =
     (let nonce = derive_nonce (ce_crc32c env) (ce_nsb env) ns key
      in case aead_decrypt (ce_cipher env) nonce ciphertext of
           Some p \<Rightarrow> Inr p
         | None \<Rightarrow> Inl Storage)"

subsection \<open>Operations\<close>

definition enc_get ::
  "'s storage_ops \<Rightarrow> crypto_env \<Rightarrow> 's \<Rightarrow> namespace \<Rightarrow> bytes \<Rightarrow> bytes option lite_result" where
  "enc_get inner env s ns key =
     (if is_salt ns key then so_get inner s ns key
      else rbind (so_get inner s ns key) (\<lambda>found.
             case found of
               Some ciphertext \<Rightarrow> rbind (decrypt env ns key ciphertext) (\<lambda>plaintext. Inr (Some plaintext))
             | None \<Rightarrow> Inr None))"

definition enc_put ::
  "'s storage_ops \<Rightarrow> crypto_env \<Rightarrow> 's \<Rightarrow> namespace \<Rightarrow> bytes \<Rightarrow> bytes \<Rightarrow> unit lite_result \<times> 's" where
  "enc_put inner env s ns key val =
     (if is_salt ns key then so_put inner s ns key val
      else case encrypt env ns key val of
             Inl e \<Rightarrow> (Inl e, s)
           | Inr ciphertext \<Rightarrow> so_put inner s ns key ciphertext)"

definition enc_delete ::
  "'s storage_ops \<Rightarrow> 's \<Rightarrow> namespace \<Rightarrow> bytes \<Rightarrow> unit lite_result \<times> 's" where
  "enc_delete inner s ns key = so_delete inner s ns key"

fun skip_undecryptable :: "crypto_env \<Rightarrow> namespace \<Rightarrow> kv_pair list \<Rightarrow> kv_pair list" where
  "skip_undecryptable env ns [] = []"
| "skip_undecryptable env ns ((key, ciphertext) # rest) =
     (case decrypt env ns key ciphertext of
        Inr plaintext \<Rightarrow> (key, plaintext) # skip_undecryptable env ns rest
      | Inl _ \<Rightarrow> skip_undecryptable env ns rest)"

definition enc_scan_prefix ::
  "'s storage_ops \<Rightarrow> crypto_env \<Rightarrow> 's \<Rightarrow> namespace \<Rightarrow> bytes \<Rightarrow> kv_pair list lite_result" where
  "enc_scan_prefix inner env s ns pre =
     rbind (so_scan_prefix inner s ns pre) (\<lambda>entries. Inr (skip_undecryptable env ns entries))"

definition decrypt_row :: "crypto_env \<Rightarrow> namespace \<Rightarrow> bytes \<Rightarrow> bytes \<Rightarrow> bytes lite_result" where
  "decrypt_row env ns key ciphertext =
     (if is_salt ns key then Inr ciphertext else decrypt env ns key ciphertext)"

definition enc_scan_prefix_bounded ::
  "'s storage_ops \<Rightarrow> crypto_env \<Rightarrow> 's \<Rightarrow> namespace \<Rightarrow> bytes \<Rightarrow> usize \<Rightarrow> kv_pair list lite_result" where
  "enc_scan_prefix_bounded inner env s ns pre lim =
     rbind (so_scan_prefix_bounded inner s ns pre lim) (\<lambda>entries.
       collect_results (\<lambda>(key, ciphertext).
         rbind (decrypt_row env ns key ciphertext) (\<lambda>plaintext. Inr (key, plaintext))) entries)"

fun encrypt_op :: "crypto_env \<Rightarrow> write_op \<Rightarrow> write_op lite_result" where
  "encrypt_op env (Put ns key val) =
     (if is_salt ns key then Inr (Put ns key val)
      else rbind (encrypt env ns key val) (\<lambda>ciphertext. Inr (Put ns key ciphertext)))"
| "encrypt_op env (Delete ns key) = Inr (Delete ns key)"

definition enc_batch_write ::
  "'s storage_ops \<Rightarrow> crypto_env \<Rightarrow> 's \<Rightarrow> write_op list \<Rightarrow> unit lite_result \<times> 's" where
  "enc_batch_write inner env s ops =
     (case collect_results (encrypt_op env) ops of
        Inl e \<Rightarrow> (Inl e, s)
      | Inr encrypted_ops \<Rightarrow> so_batch_write inner s encrypted_ops)"

definition enc_count :: "'s storage_ops \<Rightarrow> 's \<Rightarrow> namespace \<Rightarrow> u64 lite_result" where
  "enc_count inner s ns = so_count inner s ns"

definition enc_scan_range ::
  "'s storage_ops \<Rightarrow> crypto_env \<Rightarrow> 's \<Rightarrow> namespace \<Rightarrow> bytes \<Rightarrow> usize \<Rightarrow> kv_pair list lite_result" where
  "enc_scan_range inner env s ns start lim =
     rbind (so_scan_range inner s ns start lim) (\<lambda>entries. Inr (skip_undecryptable env ns entries))"

definition enc_scan_range_bounded ::
  "'s storage_ops \<Rightarrow> crypto_env \<Rightarrow> 's \<Rightarrow> namespace \<Rightarrow> bytes option \<Rightarrow> bytes option \<Rightarrow> usize option
     \<Rightarrow> kv_pair list lite_result" where
  "enc_scan_range_bounded inner env s ns start en lim =
     rbind (so_scan_range_bounded inner s ns start en lim) (\<lambda>entries.
       Inr (skip_undecryptable env ns entries))"

text \<open>The loop of the budgeted scan: \<open>continuation\<close> stops at the first row that does not
  fit, the other scan goes on decrypting with the byte count saturated.\<close>

fun enc_budget_loop ::
  "crypto_env \<Rightarrow> namespace \<Rightarrow> usize \<Rightarrow> bool \<Rightarrow> kv_pair list \<Rightarrow> usize \<Rightarrow> prefix_scan
     \<Rightarrow> prefix_scan lite_result" where
  "enc_budget_loop env ns max_bytes continuation [] bytes res = Inr res"
| "enc_budget_loop env ns max_bytes continuation ((key, ciphertext) # rest) bytes res =
     rbind (decrypt_row env ns key ciphertext) (\<lambda>plaintext.
       case Option.bind (usize_checked_add (length key) (length plaintext)) (usize_checked_add bytes) of
         Some n \<Rightarrow>
           if n \<le> max_bytes
           then enc_budget_loop env ns max_bytes continuation rest n
                  (res\<lparr>ps_entries := ps_entries res @ [(key, plaintext)]\<rparr>)
           else if continuation then Inr (res\<lparr>ps_limit := Some Bytes\<rparr>)
           else enc_budget_loop env ns max_bytes continuation rest usize_max
                  (res\<lparr>ps_limit := Some Bytes\<rparr>)
       | None \<Rightarrow>
           if continuation then Inr (res\<lparr>ps_limit := Some Bytes\<rparr>)
           else enc_budget_loop env ns max_bytes continuation rest usize_max
                  (res\<lparr>ps_limit := Some Bytes\<rparr>))"

definition enc_scan_budgeted ::
  "'s storage_ops \<Rightarrow> crypto_env \<Rightarrow> 's \<Rightarrow> namespace \<Rightarrow> bytes \<Rightarrow> bytes option \<Rightarrow> usize \<Rightarrow> usize \<Rightarrow> bool
     \<Rightarrow> prefix_scan lite_result" where
  "enc_scan_budgeted inner env s ns pre after_key max_records max_bytes continuation =
     (if max_records = 0 then Inr prefix_scan_default
      else rbind (check_prefix_cursor pre after_key) (\<lambda>_.
        let encrypted_budget = usize_sat_add max_bytes (usize_sat_mul max_records 16)
        in rbind (if continuation
                  then so_scan_prefix_from_budgeted inner s ns pre after_key max_records encrypted_budget
                  else so_scan_prefix_budgeted inner s ns pre max_records encrypted_budget) (\<lambda>scan.
           rbind (enc_budget_loop env ns max_bytes continuation (ps_entries scan) 0
                    \<lparr>ps_entries = [], ps_limit = ps_limit scan\<rparr>) (\<lambda>result.
             if continuation \<and> ps_entries result = [] \<and> ps_limit result = Some Bytes
             then Inl (prefix_scan_budget_error pre after_key max_bytes)
             else Inr result))))"

text \<open>\<open>compact\<close> is not overridden: the trait's default applies.\<close>

definition encrypted_engine :: "'s storage_ops \<Rightarrow> crypto_env \<Rightarrow> 's storage_ops" where
  "encrypted_engine inner env =
     \<lparr>so_get = enc_get inner env,
      so_put = enc_put inner env,
      so_delete = enc_delete inner,
      so_scan_prefix = enc_scan_prefix inner env,
      so_scan_prefix_bounded = enc_scan_prefix_bounded inner env,
      so_scan_prefix_budgeted =
        (\<lambda>s ns pre max_records max_bytes.
           enc_scan_budgeted inner env s ns pre None max_records max_bytes False),
      so_scan_prefix_from_budgeted =
        (\<lambda>s ns pre after_key max_records max_bytes.
           enc_scan_budgeted inner env s ns pre after_key max_records max_bytes True),
      so_batch_write = enc_batch_write inner env,
      so_count = enc_count inner,
      so_compact = default_compact,
      so_scan_range = enc_scan_range inner env,
      so_scan_range_bounded = enc_scan_range_bounded inner env\<rparr>"

lemma encrypted_engine_sel [simp]:
  "so_get (encrypted_engine inner env) = enc_get inner env"
  "so_put (encrypted_engine inner env) = enc_put inner env"
  "so_delete (encrypted_engine inner env) = enc_delete inner"
  "so_scan_prefix (encrypted_engine inner env) = enc_scan_prefix inner env"
  "so_scan_prefix_bounded (encrypted_engine inner env) = enc_scan_prefix_bounded inner env"
  "so_scan_prefix_budgeted (encrypted_engine inner env) s ns pre mr mb =
     enc_scan_budgeted inner env s ns pre None mr mb False"
  "so_scan_prefix_from_budgeted (encrypted_engine inner env) s ns pre ak mr mb =
     enc_scan_budgeted inner env s ns pre ak mr mb True"
  "so_batch_write (encrypted_engine inner env) = enc_batch_write inner env"
  "so_count (encrypted_engine inner env) = enc_count inner"
  "so_compact (encrypted_engine inner env) = default_compact"
  "so_scan_range (encrypted_engine inner env) = enc_scan_range inner env"
  "so_scan_range_bounded (encrypted_engine inner env) = enc_scan_range_bounded inner env"
  by (simp_all add: encrypted_engine_def)

subsection \<open>The plaintext rows behind a wrapper\<close>

definition aead_law :: "aead \<Rightarrow> bool" where
  "aead_law c \<longleftrightarrow>
     (\<forall>nonce p x. aead_encrypt c nonce p = Some x \<longrightarrow>
        aead_decrypt c nonce x = Some p \<and> length x = length p + 16)"

definition enc_rows :: "crypto_env \<Rightarrow> ('s \<Rightarrow> rows) \<Rightarrow> 's \<Rightarrow> rows" where
  "enc_rows env rows_of s ns k =
     (case rows_of s ns k of
        None \<Rightarrow> None
      | Some c \<Rightarrow> (case decrypt_row env ns k c of Inr p \<Rightarrow> Some p | Inl _ \<Rightarrow> None))"

definition enc_inv :: "crypto_env \<Rightarrow> ('s \<Rightarrow> rows) \<Rightarrow> ('s \<Rightarrow> bool) \<Rightarrow> 's \<Rightarrow> bool" where
  "enc_inv env rows_of inner_inv s \<longleftrightarrow>
     inner_inv s \<and> (\<forall>ns k c. rows_of s ns k = Some c \<longrightarrow> (\<exists>p. decrypt_row env ns k c = Inr p))"

definition plain :: "crypto_env \<Rightarrow> namespace \<Rightarrow> kv_pair \<Rightarrow> kv_pair" where
  "plain env ns = (\<lambda>(k, c). (k, projr (decrypt_row env ns k c)))"

lemma fst_plain [simp]: "fst (plain env ns kv) = fst kv"
  by (simp add: plain_def case_prod_unfold)

lemma decrypt_encrypt:
  "aead_law (ce_cipher env) \<Longrightarrow> encrypt env ns k p = Inr c \<Longrightarrow> decrypt env ns k c = Inr p"
  by (auto simp: encrypt_def decrypt_def aead_law_def Let_def split: option.splits)

lemma decrypt_row_encrypt_op:
  assumes "aead_law (ce_cipher env)" "encrypt_op env op = Inr op'"
  shows "case op' of Put ns k c \<Rightarrow> (\<exists>p. op = Put ns k p \<and> decrypt_row env ns k c = Inr p)
                   | Delete ns k \<Rightarrow> op = Delete ns k"
  using assms decrypt_encrypt [OF assms(1)]
  by (cases op) (auto simp: decrypt_row_def split: if_splits)

lemma skip_undecryptable_all:
  assumes "\<And>k c. (k, c) \<in> set kvs \<Longrightarrow> \<not> is_salt ns k \<and> (\<exists>p. decrypt_row env ns k c = Inr p)"
  shows "skip_undecryptable env ns kvs = map (plain env ns) kvs"
  using assms
proof (induction kvs)
  case (Cons kv kvs)
  obtain k c where kv: "kv = (k, c)" by fastforce
  obtain p where "decrypt env ns k c = Inr p"
    using Cons.prems [of k c] by (auto simp: kv decrypt_row_def)
  moreover have "\<not> is_salt ns k"
    using Cons.prems [of k c] by (simp add: kv)
  ultimately show ?case
    using Cons by (auto simp: kv plain_def decrypt_row_def)
qed simp

lemma collect_plain:
  assumes "\<And>k c. (k, c) \<in> set kvs \<Longrightarrow> \<exists>p. decrypt_row env ns k c = Inr p"
  shows "collect_results (\<lambda>(key, ciphertext).
           rbind (decrypt_row env ns key ciphertext) (\<lambda>plaintext. Inr (key, plaintext))) kvs
         = Inr (map (plain env ns) kvs)"
  using assms by (intro collect_results_all_ok) (fastforce simp: plain_def)

subsection \<open>Budgets over ciphertexts\<close>

lemma enc_budget_saturated:
  assumes "\<And>k c. (k, c) \<in> set kvs \<Longrightarrow> k \<noteq> [] \<and> (\<exists>p. decrypt_row env ns k c = Inr p)"
    and "ps_limit res = Some Bytes"
  shows "enc_budget_loop env ns mb False kvs usize_max res = Inr res"
  using assms
proof (induction kvs)
  case (Cons kv kvs)
  obtain k c where kv: "kv = (k, c)" by fastforce
  obtain p where p: "decrypt_row env ns k c = Inr p" "k \<noteq> []"
    using Cons.prems(1) [of k c] by (auto simp: kv)
  have "Option.bind (usize_checked_add (length k) (length p)) (usize_checked_add usize_max) = None"
    using p(2) by (auto simp: usize_checked_add_def bind_eq_None_conv)
  moreover have "res\<lparr>ps_limit := Some Bytes\<rparr> = res"
    using Cons.prems(2) by (cases res) simp
  moreover have "enc_budget_loop env ns mb False kvs usize_max res = Inr res"
    using Cons.prems by (intro Cons.IH) auto
  ultimately show ?case
    using p by (simp add: kv)
qed simp

lemma enc_budget_loop_spec:
  assumes "mb \<le> usize_max" "acc \<le> mb" "sorted_wrt (<) (map fst kvs)"
    and "\<And>k c. (k, c) \<in> set kvs \<Longrightarrow> \<exists>p. decrypt_row env ns k c = Inr p"
  shows "\<exists>g res'. enc_budget_loop env ns mb cont kvs acc res = Inr res' \<and> g \<le> length kvs \<and>
     ps_entries res' = ps_entries res @ take g (map (plain env ns) kvs) \<and>
     acc + row_bytes (take g (map (plain env ns) kvs)) \<le> mb \<and>
     ps_limit res' = (if g = length kvs then ps_limit res else Some Bytes)"
  using assms(2-)
proof (induction kvs arbitrary: acc res)
  case (Cons kv kvs)
  obtain k c where kv: "kv = (k, c)" by fastforce
  obtain p where p: "decrypt_row env ns k c = Inr p"
    using Cons.prems(3) [of k c] by (auto simp: kv)
  have pl: "plain env ns kv = (k, p)"
    by (simp add: kv plain_def p)
  show ?case
  proof (cases "acc + (length k + length p) \<le> mb")
    case True
    let ?res = "res\<lparr>ps_entries := ps_entries res @ [(k, p)]\<rparr>"
    have "enc_budget_loop env ns mb cont (kv # kvs) acc res
        = enc_budget_loop env ns mb cont kvs (acc + (length k + length p)) ?res"
      using True assms(1) p by (simp add: kv usize_checked_add_def)
    moreover obtain g res' where
      "enc_budget_loop env ns mb cont kvs (acc + (length k + length p)) ?res = Inr res'"
      "g \<le> length kvs" "ps_entries res' = ps_entries ?res @ take g (map (plain env ns) kvs)"
      "acc + (length k + length p) + row_bytes (take g (map (plain env ns) kvs)) \<le> mb"
      "ps_limit res' = (if g = length kvs then ps_limit ?res else Some Bytes)"
      using Cons.IH [OF True] Cons.prems(2,3) by fastforce
    ultimately show ?thesis
      by (intro exI [of _ "Suc g"] exI [of _ res']) (simp add: pl add.assoc)
  next
    case False
    have ne: "k' \<noteq> []" if "(k', c') \<in> set kvs" for k' c'
      using Cons.prems(2) that by (force simp: kv)
    let ?res = "res\<lparr>ps_limit := Some Bytes\<rparr>"
    have "enc_budget_loop env ns mb False kvs usize_max ?res = Inr ?res"
      using ne Cons.prems(3) by (intro enc_budget_saturated) auto
    then have "enc_budget_loop env ns mb cont (kv # kvs) acc res = Inr ?res"
      using False p by (cases cont) (simp_all add: kv usize_checked_add_def)
    then show ?thesis
      using Cons.prems(1) by (intro exI [of _ 0]) simp
  qed
qed simp

subsection \<open>The wrapper keeps the storage contract\<close>

locale encrypted_over =
  storage_engine inner inner_rows inner_inv inner_hidden
  for inner :: "'s storage_ops" and inner_rows inner_inv inner_hidden +
  fixes env :: crypto_env
  assumes cipher_law: "aead_law (ce_cipher env)"
begin

abbreviation erows :: "'s \<Rightarrow> rows" where
  "erows \<equiv> enc_rows env inner_rows"

abbreviation einv :: "'s \<Rightarrow> bool" where
  "einv \<equiv> enc_inv env inner_rows inner_inv"

lemma einv_inner: "einv s \<Longrightarrow> inner_inv s"
  by (simp add: enc_inv_def)

lemma einv_decrypts: "einv s \<Longrightarrow> inner_rows s ns k = Some c \<Longrightarrow> \<exists>p. decrypt_row env ns k c = Inr p"
  by (simp add: enc_inv_def)

lemma erows_dom: "einv s \<Longrightarrow> dom (erows s ns) = dom (inner_rows s ns)"
  by (auto simp: enc_rows_def enc_inv_def dom_def split: option.splits sum.splits) force

lemma erows_entries:
  assumes "einv s"
  shows "entries_where P (erows s ns) = map (plain env ns) (entries_where P (inner_rows s ns))"
proof -
  have "(k, the (erows s ns k)) = plain env ns (k, the (inner_rows s ns k))"
    if k: "k \<in> dom (inner_rows s ns)" for k
  proof -
    obtain c p where "inner_rows s ns k = Some c" "decrypt_row env ns k c = Inr p"
      using k einv_decrypts [OF assms] by blast
    then show ?thesis by (simp add: enc_rows_def plain_def)
  qed
  then show ?thesis
    using finite_rows [OF einv_inner [OF assms]]
    by (simp add: entries_where_def erows_dom [OF assms])
qed

lemma entries_decrypt:
  assumes "einv s" "(k, c) \<in> set (entries_where P (inner_rows s ns))"
  shows "P k" "\<exists>p. decrypt_row env ns k c = Inr p"
  using assms(2) einv_decrypts [OF assms(1)]
  by (auto simp: entries_where_set [OF finite_rows [OF einv_inner [OF assms(1)]]])

lemma eapply:
  assumes "einv s" "encrypt_op env op = Inr op'" "inner_rows s' = rows_apply (inner_rows s) op'" "inner_inv s'"
  shows "erows s' = rows_apply (erows s) op" "einv s'"
  using decrypt_row_encrypt_op [OF cipher_law assms(2)] assms(1,3,4)
  by (cases op'; auto simp: enc_rows_def enc_inv_def fun_eq_iff split: option.splits)+

lemma eapply_all_aux:
  assumes "collect_results (encrypt_op env) ops = Inr ops'"
    and "\<forall>ns k c. m ns k = Some c \<longrightarrow> (\<exists>p. decrypt_row env ns k c = Inr p)"
  shows "(\<forall>ns k c. rows_apply_all m ops' ns k = Some c \<longrightarrow> (\<exists>p. decrypt_row env ns k c = Inr p)) \<and>
         enc_rows env (\<lambda>_. rows_apply_all m ops') () = rows_apply_all (enc_rows env (\<lambda>_. m) ()) ops"
  using assms
proof (induction ops arbitrary: ops' m)
  case (Cons op ops)
  obtain op1 ops1 where o: "encrypt_op env op = Inr op1" "collect_results (encrypt_op env) ops = Inr ops1"
    "ops' = op1 # ops1"
    using Cons.prems(1) by (auto split: sum.splits)
  have d: "\<forall>ns k c. rows_apply m op1 ns k = Some c \<longrightarrow> (\<exists>p. decrypt_row env ns k c = Inr p)"
    using decrypt_row_encrypt_op [OF cipher_law o(1)] Cons.prems(2)
    by (cases op1) auto
  have e: "enc_rows env (\<lambda>_. rows_apply m op1) () = rows_apply (enc_rows env (\<lambda>_. m) ()) op"
    using decrypt_row_encrypt_op [OF cipher_law o(1)]
    by (cases op1) (auto simp: enc_rows_def fun_eq_iff split: option.splits)
  show ?case
    using Cons.IH [OF o(2) d] e by (simp add: o(3))
qed simp

lemma ebatch:
  assumes "einv s" "collect_results (encrypt_op env) ops = Inr ops'"
    "inner_rows s' = rows_apply_all (inner_rows s) ops'" "inner_inv s'"
  shows "erows s' = rows_apply_all (erows s) ops" "einv s'"
proof -
  have er: "erows t = enc_rows env (\<lambda>_. inner_rows t) ()" for t
    by (simp add: enc_rows_def fun_eq_iff)
  have "\<forall>ns k c. inner_rows s ns k = Some c \<longrightarrow> (\<exists>p. decrypt_row env ns k c = Inr p)"
    using assms(1) by (simp add: enc_inv_def)
  from eapply_all_aux [OF assms(2) this]
  show "erows s' = rows_apply_all (erows s) ops" "einv s'"
    using assms(3,4) by (simp_all add: er enc_inv_def)
qed

end

definition enc_hidden :: "(namespace \<Rightarrow> bytes \<Rightarrow> bool) \<Rightarrow> namespace \<Rightarrow> bytes \<Rightarrow> bool" where
  "enc_hidden inner_hidden ns k \<longleftrightarrow> inner_hidden ns k \<or> is_salt ns k"

context encrypted_over
begin

abbreviation ehidden :: "namespace \<Rightarrow> bytes \<Rightarrow> bool" where
  "ehidden \<equiv> enc_hidden inner_hidden"

lemma eget:
  assumes "einv s" "enc_get inner env s ns k = Inr found"
  shows "found = erows s ns k"
proof (cases "is_salt ns k")
  case True
  then have "found = inner_rows s ns k"
    using assms get_law [OF einv_inner] by (simp add: enc_get_def)
  then show ?thesis
    using True by (simp add: enc_rows_def decrypt_row_def split: option.splits)
next
  case False
  then obtain c where c: "so_get inner s ns k = Inr c"
    "(case c of Some x \<Rightarrow> rbind (decrypt env ns k x) (\<lambda>p. Inr (Some p)) | None \<Rightarrow> Inr None) = Inr found"
    using assms(2) by (auto simp: enc_get_def)
  have "c = inner_rows s ns k"
    by (rule get_law [OF einv_inner [OF assms(1)] c(1)])
  then show ?thesis
    using c(2) False by (auto simp: enc_rows_def decrypt_row_def split: option.splits)
qed

lemma eput:
  assumes "einv s" "enc_put inner env s ns k v = (r, s')"
  shows "einv s' \<and> erows s' = (if is_ok r then rows_apply (erows s) (Put ns k v) else erows s)"
proof (cases "encrypt_op env (Put ns k v)")
  case (Inl e)
  then show ?thesis
    using assms by (auto simp: enc_put_def split: if_splits sum.splits)
next
  case (Inr op')
  then obtain c where op': "op' = Put ns k c" "so_put inner s ns k c = (r, s')"
    using assms(2) by (auto simp: enc_put_def split: if_splits)
  note inv' = put_inv [OF einv_inner [OF assms(1)] op'(2)]
  show ?thesis
  proof (cases r)
    case (Inl e)
    then have "inner_rows s' = inner_rows s"
      using put_err [OF einv_inner [OF assms(1)]] op'(2) by simp
    then show ?thesis
      using Inl inv' assms(1) by (simp add: enc_inv_def enc_rows_def fun_eq_iff)
  next
    case R: (Inr u)
    then have "inner_rows s' = rows_apply (inner_rows s) op'"
      using put_ok [OF einv_inner [OF assms(1)]] op' by simp
    from eapply [OF assms(1) Inr this inv'] show ?thesis
      using R by simp
  qed
qed

lemma edelete:
  assumes "einv s" "enc_delete inner s ns k = (r, s')"
  shows "einv s' \<and> erows s' = (if is_ok r then rows_apply (erows s) (Delete ns k) else erows s)"
proof -
  have d: "so_delete inner s ns k = (r, s')"
    using assms(2) by (simp add: enc_delete_def)
  note inv' = delete_inv [OF einv_inner [OF assms(1)] d]
  show ?thesis
  proof (cases r)
    case (Inl e)
    then have "inner_rows s' = inner_rows s"
      using delete_err [OF einv_inner [OF assms(1)]] d by simp
    then show ?thesis
      using Inl inv' assms(1) by (simp add: enc_inv_def enc_rows_def fun_eq_iff)
  next
    case (Inr u)
    then have "inner_rows s' = rows_apply (inner_rows s) (Delete ns k)"
      using delete_ok [OF einv_inner [OF assms(1)]] d by simp
    from eapply [OF assms(1) _ this inv', of "Delete ns k"] show ?thesis
      using Inr by simp
  qed
qed

lemma ebatch_write:
  assumes "einv s" "enc_batch_write inner env s ops = (r, s')"
  shows "einv s' \<and> erows s' = (if is_ok r then rows_apply_all (erows s) ops else erows s)"
proof (cases "collect_results (encrypt_op env) ops")
  case (Inl e)
  then show ?thesis using assms by (auto simp: enc_batch_write_def)
next
  case C: (Inr ops')
  then have b: "so_batch_write inner s ops' = (r, s')"
    using assms(2) by (simp add: enc_batch_write_def)
  note inv' = batch_inv [OF einv_inner [OF assms(1)] b]
  show ?thesis
  proof (cases r)
    case (Inl e)
    then have "inner_rows s' = inner_rows s"
      using batch_err [OF einv_inner [OF assms(1)]] b by simp
    then show ?thesis
      using Inl inv' assms(1) by (simp add: enc_inv_def enc_rows_def fun_eq_iff)
  next
    case (Inr u)
    then have "inner_rows s' = rows_apply_all (inner_rows s) ops'"
      using batch_ok [OF einv_inner [OF assms(1)]] b by simp
    from ebatch [OF assms(1) C this inv'] show ?thesis
      using Inr by simp
  qed
qed

lemma skip_entries:
  assumes "einv s" "set kvs \<subseteq> set (entries_where P (inner_rows s ns))" "\<And>k. P k \<Longrightarrow> \<not> ehidden ns k"
  shows "skip_undecryptable env ns kvs = map (plain env ns) kvs"
proof (rule skip_undecryptable_all)
  fix k c
  assume "(k, c) \<in> set kvs"
  then have i: "(k, c) \<in> set (entries_where P (inner_rows s ns))"
    using assms(2) by blast
  show "\<not> is_salt ns k \<and> (\<exists>p. decrypt_row env ns k c = Inr p)"
    using entries_decrypt [OF assms(1) i] assms(3) by (simp add: enc_hidden_def)
qed

lemma escan_prefix:
  assumes "einv s" "\<And>k. prefix pre k \<Longrightarrow> \<not> ehidden ns k" "enc_scan_prefix inner env s ns pre = Inr kvs"
  shows "kvs = entries_where (prefix pre) (erows s ns)"
proof -
  obtain raw where raw: "so_scan_prefix inner s ns pre = Inr raw" "kvs = skip_undecryptable env ns raw"
    using assms(3) by (auto simp: enc_scan_prefix_def)
  have "raw = entries_where (prefix pre) (inner_rows s ns)"
    using scan_prefix_law [OF einv_inner [OF assms(1)] _ raw(1)] assms(2) by (simp add: enc_hidden_def)
  then show ?thesis
    using raw(2) skip_entries [OF assms(1), of raw "prefix pre"] assms(2)
    by (simp add: erows_entries [OF assms(1)])
qed

lemma escan_prefix_bounded:
  assumes "einv s" "\<And>k. prefix pre k \<Longrightarrow> \<not> ehidden ns k"
    "enc_scan_prefix_bounded inner env s ns pre lim = Inr kvs"
  shows "kvs = take lim (entries_where (prefix pre) (erows s ns))"
proof -
  obtain raw where raw: "so_scan_prefix_bounded inner s ns pre lim = Inr raw"
    "collect_results (\<lambda>(key, ciphertext).
       rbind (decrypt_row env ns key ciphertext) (\<lambda>plaintext. Inr (key, plaintext))) raw = Inr kvs"
    using assms(3) by (auto simp: enc_scan_prefix_bounded_def)
  have r: "raw = take lim (entries_where (prefix pre) (inner_rows s ns))"
    using scan_prefix_bounded_law [OF einv_inner [OF assms(1)] _ raw(1)] assms(2) by (simp add: enc_hidden_def)
  have "\<exists>p. decrypt_row env ns k c = Inr p" if "(k, c) \<in> set raw" for k c
    using that by (auto simp: r intro: entries_decrypt(2) [OF assms(1)] dest: in_set_takeD)
  then have "kvs = map (plain env ns) raw"
    using collect_plain [of raw env ns] raw(2) by simp
  then show ?thesis
    by (simp add: r erows_entries [OF assms(1)] take_map)
qed

lemma escan_range:
  assumes "einv s" "\<And>k. start \<le> k \<Longrightarrow> \<not> ehidden ns k" "enc_scan_range inner env s ns start lim = Inr kvs"
  shows "kvs = take lim (entries_where (\<lambda>k. start \<le> k) (erows s ns))"
proof -
  obtain raw where raw: "so_scan_range inner s ns start lim = Inr raw" "kvs = skip_undecryptable env ns raw"
    using assms(3) by (auto simp: enc_scan_range_def)
  have r: "raw = take lim (entries_where (\<lambda>k. start \<le> k) (inner_rows s ns))"
    using scan_range_law [OF einv_inner [OF assms(1)] _ raw(1)] assms(2) by (simp add: enc_hidden_def)
  then show ?thesis
    using raw(2) skip_entries [OF assms(1) set_take_subset assms(2)]
    by (simp add: erows_entries [OF assms(1)] take_map)
qed

lemma escan_range_bounded:
  assumes "einv s" "\<And>k. \<not> ehidden ns k"
    "enc_scan_range_bounded inner env s ns st en lim = Inr kvs" "card (dom (erows s ns)) \<le> usize_max"
  shows "kvs = (case lim of None \<Rightarrow> (\<lambda>xs. xs) | Some l \<Rightarrow> take l)
          (entries_where (\<lambda>k. (case st of None \<Rightarrow> True | Some a \<Rightarrow> a \<le> k) \<and>
                              (case en of None \<Rightarrow> True | Some b \<Rightarrow> k < b)) (erows s ns))"
proof -
  let ?P = "\<lambda>k. (case st of None \<Rightarrow> True | Some a \<Rightarrow> a \<le> k) \<and> (case en of None \<Rightarrow> True | Some b \<Rightarrow> k < b)"
  obtain raw where raw: "so_scan_range_bounded inner s ns st en lim = Inr raw"
    "kvs = skip_undecryptable env ns raw"
    using assms(3) by (auto simp: enc_scan_range_bounded_def)
  have r: "raw = (case lim of None \<Rightarrow> (\<lambda>xs. xs) | Some l \<Rightarrow> take l) (entries_where ?P (inner_rows s ns))"
    using assms(2,4) by (intro scan_range_bounded_law [OF einv_inner [OF assms(1)] _ raw(1)])
      (simp_all add: enc_hidden_def erows_dom [OF assms(1)])
  then have "set raw \<subseteq> set (entries_where ?P (inner_rows s ns))"
    by (auto split: option.splits dest: in_set_takeD)
  then have "kvs = map (plain env ns) raw"
    using raw(2) skip_entries [OF assms(1) _ assms(2)] by simp
  then show ?thesis
    by (auto simp: r erows_entries [OF assms(1)] take_map split: option.splits)
qed

lemma ebudget:
  assumes "einv s" "budget_ok (entries_where P (inner_rows s ns)) mr budget scan" "mb \<le> usize_max"
    and "enc_budget_loop env ns mb cont (ps_entries scan) 0 \<lparr>ps_entries = [], ps_limit = ps_limit scan\<rparr> = Inr sc"
  shows "budget_ok (entries_where P (erows s ns)) mr mb sc"
proof -
  let ?in = "entries_where P (inner_rows s ns)"
  have pre: "prefix (ps_entries scan) ?in" and len: "length (ps_entries scan) \<le> mr"
    and lim: "ps_limit scan = None \<longleftrightarrow> ps_entries scan = ?in"
    and rec: "ps_limit scan = Some Records \<Longrightarrow> length (ps_entries scan) = mr"
    using assms(2) by (auto simp: budget_ok_def)
  then obtain rest where rest: "?in = ps_entries scan @ rest" by (auto simp: prefix_def)
  have "sorted_wrt (<) (map fst (ps_entries scan))"
    using entries_where_sorted [of P "inner_rows s ns"] by (simp add: rest sorted_wrt_append)
  then obtain g where g: "g \<le> length (ps_entries scan)"
    "ps_entries sc = take g (map (plain env ns) (ps_entries scan))" "row_bytes (ps_entries sc) \<le> mb"
    "ps_limit sc = (if g = length (ps_entries scan) then ps_limit scan else Some Bytes)"
    using enc_budget_loop_spec [OF assms(3) le0, of "ps_entries scan" env ns cont "\<lparr>ps_entries = [], ps_limit = ps_limit scan\<rparr>"]
      entries_decrypt(2) [OF assms(1), of _ _ P ns] assms(4) rest by fastforce
  have "entries_where P (erows s ns) = map (plain env ns) (ps_entries scan) @ map (plain env ns) rest"
    by (simp add: erows_entries [OF assms(1)] rest)
  moreover have "ps_entries sc = map (plain env ns) (ps_entries scan) @ map (plain env ns) rest
      \<longleftrightarrow> g = length (ps_entries scan) \<and> rest = []"
    using g(1,2) by (auto dest: arg_cong [where f = length])
  ultimately show ?thesis
    using g len lim rec rest by (auto simp: budget_ok_def take_is_prefix split: if_splits)
qed

lemma escan_budgeted:
  assumes "einv s" "\<And>k. prefix pre k \<Longrightarrow> \<not> ehidden ns k" "0 < mr" "mb \<le> usize_max"
    and "enc_scan_budgeted inner env s ns pre after_key mr mb cont = Inr sc" "cont \<or> after_key = None"
  shows "budget_ok (entries_where (cursor_match pre after_key) (erows s ns)) mr mb sc \<and>
         (cont \<longrightarrow> ps_entries sc = [] \<longrightarrow> ps_limit sc \<noteq> Some Bytes)"
proof -
  define budget where "budget = usize_sat_add mb (usize_sat_mul mr 16)"
  have b: "budget \<le> usize_max"
    by (simp add: budget_def usize_sat_add_def)
  obtain scan where scan:
    "(if cont then so_scan_prefix_from_budgeted inner s ns pre after_key mr budget
      else so_scan_prefix_budgeted inner s ns pre mr budget) = Inr scan"
    "enc_budget_loop env ns mb cont (ps_entries scan) 0 \<lparr>ps_entries = [], ps_limit = ps_limit scan\<rparr> = Inr sc"
    "cont \<Longrightarrow> ps_entries sc = [] \<Longrightarrow> ps_limit sc \<noteq> Some Bytes"
    using assms(3,5) by (auto simp: enc_scan_budgeted_def Let_def budget_def split: if_splits)
  have h: "\<And>k. prefix pre k \<Longrightarrow> \<not> inner_hidden ns k"
    using assms(2) by (simp add: enc_hidden_def)
  have "budget_ok (entries_where (cursor_match pre after_key) (inner_rows s ns)) mr budget scan"
  proof (cases cont)
    case True
    then show ?thesis
      using scan_prefix_from_budgeted_law [OF einv_inner [OF assms(1)] h _ assms(3) b] scan(1) by simp
  next
    case False
    then have "after_key = None" using assms(6) by simp
    then show ?thesis
      using scan_prefix_budgeted_law [OF einv_inner [OF assms(1)] h _ assms(3) b] scan(1) False
      by (simp add: cursor_match_def [abs_def])
  qed
  then show ?thesis
    using ebudget [OF assms(1) _ assms(4) scan(2)] scan(3) by blast
qed

end

sublocale encrypted_over \<subseteq> enc: storage_engine "encrypted_engine inner env" erows einv ehidden
proof (unfold_locales, goal_cases)
  case (1 s ns)
  then show ?case using finite_rows [OF einv_inner] erows_dom by metis
next
  case 2 then show ?case unfolding encrypted_engine_sel by (rule eget)
next
  case (3 s ns k v r s')
  then show ?case using eput [of s ns k v r s'] by simp
next
  case (4 s ns k v u s')
  then show ?case using eput [of s ns k v "Inr u" s'] by simp
next
  case (5 s ns k v e s')
  then show ?case using eput [of s ns k v "Inl e" s'] by simp
next
  case (6 s ns k r s')
  then show ?case using edelete [of s ns k r s'] by simp
next
  case (7 s ns k u s')
  then show ?case using edelete [of s ns k "Inr u" s'] by simp
next
  case (8 s ns k e s')
  then show ?case using edelete [of s ns k "Inl e" s'] by simp
next
  case (9 s ops r s')
  then show ?case using ebatch_write [of s ops r s'] by simp
next
  case (10 s ops u s')
  then show ?case using ebatch_write [of s ops "Inr u" s'] by simp
next
  case (11 s ops e s')
  then show ?case using ebatch_write [of s ops "Inl e" s'] by simp
next
  case (12 s ns n)
  then show ?case
    using count_law [OF einv_inner, of s ns n] erows_dom [of s ns] by (simp add: enc_count_def)
next
  case 15 then show ?case unfolding encrypted_engine_sel by (rule escan_prefix)
next
  case 16 then show ?case unfolding encrypted_engine_sel by (rule escan_prefix_bounded)
next
  case (17 s pre ns mr mb sc)
  then show ?case using escan_budgeted [of s pre ns mr mb None False sc]
    by (simp add: cursor_match_def [abs_def])
next
  case (18 s pre ns after_key mr mb sc)
  then show ?case using escan_budgeted [of s pre ns mr mb after_key True sc] by simp
next
  case 19 then show ?case unfolding encrypted_engine_sel by (rule escan_range)
next
  case 20 then show ?case unfolding encrypted_engine_sel by (rule escan_range_bounded)
qed (simp_all add: default_compact_def)

context encrypted_over
begin

lemma is_encrypted_engine:
  "storage_engine (encrypted_engine inner env) (enc_rows env inner_rows) (enc_inv env inner_rows inner_inv)
     (enc_hidden inner_hidden)"
  by unfold_locales

end

lemma read_salt_again:
  assumes "kv_store inner inner_rows inner_inv" "inner_inv s"
    and "\<And>salt. random = Some salt \<Longrightarrow> length salt = SALT_SIZE"
    and "read_or_make_salt inner random s = (Inr salt, s')"
    and "so_get inner s' Meta SALT_KEY = Inr found"
  shows "read_or_make_salt inner random' s' = (Inr salt, s')"
proof -
  have "found = Some salt \<and> length salt = SALT_SIZE"
  proof (cases "so_get inner s Meta SALT_KEY")
    case (Inr stored)
    show ?thesis
    proof (cases stored)
      case None
      then obtain u where u: "random = Some salt" "so_put inner s Meta SALT_KEY salt = (Inr u, s')"
        using assms(4) Inr by (auto simp: read_or_make_salt_def split: option.splits prod.splits sum.splits)
      then show ?thesis
        using kv_store.get_after_put [OF assms(1,2) u(2) assms(5)] assms(3) by simp
    next
      case (Some x)
      then show ?thesis
        using assms(4,5) Inr by (auto simp: read_or_make_salt_def split: if_splits)
    qed
  qed (use assms(4) in \<open>simp add: read_or_make_salt_def\<close>)
  then show ?thesis
    using assms(5) by (simp add: read_or_make_salt_def)
qed

lemma skip_undecryptable_in:
  "(k, p) \<in> set (skip_undecryptable env ns raw) \<Longrightarrow> \<exists>c. (k, c) \<in> set raw \<and> decrypt env ns k c = Inr p"
proof (induction raw)
  case (Cons kc raw)
  then show ?case
    by (cases kc; cases "decrypt env ns (fst kc) (snd kc)") auto
qed simp

text \<open>The first row under a key used as a prefix is the key's own row.\<close>

lemma first_prefix_row:
  assumes "finite (dom m)" "m k = Some v"
  shows "take 1 (entries_where (prefix k) m) = [(k :: bytes, v)]"
proof (cases "entries_where (prefix k) m")
  case Nil
  then show ?thesis using entries_where_set [OF assms(1), of "prefix k"] assms(2) by auto
next
  case (Cons kv rest)
  have in_rows: "(k, v) \<in> set (kv # rest)"
    using assms by (simp add: entries_where_set flip: Cons)
  have "kv \<in> set (entries_where (prefix k) m)"
    unfolding Cons by simp
  then have "prefix k (fst kv)"
    by (auto simp: entries_where_set [OF assms(1)])
  then have "k \<le> fst kv"
    by (rule prefix_le)
  moreover have "\<forall>x \<in> set rest. fst kv < fst x"
    using entries_where_sorted [of "prefix k" m] Cons by simp
  ultimately have "kv = (k, v)" using in_rows by fastforce
  then show ?thesis using Cons by simp
qed

subsection \<open>A reference cipher\<close>

text \<open>A transparent cipher that appends the nonce as a 16-byte tag: enough to exercise the
  definitions, with the law of an authenticated cipher and no secrecy.\<close>

definition demo_tag :: "bytes \<Rightarrow> bytes" where
  "demo_tag nonce = take 16 (nonce @ replicate 16 1)"

definition demo_cipher :: aead where
  "demo_cipher =
     \<lparr>aead_encrypt = (\<lambda>nonce p. Some (p @ demo_tag nonce)),
      aead_decrypt = (\<lambda>nonce c. if drop (length c - 16) c = demo_tag nonce
                                then Some (take (length c - 16) c) else None)\<rparr>"

definition demo_env :: crypto_env where
  "demo_env = \<lparr>ce_crc32c = (\<lambda>bs. of_nat (length bs)), ce_nsb = demo_nsb, ce_cipher = demo_cipher\<rparr>"

lemma demo_cipher_law: "aead_law demo_cipher"
  by (auto simp: aead_law_def demo_cipher_def demo_tag_def)

interpretation enc_mem: encrypted_over "pagedb_engine mem_pagedb demo_nsb" "pagedb_rows map_of demo_nsb"
  "\<lambda>_. True" "\<lambda>_ _. False" demo_env
  by unfold_locales (simp add: demo_env_def demo_cipher_law)

subsection \<open>Properties of the wrapper\<close>

text \<open>
  C5. Wrapping any engine that keeps the storage contract in \<open>EncryptedStorage\<close> gives an
  engine that keeps it on the plaintext rows: what is put, batched, scanned or counted
  through the wrapper behaves as on an unencrypted store, budgets are counted in
  plaintext bytes, and only the salt row is special.
\<close>

theorem encrypted_is_storage_engine:
  assumes "storage_engine inner inner_rows inner_inv inner_hidden" "aead_law (ce_cipher env)"
  shows "storage_engine (encrypted_engine inner env) (enc_rows env inner_rows)
           (enc_inv env inner_rows inner_inv) (enc_hidden inner_hidden)"
proof -
  have "encrypted_over inner inner_rows inner_inv inner_hidden env"
    using assms by (simp add: encrypted_over_def encrypted_over_axioms_def)
  then show ?thesis
    by (rule encrypted_over.is_encrypted_engine)
qed

theorem encrypted_is_storage_engine_witness:
  "storage_engine (encrypted_engine (pagedb_engine mem_pagedb demo_nsb) demo_env)
     (enc_rows demo_env (pagedb_rows map_of demo_nsb))
     (enc_inv demo_env (pagedb_rows map_of demo_nsb) (\<lambda>_. True)) (enc_hidden (\<lambda>_ _. False))"
  by (rule encrypted_is_storage_engine [OF mem.is_engine])
    (simp add: demo_env_def demo_cipher_law)

text \<open>
  C11. Reopening with the same passphrase and parameters derives the same cipher, whatever
  the random source would return: the first open stores its salt, later ones read it.
\<close>

theorem enc_reopen_same_cipher:
  assumes "kv_store inner inner_rows inner_inv" "inner_inv s"
    and "\<And>salt. random = Some salt \<Longrightarrow> length salt = SALT_SIZE"
    and "enc_open inner random params_ok hash_password new_cipher s passphrase m t p = (Inr cipher, s')"
    and "so_get inner s' Meta SALT_KEY = Inr found"
  shows "enc_open inner random' params_ok hash_password new_cipher s' passphrase m t p = (Inr cipher, s')"
proof -
  obtain salt s1 where r: "read_or_make_salt inner random s = (Inr salt, s1)"
    using assms(4) by (auto simp: enc_open_def split: prod.splits sum.splits)
  then have "s1 = s'"
    using assms(4) by (auto simp: enc_open_def split: if_splits option.splits)
  then show ?thesis
    using read_salt_again [OF assms(1-3) _ assms(5)] r assms(4)
    by (auto simp: enc_open_def split: if_splits option.splits)
qed

theorem enc_reopen_same_cipher_witness:
  "\<exists>s'. enc_open (pagedb_engine mem_pagedb demo_nsb) None (\<lambda>_ _ _. True) (\<lambda>_ _ _ pw salt. Some (pw @ salt))
          (\<lambda>_. Some demo_cipher) s' ''pw'' 1 1 1 = (Inr demo_cipher, s') \<and> s' \<noteq> []"
proof -
  define s' where "s' = [(0 # SALT_KEY, replicate 16 (5 :: u8))]"
  let ?inner = "pagedb_engine mem_pagedb demo_nsb"
  have g: "so_get ?inner [] Meta SALT_KEY = Inr None" "so_get ?inner s' Meta SALT_KEY = Inr (Some (replicate 16 5))"
    by (simp_all add: get_rows_def mem_pagedb_def s'_def prefix_key_def Let_def)
  have p: "so_put ?inner [] Meta SALT_KEY (replicate 16 5) = (Inr (), s')"
    by (simp add: put_rows_def mem_pagedb_def s'_def prefix_key_def Let_def commit_txn_def)
  have o: "enc_open ?inner (Some (replicate 16 5)) (\<lambda>_ _ _. True) (\<lambda>_ _ _ pw salt. Some (pw @ salt))
          (\<lambda>_. Some demo_cipher) [] ''pw'' 1 1 1 = (Inr demo_cipher, s')"
    using g p by (simp add: enc_open_def read_or_make_salt_def)
  have "enc_open ?inner None (\<lambda>_ _ _. True) (\<lambda>_ _ _ pw salt. Some (pw @ salt))
          (\<lambda>_. Some demo_cipher) s' ''pw'' 1 1 1 = (Inr demo_cipher, s')"
    by (rule enc_reopen_same_cipher [OF mem.engine.kv_store_axioms _ _ o g(2)]) (simp_all add: SALT_SIZE_def)
  then show ?thesis
    by (intro exI [of _ s']) (simp add: s'_def)
qed

text \<open>The salt row is visible through \<open>get\<close> and \<open>scan_prefix_bounded\<close> but not through
  \<open>scan_prefix\<close>, which tries to decrypt it and skips it. The trait says that an
  unbounded prefix scan returns all entries.
\<close>

theorem enc_scan_drops_salt:
  assumes "storage_engine inner inner_rows inner_inv inner_hidden" "inner_inv s"
    and "\<And>k. \<not> inner_hidden Meta k"
    and "inner_rows s Meta SALT_KEY = Some salt" "decrypt env Meta SALT_KEY salt = Inl e"
    and "enc_get inner env s Meta SALT_KEY = Inr found"
    and "enc_scan_prefix inner env s Meta SALT_KEY = Inr kvs"
    and "enc_scan_prefix_bounded inner env s Meta SALT_KEY 1 = Inr kvs'"
  shows "found = Some salt \<and> kvs' = [(SALT_KEY, salt)] \<and> SALT_KEY \<notin> fst ` set kvs"
proof -
  note se = storage_engine.axioms(1) [OF assms(1)]
  have 1: "found = Some salt"
    using kv_store.get_law [OF se assms(2)] assms(4,6) by (simp add: enc_get_def is_salt_def)
  let ?all = "entries_where (prefix SALT_KEY) (inner_rows s Meta)"
  have fin: "finite (dom (inner_rows s Meta))"
    by (rule kv_store.finite_rows [OF se assms(2)])
  have set: "set ?all = {(k, v). inner_rows s Meta k = Some v \<and> prefix SALT_KEY k}"
    by (rule entries_where_set [OF fin])
  have hd: "take 1 ?all = [(SALT_KEY, salt)]"
    by (rule first_prefix_row [of "inner_rows s Meta", OF fin assms(4)])
  obtain raw' where "so_scan_prefix_bounded inner s Meta SALT_KEY 1 = Inr raw'"
    "collect_results (\<lambda>(key, ciphertext).
       rbind (decrypt_row env Meta key ciphertext) (\<lambda>plaintext. Inr (key, plaintext))) raw' = Inr kvs'"
    using assms(8) by (auto simp: enc_scan_prefix_bounded_def)
  then have 2: "kvs' = [(SALT_KEY, salt)]"
    using storage_engine.scan_prefix_bounded_law [OF assms(1,2,3)] hd
    by (auto simp: decrypt_row_def is_salt_def)
  obtain raw where raw: "so_scan_prefix inner s Meta SALT_KEY = Inr raw"
    "kvs = skip_undecryptable env Meta raw"
    using assms(7) by (auto simp: enc_scan_prefix_def)
  have "raw = ?all"
    using storage_engine.scan_prefix_law [OF assms(1,2,3) raw(1)] by simp
  then have "\<forall>(k, c) \<in> set raw. k = SALT_KEY \<longrightarrow> c = salt"
    using set assms(4) by auto
  then have "SALT_KEY \<notin> fst ` set (skip_undecryptable env Meta raw)"
    using skip_undecryptable_in [of _ _ env Meta raw] assms(5) by fastforce
  with 1 2 raw(2) show ?thesis by simp
qed

theorem enc_scan_drops_salt_witness:
  "\<exists>s kvs. enc_get (pagedb_engine mem_pagedb demo_nsb) demo_env s Meta SALT_KEY = Inr (Some (replicate 16 5)) \<and>
     enc_scan_prefix (pagedb_engine mem_pagedb demo_nsb) demo_env s Meta SALT_KEY = Inr kvs \<and>
     SALT_KEY \<notin> fst ` set kvs"
proof -
  define s where "s = [(0 # SALT_KEY, replicate 16 (5 :: u8))]"
  let ?inner = "pagedb_engine mem_pagedb demo_nsb"
  have g: "enc_get ?inner demo_env s Meta SALT_KEY = Inr (Some (replicate 16 5))"
    by (simp add: enc_get_def is_salt_def get_rows_def mem_pagedb_def s_def prefix_key_def Let_def)
  have raw: "mem_scan (prefix (0 # SALT_KEY)) s = s" "mem_scan (\<lambda>c. prefix (0 # SALT_KEY) c \<and> 0 # SALT_KEY \<le> c) s = s"
    by (simp_all add: mem_scan_def s_def)
  have d: "decrypt demo_env Meta SALT_KEY (replicate 16 5) = Inl Storage"
    by code_simp
  have p: "enc_scan_prefix ?inner demo_env s Meta SALT_KEY = Inr []"
    using d by (simp add: enc_scan_prefix_def scan_prefix_rows_def mem_pagedb_def prefix_key_def raw
        strip_rows_def) (simp add: s_def)
  have b: "enc_scan_prefix_bounded ?inner demo_env s Meta SALT_KEY 1 = Inr [(SALT_KEY, replicate 16 5)]"
    by (simp add: enc_scan_prefix_bounded_def scan_prefix_bounded_rows_def mem_pagedb_def prefix_key_def raw
        strip_rows_def Let_def) (simp add: s_def decrypt_row_def is_salt_def)
  have r: "pagedb_rows map_of demo_nsb s Meta SALT_KEY = Some (replicate 16 5)"
    by (simp add: pagedb_rows_def s_def)
  show ?thesis
    using enc_scan_drops_salt [OF mem.is_engine _ _ r d g p b] g p by blast
qed

end
