(* ===== verification/Outbound_Queue.thy ===== *)
theory Outbound_Queue
  imports Encrypted_Storage
begin

text \<open>
  The outbound queues shared by every sync engine (\<open>sync/outbound/queue.rs\<close>,
  \<open>durable_queue.rs\<close>, \<open>reconcile.rs\<close>): the in-memory pending queue, the batch-id
  counter, and the durable FIFO queue over a storage namespace.

  A durable queue is a handle record; the storage it shares with the rest of the
  database is a separate state. The compare-exchange loop of \<open>take_next\<close> is modelled
  by its effect at the exchange that succeeds. \<open>outbound_store\<close> is the contract the
  queue needs of its storage: the storage engine's laws in a namespace with no hidden
  rows. Crashes and restarts are steps of \<open>queue_step\<close>.
\<close>

subsection \<open>Counters and the in-memory queue\<close>

record batch_id_gen =
  bg_next :: u64

definition BatchIdGen_new :: batch_id_gen where
  "BatchIdGen_new = \<lparr>bg_next = 1\<rparr>"

definition BatchIdGen_next :: "batch_id_gen \<Rightarrow> u64 \<times> batch_id_gen" where
  "BatchIdGen_next g = (bg_next g, g\<lparr>bg_next := bg_next g + 1\<rparr>)"

definition take_next :: "u64 \<Rightarrow> u64 option \<times> u64" where
  "take_next counter =
     (case u64_checked_add counter 1 of
        None \<Rightarrow> (None, counter)
      | Some advanced \<Rightarrow> (Some counter, advanced))"

record 'a pending_queue =
  pq_items :: "'a list"
  pq_poisoned :: bool

definition pq_new :: "'a pending_queue" where
  "pq_new = \<lparr>pq_items = [], pq_poisoned = False\<rparr>"

definition pq_push :: "'a \<Rightarrow> 'a pending_queue \<Rightarrow> 'a pending_queue" where
  "pq_push item q = (if pq_poisoned q then q else q\<lparr>pq_items := pq_items q @ [item]\<rparr>)"

definition pq_drain :: "'a pending_queue \<Rightarrow> 'a list \<times> 'a pending_queue" where
  "pq_drain q = (if pq_poisoned q then ([], q) else (pq_items q, q\<lparr>pq_items := []\<rparr>))"

definition pq_requeue :: "'a \<Rightarrow> 'a pending_queue \<Rightarrow> 'a pending_queue" where
  "pq_requeue item q = (if pq_poisoned q then q else q\<lparr>pq_items := item # pq_items q\<rparr>)"

definition pq_retain :: "('a \<Rightarrow> bool) \<Rightarrow> 'a pending_queue \<Rightarrow> 'a pending_queue" where
  "pq_retain P q = (if pq_poisoned q then q else q\<lparr>pq_items := filter P (pq_items q)\<rparr>)"

fun update_first :: "('a \<Rightarrow> bool) \<Rightarrow> ('a \<Rightarrow> 'r \<times> 'a) \<Rightarrow> 'a list \<Rightarrow> ('r \<times> 'a list) option" where
  "update_first P f [] = None"
| "update_first P f (x # xs) =
     (if P x then (let (r, x') = f x in Some (r, x' # xs))
      else map_option (\<lambda>(r, xs'). (r, x # xs')) (update_first P f xs))"

definition pq_with_first_mut ::
  "('a \<Rightarrow> bool) \<Rightarrow> ('a \<Rightarrow> 'r \<times> 'a) \<Rightarrow> 'a pending_queue \<Rightarrow> 'r option \<times> 'a pending_queue" where
  "pq_with_first_mut P f q =
     (if pq_poisoned q then (None, q)
      else case update_first P f (pq_items q) of
             None \<Rightarrow> (None, q)
           | Some (r, items) \<Rightarrow> (Some r, q\<lparr>pq_items := items\<rparr>))"

definition pq_len :: "'a pending_queue \<Rightarrow> usize" where
  "pq_len q = (if pq_poisoned q then 0 else length (pq_items q))"

definition pq_is_empty :: "'a pending_queue \<Rightarrow> bool" where
  "pq_is_empty q \<longleftrightarrow> pq_len q = 0"

subsection \<open>The durable queue\<close>

record durable_queue =
  dq_namespace :: namespace
  dq_cap :: usize
  dq_next_id :: u64

definition DEFAULT_CAP :: usize where
  "DEFAULT_CAP = 100000"

definition dq_exhausted :: lite_error where
  "dq_exhausted = Backpressure"

definition recover_next_id :: "'s storage_ops \<Rightarrow> 's \<Rightarrow> namespace \<Rightarrow> u64 lite_result" where
  "recover_next_id so s ns =
     rbind (so_scan_range so s ns [] usize_max) (\<lambda>pairs.
       let max_id = (if pairs = [] then None
                     else (let key = fst (last pairs)
                           in if length key = 8 then Some (u64_from_be_bytes key) else None))
       in case max_id of
            None \<Rightarrow> Inr 1
          | Some i \<Rightarrow> (case u64_checked_add i 1 of None \<Rightarrow> Inl dq_exhausted | Some n \<Rightarrow> Inr n))"

definition dq_open_with_cap :: "'s storage_ops \<Rightarrow> 's \<Rightarrow> namespace \<Rightarrow> usize \<Rightarrow> durable_queue lite_result" where
  "dq_open_with_cap so s ns cap =
     rbind (recover_next_id so s ns) (\<lambda>next_id.
       Inr \<lparr>dq_namespace = ns, dq_cap = cap, dq_next_id = next_id\<rparr>)"

definition dq_open :: "'s storage_ops \<Rightarrow> 's \<Rightarrow> namespace \<Rightarrow> durable_queue lite_result" where
  "dq_open so s ns = dq_open_with_cap so s ns DEFAULT_CAP"

definition dq_len :: "'s storage_ops \<Rightarrow> durable_queue \<Rightarrow> 's \<Rightarrow> u64 lite_result" where
  "dq_len so q s = so_count so s (dq_namespace q)"

definition dq_is_empty :: "'s storage_ops \<Rightarrow> durable_queue \<Rightarrow> 's \<Rightarrow> bool lite_result" where
  "dq_is_empty so q s = rbind (dq_len so q s) (\<lambda>n. Inr (n = 0))"

definition ensure_room :: "'s storage_ops \<Rightarrow> durable_queue \<Rightarrow> 's \<Rightarrow> usize \<Rightarrow> unit lite_result" where
  "ensure_room so q s entries =
     rbind (dq_len so q s) (\<lambda>current.
       if u64_sat_add current (of_nat entries) > of_nat (dq_cap q) then Inl Backpressure else Inr ())"

definition reserve_key :: "durable_queue \<Rightarrow> bytes lite_result \<times> durable_queue" where
  "reserve_key q =
     (case take_next (dq_next_id q) of
        (Some i, n) \<Rightarrow> (Inr (u64_to_be_bytes i), q\<lparr>dq_next_id := n\<rparr>)
      | (None, n) \<Rightarrow> (Inl dq_exhausted, q\<lparr>dq_next_id := n\<rparr>))"

definition dq_enqueue ::
  "'s storage_ops \<Rightarrow> durable_queue \<Rightarrow> 's \<Rightarrow> bytes \<Rightarrow> unit lite_result \<times> durable_queue \<times> 's" where
  "dq_enqueue so q s payload =
     (case ensure_room so q s 1 of
        Inl e \<Rightarrow> (Inl e, q, s)
      | Inr _ \<Rightarrow>
          (case reserve_key q of
             (Inl e, q') \<Rightarrow> (Inl e, q', s)
           | (Inr key, q') \<Rightarrow>
               (case so_put so s (dq_namespace q) key payload of (r, s') \<Rightarrow> (r, q', s'))))"

definition persist_reserved ::
  "'s storage_ops \<Rightarrow> durable_queue \<Rightarrow> 's \<Rightarrow> bytes \<Rightarrow> bytes \<Rightarrow> unit lite_result \<times> 's" where
  "persist_reserved so q s key payload =
     (case so_get so s (dq_namespace q) key of
        Inl e \<Rightarrow> (Inl e, s)
      | Inr (Some _) \<Rightarrow> (Inr (), s)
      | Inr None \<Rightarrow>
          (case ensure_room so q s 1 of
             Inl e \<Rightarrow> (Inl e, s)
           | Inr _ \<Rightarrow> so_put so s (dq_namespace q) key payload))"

definition dq_drain_batch ::
  "'s storage_ops \<Rightarrow> durable_queue \<Rightarrow> 's \<Rightarrow> usize \<Rightarrow> kv_pair list lite_result" where
  "dq_drain_batch so q s lim = so_scan_range so s (dq_namespace q) [] lim"

definition dq_ack_keys ::
  "'s storage_ops \<Rightarrow> durable_queue \<Rightarrow> 's \<Rightarrow> bytes list \<Rightarrow> unit lite_result \<times> 's" where
  "dq_ack_keys so q s keys =
     (if keys = [] then (Inr (), s)
      else so_batch_write so s (map (Delete (dq_namespace q)) keys))"

definition dq_update_entry ::
  "'s storage_ops \<Rightarrow> durable_queue \<Rightarrow> 's \<Rightarrow> bytes \<Rightarrow> bytes \<Rightarrow> unit lite_result \<times> 's" where
  "dq_update_entry so q s key payload = so_put so s (dq_namespace q) key payload"

definition reconcile_outbound_enqueue ::
  "unit lite_result \<Rightarrow> string \<Rightarrow> string \<Rightarrow> string \<Rightarrow> unit lite_result" where
  "reconcile_outbound_enqueue result op collection id_str =
     (case result of
        Inr _ \<Rightarrow> Inr ()
      | Inl Backpressure \<Rightarrow> Inl Backpressure
      | Inl _ \<Rightarrow> Inr ())"

subsection \<open>Contents and invariant\<close>

text \<open>The queue's contents are the rows of its namespace in key order. The invariant: keys
  are 8-byte integers below the next id, so a fresh key goes to the tail.\<close>

definition dq_contents :: "rows \<Rightarrow> durable_queue \<Rightarrow> kv_pair list" where
  "dq_contents m q = entries_where (\<lambda>_. True) (m (dq_namespace q))"

definition dq_keys_ok :: "rows \<Rightarrow> namespace \<Rightarrow> bool" where
  "dq_keys_ok m ns \<longleftrightarrow> (\<forall>k \<in> dom (m ns). length k = 8)"

definition dq_inv :: "rows \<Rightarrow> durable_queue \<Rightarrow> bool" where
  "dq_inv m q \<longleftrightarrow>
     (\<forall>k \<in> dom (m (dq_namespace q)). length k = 8 \<and> u64_from_be_bytes k < dq_next_id q)"

lemma dq_inv_key_less:
  assumes "dq_inv m q" "k \<in> dom (m (dq_namespace q))"
  shows "k < u64_to_be_bytes (dq_next_id q)"
proof -
  have k: "length k = 8" "u64_from_be_bytes k < dq_next_id q"
    using assms by (auto simp: dq_inv_def)
  then have "u64_to_be_bytes (u64_from_be_bytes k) < u64_to_be_bytes (dq_next_id q)"
    by simp
  then show ?thesis
    by (simp add: u64_to_from_be_bytes [OF k(1)])
qed

lemma take_next_Some:
  "take_next c = (Some i, n) \<Longrightarrow> i = c \<and> n = c + 1 \<and> c < n"
  by (auto simp: take_next_def u64_checked_add_one_Some u64_succ_gt split: option.splits)

lemma take_next_None: "take_next c = (None, n) \<longleftrightarrow> c = u64_max \<and> n = c"
  by (auto simp: take_next_def u64_checked_add_one_Some split: option.splits)

locale outbound_store = storage_engine +
  fixes ns :: namespace
  assumes not_hidden: "\<not> hidden ns k"

lemma u64_to_be_bytes_le: "u64_to_be_bytes a \<le> u64_to_be_bytes b \<longleftrightarrow> a \<le> b"
  by (simp add: linorder_not_less [symmetric])

context outbound_store
begin

lemma scan_all:
  assumes "store_inv s" "so_scan_range so s ns [] lim = Inr pairs"
  shows "pairs = take lim (entries_where (\<lambda>_. True) (rows_of s ns))"
  using scan_range_law [OF assms(1) _ assms(2)] not_hidden by simp

lemma recover_next_id_ok:
  assumes "store_inv s" "dq_keys_ok (rows_of s) ns" "card (dom (rows_of s ns)) \<le> usize_max"
    and "recover_next_id so s ns = Inr n"
  shows "dq_inv (rows_of s) \<lparr>dq_namespace = ns, dq_cap = cap, dq_next_id = n\<rparr>"
proof -
  note fin = finite_rows [OF assms(1), of ns]
  let ?es = "entries_where (\<lambda>_. True) (rows_of s ns)"
  obtain pairs where p: "so_scan_range so s ns [] usize_max = Inr pairs"
    using assms(4) by (auto simp: recover_next_id_def)
  have "length ?es \<le> usize_max"
    using entries_where_length_le [OF fin] assms(3) by (rule le_trans)
  then have pairs: "pairs = ?es"
    using scan_all [OF assms(1) p] by simp
  show ?thesis
  proof (cases "?es = []")
    case True
    then have "dom (rows_of s ns) = {}"
      using entries_where_set [OF fin, of "\<lambda>_. True"] by fastforce
    then show ?thesis by (auto simp: dq_inv_def)
  next
    case False
    let ?mx = "fst (last ?es)"
    have "?mx \<in> dom (rows_of s ns)"
      using last_in_set [OF False] entries_where_set [OF fin, of "\<lambda>_. True"] by force
    then have len: "length ?mx = 8"
      using assms(2) by (auto simp: dq_keys_ok_def)
    have n: "n = u64_from_be_bytes ?mx + 1" "u64_from_be_bytes ?mx \<noteq> u64_max"
      using assms(4) p pairs False len
      by (auto simp: recover_next_id_def Let_def u64_checked_add_one_Some split: option.splits)
    have "u64_from_be_bytes k < n" if k: "k \<in> dom (rows_of s ns)" for k
    proof -
      have "k \<le> ?mx"
        using k by (intro entries_where_le_last [OF fin]) simp_all
      then have "u64_to_be_bytes (u64_from_be_bytes k) \<le> u64_to_be_bytes (u64_from_be_bytes ?mx)"
        using len assms(2) k by (simp add: u64_to_from_be_bytes dq_keys_ok_def)
      then have "u64_from_be_bytes k \<le> u64_from_be_bytes ?mx"
        by (simp add: u64_to_be_bytes_le)
      then show ?thesis
        unfolding n(1) using u64_succ_gt(1) [OF n(2)] by (rule le_less_trans)
    qed
    then show ?thesis
      using assms(2) by (auto simp: dq_inv_def dq_keys_ok_def)
  qed
qed

lemma ensure_room_ok:
  assumes "store_inv s" "dq_namespace q = ns" "card (dom (rows_of s ns)) \<le> usize_max" "dq_cap q < usize_max"
    and "ensure_room so q s entries = Inr u" "entries \<le> usize_max"
  shows "card (dom (rows_of s ns)) + entries \<le> dq_cap q"
proof -
  obtain n where n: "so_count so s ns = Inr n"
    "\<not> u64_sat_add n (of_nat entries) > of_nat (dq_cap q)"
    using assms(2,5) by (auto simp: ensure_room_def dq_len_def split: if_splits)
  have u: "unat (of_nat x :: u64) = x" if "x \<le> usize_max" for x
    using that by (simp add: usize_max_def unat_of_nat take_bit_eq_mod)
  have c: "n = of_nat (card (dom (rows_of s ns)))"
    by (rule count_law [OF assms(1) n(1)])
  have "unat (u64_sat_add n (of_nat entries)) \<le> dq_cap q"
    using n(2) u [OF less_imp_le [OF assms(4)]] by (simp add: word_less_nat_alt not_less)
  then show ?thesis
    using u [OF assms(3)] u [OF assms(6)] assms(4)
    by (auto simp: c u64_sat_add_def unat_u64_max usize_max_def unat_word_ariths split: if_splits)
qed

lemma enqueue_cases:
  assumes "store_inv s" "dq_namespace q = ns" "dq_inv (rows_of s) q"
    and "dq_enqueue so q s payload = (r, q', s')"
  obtains (ok) "r = Inr ()" "rows_of s' = rows_apply (rows_of s) (Put ns (u64_to_be_bytes (dq_next_id q)) payload)"
        "dq_contents (rows_of s') q' = dq_contents (rows_of s) q @ [(u64_to_be_bytes (dq_next_id q), payload)]"
        "u64_to_be_bytes (dq_next_id q) \<notin> dom (rows_of s ns)"
        "dq_inv (rows_of s') q'" "store_inv s'" "dq_namespace q' = ns" "dq_cap q' = dq_cap q"
        "ensure_room so q s 1 = Inr ()"
      | (err) e where "r = Inl e" "rows_of s' = rows_of s" "dq_inv (rows_of s') q'" "store_inv s'"
        "dq_namespace q' = ns" "dq_cap q' = dq_cap q"
proof (cases "ensure_room so q s 1")
  case (Inl e)
  then show thesis
    using assms by (intro err [of e]) (auto simp: dq_enqueue_def)
next
  case room: (Inr u)
  show thesis
  proof (cases "dq_next_id q = u64_max")
    case True
    then have "take_next (dq_next_id q) = (None, u64_max)"
      by (simp add: take_next_None)
    then have "reserve_key q = (Inl dq_exhausted, q\<lparr>dq_next_id := u64_max\<rparr>)"
      by (simp add: reserve_key_def)
    then show thesis
      using assms room True by (intro err [of dq_exhausted]) (auto simp: dq_enqueue_def dq_inv_def)
  next
    case False
    let ?k = "u64_to_be_bytes (dq_next_id q)"
    let ?q = "q\<lparr>dq_next_id := dq_next_id q + 1\<rparr>"
    have res: "reserve_key q = (Inr ?k, ?q)"
      using False by (auto simp: reserve_key_def take_next_def u64_checked_add_one_Some split: option.splits)
    have put: "so_put so s ns ?k payload = (r, s')" "q' = ?q"
      using assms(2,4) room res by (auto simp: dq_enqueue_def split: prod.splits)
    note inv' = put_inv [OF assms(1) put(1)]
    have mono: "dq_inv (rows_of s) ?q"
      using assms(3) u64_succ_gt(1) [OF False] by (auto simp: dq_inv_def intro: less_trans)
    show thesis
    proof (cases r)
      case (Inl e)
      then show thesis
        using put_err [OF assms(1)] put mono inv' assms(2) by (intro err [of e]) auto
    next
      case (Inr u')
      have rows: "rows_of s' = rows_apply (rows_of s) (Put ns ?k payload)"
        using put_ok [OF assms(1)] put(1) Inr by simp
      have less: "k \<in> dom (rows_of s ns) \<Longrightarrow> k < ?k" for k
        using dq_inv_key_less [OF assms(3)] assms(2) by simp
      have "dq_contents (rows_of s') q' = dq_contents (rows_of s) q @ [(?k, payload)]"
        using entries_where_insert_max [OF finite_rows [OF assms(1)] less] assms(2) put(2)
        by (simp add: dq_contents_def rows)
      moreover have "dq_inv (rows_of s') q'"
        using mono u64_succ_gt(1) [OF False] assms(2) by (auto simp: dq_inv_def rows put(2))
      ultimately show thesis
        using Inr rows less inv' assms(2) put(2) room by (intro ok) auto
    qed
  qed
qed

lemma ack_keys_ok:
  assumes "store_inv s" "dq_namespace q = ns" "dq_ack_keys so q s keys = (Inr u, s')"
  shows "rows_of s' ns' k = (if ns' = ns \<and> k \<in> set keys then None else rows_of s ns' k)"
    and "dq_contents (rows_of s') q = filter (\<lambda>kv. fst kv \<notin> set keys) (dq_contents (rows_of s) q)"
proof -
  show rows: "rows_of s' ns' k = (if ns' = ns \<and> k \<in> set keys then None else rows_of s ns' k)" for ns' k
  proof (cases "keys = []")
    case False
    then have "rows_of s' = rows_apply_all (rows_of s) (map (Delete ns) keys)"
      using assms batch_ok by (auto simp: dq_ack_keys_def)
    then show ?thesis by (simp add: rows_apply_all_deletes)
  qed (use assms in \<open>simp add: dq_ack_keys_def\<close>)
  have "rows_of s' ns = (\<lambda>k. if k \<in> set keys then None else rows_of s ns k)"
    by (simp add: rows fun_eq_iff)
  then show "dq_contents (rows_of s') q = filter (\<lambda>kv. fst kv \<notin> set keys) (dq_contents (rows_of s) q)"
    by (simp add: dq_contents_def assms(2) entries_where_remove [OF finite_rows [OF assms(1)]])
qed

lemma ack_keys_err:
  "store_inv s \<Longrightarrow> dq_ack_keys so q s keys = (Inl e, s') \<Longrightarrow> rows_of s' = rows_of s"
  using batch_err by (auto simp: dq_ack_keys_def split: if_splits)

lemma ack_keys_inv: "store_inv s \<Longrightarrow> dq_ack_keys so q s keys = (r, s') \<Longrightarrow> store_inv s'"
  using batch_inv by (auto simp: dq_ack_keys_def split: if_splits)

end

subsection \<open>Runs of a queue with crashes\<close>

text \<open>
  A run carries what the queue owes its server: the accepted entries, oldest first, with the
  payload each was last given, less the acknowledged ones. This is the specification, a plain
  first-in first-out list that no storage is involved in. A crash loses the handle; reopening
  derives a new one from storage and leaves the specification alone. A key may be used again once
  its entry is acknowledged, and then names the new entry of the list.
\<close>

record 's queue_run =
  qr_queue :: durable_queue
  qr_store :: 's
  qr_owed :: "kv_pair list"

definition set_payload :: "bytes \<Rightarrow> bytes \<Rightarrow> kv_pair list \<Rightarrow> kv_pair list" where
  "set_payload key payload owed = map (\<lambda>(k, v). (k, if k = key then payload else v)) owed"

inductive queue_step :: "'s storage_ops \<Rightarrow> 's queue_run \<Rightarrow> 's queue_run \<Rightarrow> bool" for so where
  enqueue: "dq_enqueue so q s payload = (r, q', s') \<Longrightarrow>
     queue_step so \<lparr>qr_queue = q, qr_store = s, qr_owed = owed\<rparr>
       \<lparr>qr_queue = q', qr_store = s',
        qr_owed = (if is_ok r then owed @ [(u64_to_be_bytes (dq_next_id q), payload)] else owed)\<rparr>"
| update: "dq_update_entry so q s key payload = (r, s') \<Longrightarrow> key \<in> set (map fst drained) \<Longrightarrow>
     dq_drain_batch so q s lim = Inr drained \<Longrightarrow>
     queue_step so \<lparr>qr_queue = q, qr_store = s, qr_owed = owed\<rparr>
       \<lparr>qr_queue = q, qr_store = s', qr_owed = (if is_ok r then set_payload key payload owed else owed)\<rparr>"
| ack: "dq_ack_keys so q s keys = (r, s') \<Longrightarrow>
     queue_step so \<lparr>qr_queue = q, qr_store = s, qr_owed = owed\<rparr>
       \<lparr>qr_queue = q, qr_store = s',
        qr_owed = (if is_ok r then filter (\<lambda>kv. fst kv \<notin> set keys) owed else owed)\<rparr>"
| reopen: "dq_open_with_cap so s (dq_namespace q) (dq_cap q) = Inr q' \<Longrightarrow>
     queue_step so \<lparr>qr_queue = q, qr_store = s, qr_owed = owed\<rparr>
       \<lparr>qr_queue = q', qr_store = s, qr_owed = owed\<rparr>"

inductive_cases queue_stepE: "queue_step so g g'"

definition run_inv ::
  "('s \<Rightarrow> rows) \<Rightarrow> ('s \<Rightarrow> bool) \<Rightarrow> namespace \<Rightarrow> 's queue_run \<Rightarrow> bool" where
  "run_inv rows_of store_inv ns g \<longleftrightarrow>
     store_inv (qr_store g) \<and> dq_namespace (qr_queue g) = ns \<and> dq_cap (qr_queue g) < usize_max \<and>
     dq_inv (rows_of (qr_store g)) (qr_queue g) \<and>
     card (dom (rows_of (qr_store g) ns)) \<le> dq_cap (qr_queue g) \<and>
     dq_contents (rows_of (qr_store g)) (qr_queue g) = qr_owed g"

lemma entries_where_overwrite:
  assumes "k \<in> dom m"
  shows "entries_where P (m(k \<mapsto> v)) = map (\<lambda>(k', v'). (k', if k' = k then v else v')) (entries_where P m)"
proof -
  have "{x \<in> dom (m(k \<mapsto> v)). P x} = {x \<in> dom m. P x}"
    using assms by auto
  then show ?thesis
    by (simp add: entries_where_def)
qed

context outbound_store
begin

lemma enqueue_keeps:
  assumes "run_inv rows_of store_inv ns \<lparr>qr_queue = q, qr_store = s, qr_owed = owed\<rparr>"
    and "dq_enqueue so q s payload = (r, q', s')"
  shows "run_inv rows_of store_inv ns
    \<lparr>qr_queue = q', qr_store = s',
     qr_owed = (if is_ok r then owed @ [(u64_to_be_bytes (dq_next_id q), payload)] else owed)\<rparr>"
proof -
  have a: "store_inv s" "dq_namespace q = ns" "dq_cap q < usize_max" "dq_inv (rows_of s) q"
    "card (dom (rows_of s ns)) \<le> dq_cap q" "dq_contents (rows_of s) q = owed"
    using assms(1) by (auto simp: run_inv_def)
  from a(1,2,4) assms(2) show ?thesis
  proof (cases rule: enqueue_cases)
    case ok
    have "card (dom (rows_of s ns)) + 1 \<le> dq_cap q"
      using a ok(9) by (intro ensure_room_ok) (simp_all add: usize_max_def)
    moreover have "card (dom (rows_of s' ns)) \<le> card (dom (rows_of s ns)) + 1"
      using finite_rows [OF a(1)] by (simp add: ok(2) card_insert_if)
    ultimately show ?thesis
      using ok(1,3,5-8) a(3,6) by (simp add: run_inv_def)
  next
    case (err e)
    then show ?thesis
      using a by (simp add: run_inv_def dq_contents_def)
  qed
qed

lemma update_keeps:
  assumes "run_inv rows_of store_inv ns \<lparr>qr_queue = q, qr_store = s, qr_owed = owed\<rparr>"
    and "dq_update_entry so q s key payload = (r, s')" "dq_drain_batch so q s lim = Inr drained"
    and "key \<in> set (map fst drained)"
  shows "run_inv rows_of store_inv ns
    \<lparr>qr_queue = q, qr_store = s', qr_owed = (if is_ok r then set_payload key payload owed else owed)\<rparr>"
proof -
  have a: "store_inv s" "dq_namespace q = ns" "dq_contents (rows_of s) q = owed"
    using assms(1) by (auto simp: run_inv_def)
  have "drained = take lim (entries_where (\<lambda>_. True) (rows_of s ns))"
    using assms(3) a by (intro scan_all) (simp_all add: dq_drain_batch_def)
  then have key: "key \<in> dom (rows_of s ns)"
    using assms(4) entries_where_set [OF finite_rows [OF a(1)], of "\<lambda>_. True"]
    by (auto dest!: in_set_takeD)
  have p: "so_put so s ns key payload = (r, s')"
    using assms(2) a by (simp add: dq_update_entry_def)
  have rows: "rows_of s' ns = (if is_ok r then (rows_of s ns)(key \<mapsto> payload) else rows_of s ns)"
    using p by (auto elim!: put_cases [OF a(1)] split: if_splits)
  then have "dom (rows_of s' ns) = dom (rows_of s ns)"
    using key by auto
  moreover have "dq_contents (rows_of s') q = (if is_ok r then set_payload key payload owed else owed)"
    using entries_where_overwrite [OF key] a(2,3) by (auto simp: dq_contents_def rows set_payload_def)
  ultimately show ?thesis
    using assms(1) a(2) put_inv [OF a(1) p] by (simp add: run_inv_def dq_inv_def)
qed

lemma ack_keeps:
  assumes "run_inv rows_of store_inv ns \<lparr>qr_queue = q, qr_store = s, qr_owed = owed\<rparr>"
    and "dq_ack_keys so q s keys = (r, s')"
  shows "run_inv rows_of store_inv ns
    \<lparr>qr_queue = q, qr_store = s',
     qr_owed = (if is_ok r then filter (\<lambda>kv. fst kv \<notin> set keys) owed else owed)\<rparr>"
proof -
  have a: "store_inv s" "dq_namespace q = ns" "dq_contents (rows_of s) q = owed"
    using assms(1) by (auto simp: run_inv_def)
  have d: "dom (rows_of s' ns) \<subseteq> dom (rows_of s ns)"
    using ack_keys_ok(1) [OF a(1,2)] ack_keys_err [OF a(1)] assms(2)
    by (cases r; fastforce split: if_splits)
  then have "card (dom (rows_of s' ns)) \<le> card (dom (rows_of s ns))"
    by (intro card_mono finite_rows [OF a(1)])
  moreover have "dq_contents (rows_of s') q = (if is_ok r then filter (\<lambda>kv. fst kv \<notin> set keys) owed else owed)"
    using ack_keys_ok(2) [OF a(1,2)] ack_keys_err [OF a(1)] assms(2) a(3) by (cases r) auto
  moreover have "dq_inv (rows_of s') q"
    using assms(1) d a(2) unfolding run_inv_def dq_inv_def by auto
  ultimately show ?thesis
    using assms(1) ack_keys_inv [OF a(1) assms(2)] by (simp add: run_inv_def)
qed

lemma reopen_keeps:
  assumes "run_inv rows_of store_inv ns \<lparr>qr_queue = q, qr_store = s, qr_owed = owed\<rparr>"
    and "dq_open_with_cap so s (dq_namespace q) (dq_cap q) = Inr q'"
  shows "run_inv rows_of store_inv ns \<lparr>qr_queue = q', qr_store = s, qr_owed = owed\<rparr>"
proof -
  obtain n where n: "recover_next_id so s ns = Inr n" "q' = \<lparr>dq_namespace = ns, dq_cap = dq_cap q, dq_next_id = n\<rparr>"
    using assms by (auto simp: dq_open_with_cap_def run_inv_def)
  have "dq_keys_ok (rows_of s) ns"
    using assms(1) by (auto simp: run_inv_def dq_inv_def dq_keys_ok_def)
  then have "dq_inv (rows_of s) q'"
    using assms(1) recover_next_id_ok [of s n] n by (auto simp: run_inv_def)
  then show ?thesis
    using assms(1) n(2) by (auto simp: run_inv_def dq_contents_def)
qed

lemma step_keeps: "queue_step so g g' \<Longrightarrow> run_inv rows_of store_inv ns g \<Longrightarrow> run_inv rows_of store_inv ns g'"
proof (erule queue_step.cases, goal_cases)
  case 1 then show ?case using enqueue_keeps by blast
next
  case 2 then show ?case using update_keeps by blast
next
  case 3 then show ?case using ack_keeps by blast
next
  case 4 then show ?case using reopen_keeps by blast
qed

lemma run_keeps:
  "(queue_step so)\<^sup>*\<^sup>* g g' \<Longrightarrow> run_inv rows_of store_inv ns g \<Longrightarrow> run_inv rows_of store_inv ns g'"
  by (induction rule: rtranclp_induct) (auto intro: step_keeps)

end

lemma queue_step_cap: "queue_step so g g' \<Longrightarrow> dq_cap (qr_queue g') = dq_cap (qr_queue g)"
  by (erule queue_step.cases)
    (auto simp: dq_enqueue_def reserve_key_def dq_open_with_cap_def
      split: sum.splits prod.splits option.splits)

subsection \<open>The queue over the backends\<close>

interpretation mem_q: outbound_store "pagedb_engine mem_pagedb demo_nsb" "pagedb_rows map_of demo_nsb"
  "\<lambda>_. True" "\<lambda>_ _. False" ColumnarPending
  by unfold_locales simp

interpretation enc_q: outbound_store "encrypted_engine (pagedb_engine mem_pagedb demo_nsb) demo_env"
  "enc_rows demo_env (pagedb_rows map_of demo_nsb)"
  "enc_inv demo_env (pagedb_rows map_of demo_nsb) (\<lambda>_. True)" "enc_hidden (\<lambda>_ _. False)" ColumnarPending
  by unfold_locales (simp add: enc_hidden_def is_salt_def)

subsection \<open>Properties of the queue\<close>

text \<open>
  C6. A durable queue is a first-in first-out list that survives crashes. Over any sequence of
  enqueues, payload updates, acknowledgements, failed storage calls, crashes and reopens, what is
  stored, keys, payloads and order alike, is exactly what the queue owes: the entries it held at
  the first open and every payload accepted since, less the acknowledged entries. No two entries
  share a key, the cap is never exceeded, and the key counter stays above every live key.
\<close>

theorem dq_at_least_once:
  assumes "outbound_store so rows_of store_inv hidden ns" "store_inv s"
    and "dq_keys_ok (rows_of s) ns" "card (dom (rows_of s ns)) \<le> cap" "cap < usize_max"
    and "dq_open_with_cap so s ns cap = Inr q"
    and "(queue_step so)\<^sup>*\<^sup>* \<lparr>qr_queue = q, qr_store = s, qr_owed = dq_contents (rows_of s) q\<rparr> g"
  shows "dq_contents (rows_of (qr_store g)) (qr_queue g) = qr_owed g
       \<and> distinct (map fst (qr_owed g)) \<and> length (qr_owed g) \<le> cap
       \<and> dq_inv (rows_of (qr_store g)) (qr_queue g)"
proof -
  obtain n where n: "recover_next_id so s ns = Inr n" "q = \<lparr>dq_namespace = ns, dq_cap = cap, dq_next_id = n\<rparr>"
    using assms(6) by (auto simp: dq_open_with_cap_def)
  have "dq_inv (rows_of s) q"
    using outbound_store.recover_next_id_ok [OF assms(1,2,3) _ n(1)] assms(4,5) n(2) by simp
  then have "run_inv rows_of store_inv ns \<lparr>qr_queue = q, qr_store = s, qr_owed = dq_contents (rows_of s) q\<rparr>"
    using assms(2-5) n(2) by (simp add: run_inv_def)
  then have inv: "run_inv rows_of store_inv ns g"
    by (rule outbound_store.run_keeps [OF assms(1,7)])
  then have owed: "qr_owed g = entries_where (\<lambda>_. True) (rows_of (qr_store g) ns)"
    by (auto simp: run_inv_def dq_contents_def)
  have fin: "finite (dom (rows_of (qr_store g) ns))"
    using kv_store.finite_rows [OF storage_engine.axioms(1) [OF outbound_store.axioms(1) [OF assms(1)]]] inv
    by (simp add: run_inv_def)
  have "dq_cap (qr_queue g) = cap"
    using assms(7) n(2) by (induction rule: rtranclp_induct) (auto dest: queue_step_cap)
  then have "length (qr_owed g) \<le> cap"
    using inv entries_where_length_le [OF fin, of "\<lambda>_. True"] by (simp add: owed run_inv_def)
  moreover have "distinct (map fst (qr_owed g))"
    by (simp add: owed entries_where_distinct)
  ultimately show ?thesis
    using inv by (simp add: run_inv_def)
qed

text \<open>
  C8. The queue is first-in first-out: a successful enqueue appends its payload, under a
  key no live entry has, to what a drain returns; a drain returns the oldest entries; a
  failed enqueue changes no row.
\<close>

theorem dq_enqueue_fifo:
  assumes "outbound_store so rows_of store_inv hidden ns" "store_inv s"
    and "dq_namespace q = ns" "dq_inv (rows_of s) q"
    and "dq_enqueue so q s payload = (r, q', s')" "dq_drain_batch so q' s' lim = Inr drained"
  shows "drained = take lim (dq_contents (rows_of s) q @
           (if is_ok r then [(u64_to_be_bytes (dq_next_id q), payload)] else []))
       \<and> (is_ok r \<longrightarrow> u64_to_be_bytes (dq_next_id q) \<notin> dom (rows_of s ns))"
proof -
  have d: "drained = take lim (dq_contents (rows_of s') q')" if "store_inv s'" "dq_namespace q' = ns"
    using outbound_store.scan_all [OF assms(1) that(1)] assms(6) that(2)
    by (simp add: dq_drain_batch_def dq_contents_def)
  show ?thesis
  proof (rule outbound_store.enqueue_cases [OF assms(1-5)], goal_cases)
    case 1
    show ?case using d [OF 1(6,7)] 1(1,3,4) by simp
  next
    case (2 e) then show ?case using d assms(3) by (simp add: dq_contents_def)
  qed
qed

text \<open>Backpressure: at or above the cap an enqueue fails before it reserves a key or
  writes, so neither the handle nor the storage changes.
\<close>

theorem dq_enqueue_full:
  assumes "outbound_store so rows_of store_inv hidden ns" "store_inv s"
    and "dq_namespace q = ns" "dq_cap q \<le> card (dom (rows_of s ns))"
    and "card (dom (rows_of s ns)) < usize_max"
  shows "\<exists>e. dq_enqueue so q s payload = (Inl e, q, s)"
proof (cases "ensure_room so q s 1")
  case (Inl e)
  then show ?thesis by (simp add: dq_enqueue_def)
next
  case (Inr u)
  have "card (dom (rows_of s ns)) + 1 \<le> dq_cap q"
    using outbound_store.ensure_room_ok [OF assms(1-3) _ _ Inr] assms(4,5) by (simp add: usize_max_def)
  then show ?thesis using assms(4) by simp
qed

text \<open>An acknowledgement removes exactly the named entries, keeps the order of the rest
  and touches no other namespace; one that fails removes nothing.
\<close>

theorem dq_ack_exact:
  assumes "outbound_store so rows_of store_inv hidden ns" "store_inv s" "dq_namespace q = ns"
    and "dq_ack_keys so q s keys = (r, s')"
  shows "dq_contents (rows_of s') q =
           (if is_ok r then filter (\<lambda>kv. fst kv \<notin> set keys) (dq_contents (rows_of s) q)
            else dq_contents (rows_of s) q)
       \<and> (\<forall>other k. other \<noteq> ns \<longrightarrow> rows_of s' other k = rows_of s other k)"
proof (cases r)
  case (Inl e)
  then show ?thesis
    using outbound_store.ack_keys_err [OF assms(1,2)] assms(4) by simp
next
  case (Inr u)
  then show ?thesis
    using outbound_store.ack_keys_ok [OF assms(1-3)] assms(4) by (simp add: is_ok_def)
qed

text \<open>The key counter does regress: a queue that is reopened after it was drained starts
  again at key 1, whatever keys it had used before.
\<close>

theorem dq_reopen_restarts:
  assumes "outbound_store so rows_of store_inv hidden ns" "store_inv s"
    and "dom (rows_of s ns) = {}" "dq_open_with_cap so s ns cap = Inr q"
  shows "dq_next_id q = 1"
proof -
  obtain pairs where p: "so_scan_range so s ns [] usize_max = Inr pairs"
    using assms(4) by (auto simp: dq_open_with_cap_def recover_next_id_def)
  have "pairs = []"
    using outbound_store.scan_all [OF assms(1,2) p] assms(3) by (simp add: entries_where_all)
  then show ?thesis
    using assms(4) p by (auto simp: dq_open_with_cap_def recover_next_id_def)
qed

subsection \<open>Witnesses\<close>

abbreviation demo_engine :: "kv_pair list storage_ops" where
  "demo_engine \<equiv> pagedb_engine mem_pagedb demo_nsb"

definition demo_queue :: durable_queue where
  "demo_queue = \<lparr>dq_namespace = ColumnarPending, dq_cap = 2, dq_next_id = 2\<rparr>"

text \<open>One live entry under key 1, and a row of another namespace.\<close>

definition demo_qdb :: "kv_pair list" where
  "demo_qdb = [(17 # [0, 0, 0, 0, 0, 0, 0, 1], [42]), ([3, 98], [9])]"

lemma demo_queue_sel [simp]:
  "dq_namespace demo_queue = ColumnarPending" "dq_cap demo_queue = 2" "dq_next_id demo_queue = 2"
  by (simp_all add: demo_queue_def)

lemma demo_scan_qdb: "so_scan_range demo_engine demo_qdb ColumnarPending [] lim = Inr (take lim [([0, 0, 0, 0, 0, 0, 0, 1], [42])])"
  by (cases lim) (simp_all add: scan_range_rows_def mem_pagedb_def demo_qdb_def prefix_key_def ns_end_def
      mem_scan_def strip_rows_def)

lemma demo_rows_qdb: "pagedb_rows map_of demo_nsb demo_qdb ColumnarPending = [[0, 0, 0, 0, 0, 0, 0, 1] \<mapsto> [42]]"
  by (auto simp: pagedb_rows_def demo_qdb_def fun_eq_iff)

lemma demo_open_qdb: "dq_open_with_cap demo_engine demo_qdb ColumnarPending 2 = Inr demo_queue"
  using demo_scan_qdb [of usize_max]
  by (simp add: dq_open_with_cap_def recover_next_id_def demo_queue_def usize_max_def u64_from_be_bytes_def
      be_val_def u64_checked_add_def)

lemma demo_inv_qdb: "dq_inv (pagedb_rows map_of demo_nsb demo_qdb) demo_queue"
  by (simp add: dq_inv_def demo_queue_def demo_rows_qdb u64_from_be_bytes_def be_val_def)

lemma demo_count_qdb: "so_count demo_engine demo_qdb ColumnarPending = Inr 1"
  by (simp add: count_rows_def mem_pagedb_def demo_qdb_def mem_scan_def)

lemma demo_key: "u64_to_be_bytes 2 = [0, 0, 0, 0, 0, 0, 0, 2]" "u64_to_be_bytes 1 = [0, 0, 0, 0, 0, 0, 0, 1]"
  by (simp_all add: u64_to_be_bytes_def nat_be_numeral)

definition demo_qdb2 :: "kv_pair list" where
  "demo_qdb2 = demo_qdb @ [(17 # [0, 0, 0, 0, 0, 0, 0, 2], [7])]"

lemma demo_enqueue:
  "dq_enqueue demo_engine demo_queue demo_qdb [7] = (Inr (), demo_queue\<lparr>dq_next_id := 3\<rparr>, demo_qdb2)"
  using demo_count_qdb
  by (simp add: dq_enqueue_def ensure_room_def dq_len_def reserve_key_def take_next_def demo_queue_def
      u64_checked_add_def u64_sat_add_def demo_key put_rows_def commit_txn_def mem_pagedb_def prefix_key_def
      demo_qdb_def demo_qdb2_def Let_def)

theorem dq_at_least_once_witness:
  "dq_contents (pagedb_rows map_of demo_nsb demo_qdb2) demo_queue
   = dq_contents (pagedb_rows map_of demo_nsb demo_qdb) demo_queue @ [(u64_to_be_bytes 2, [7])]"
proof -
  let ?owed = "dq_contents (pagedb_rows map_of demo_nsb demo_qdb) demo_queue"
  let ?g = "\<lparr>qr_queue = demo_queue\<lparr>dq_next_id := 3\<rparr>, qr_store = demo_qdb2,
             qr_owed = ?owed @ [(u64_to_be_bytes 2, [7])]\<rparr>"
  have "queue_step demo_engine \<lparr>qr_queue = demo_queue, qr_store = demo_qdb, qr_owed = ?owed\<rparr> ?g"
    using queue_step.enqueue [OF demo_enqueue, of ?owed] by (simp add: demo_queue_def)
  then have "(queue_step demo_engine)\<^sup>*\<^sup>* \<lparr>qr_queue = demo_queue, qr_store = demo_qdb, qr_owed = ?owed\<rparr> ?g"
    by (rule r_into_rtranclp)
  then show ?thesis
    using dq_at_least_once [OF mem_q.outbound_store_axioms _ _ _ _ demo_open_qdb, of ?g]
    by (simp add: dq_keys_ok_def demo_rows_qdb usize_max_def dq_contents_def)
qed

theorem dq_enqueue_fifo_witness:
  "[([0, 0, 0, 0, 0, 0, 0, 1], [42]), ([0, 0, 0, 0, 0, 0, 0, 2], [7])]
   = take 9 (dq_contents (pagedb_rows map_of demo_nsb demo_qdb) demo_queue @ [(u64_to_be_bytes 2, [7])])"
proof -
  have d: "dq_drain_batch demo_engine (demo_queue\<lparr>dq_next_id := 3\<rparr>) demo_qdb2 9
      = Inr [([0, 0, 0, 0, 0, 0, 0, 1], [42]), ([0, 0, 0, 0, 0, 0, 0, 2], [7])]"
    by (simp add: dq_drain_batch_def scan_range_rows_def mem_pagedb_def demo_qdb_def demo_qdb2_def demo_queue_def
        prefix_key_def ns_end_def mem_scan_def strip_rows_def)
  show ?thesis
    using dq_enqueue_fifo [OF mem_q.outbound_store_axioms _ _ demo_inv_qdb demo_enqueue d] by simp
qed

theorem dq_enqueue_full_witness:
  "\<exists>e. dq_enqueue demo_engine (demo_queue\<lparr>dq_cap := 1\<rparr>) demo_qdb [7] = (Inl e, demo_queue\<lparr>dq_cap := 1\<rparr>, demo_qdb)"
  using dq_enqueue_full [OF mem_q.outbound_store_axioms,
      where s = demo_qdb and q = "demo_queue\<lparr>dq_cap := 1\<rparr>" and payload = "[7]"]
  by (simp add: demo_rows_qdb demo_queue_def usize_max_def)

theorem dq_ack_exact_witness:
  "\<exists>s'. dq_ack_keys demo_engine demo_queue demo_qdb [[0, 0, 0, 0, 0, 0, 0, 1]] = (Inr (), s') \<and>
        dq_contents (pagedb_rows map_of demo_nsb s') demo_queue = []"
proof -
  have a: "dq_ack_keys demo_engine demo_queue demo_qdb [[0, 0, 0, 0, 0, 0, 0, 1]] = (Inr (), [([3, 98], [9])])"
    by (simp add: dq_ack_keys_def batch_write_rows_def demo_queue_def demo_qdb_def mem_pagedb_def commit_txn_def
        Let_def apply_batched_def prefix_key_def)
  show ?thesis
    using dq_ack_exact [OF mem_q.outbound_store_axioms _ _ a] a
    by (simp add: dq_contents_def demo_queue_def demo_rows_qdb entries_where_all)
qed

theorem dq_reopen_restarts_witness:
  "\<exists>q. dq_open_with_cap demo_engine [([3, 98], [9])] ColumnarPending 2 = Inr q \<and> dq_next_id q = 1"
proof -
  have o: "\<exists>q. dq_open_with_cap demo_engine [([3, 98], [9])] ColumnarPending 2 = Inr q"
    by (simp add: dq_open_with_cap_def recover_next_id_def scan_range_rows_def mem_pagedb_def prefix_key_def
        ns_end_def mem_scan_def strip_rows_def)
  have e: "dom (pagedb_rows map_of demo_nsb [([3, 98], [9])] ColumnarPending) = {}"
    by (auto simp: pagedb_rows_def)
  show ?thesis
    using o dq_reopen_restarts [OF mem_q.outbound_store_axioms _ e] by blast
qed

end
