(* ===== verification/Stream_Seq.thy ===== *)
theory Stream_Seq
  imports Outbound_Queue
begin

text \<open>
  The per-stream sequence frontier (\<open>sync/stream_seq.rs\<close>): the 16-byte codec, loading from
  storage, assigning a sequence number and recording an acknowledgement.

  \<open>next_seq\<close> and \<open>record_ack\<close> change the frontier under a lock, drop the lock and then
  write the encoded frontier. Each is therefore modelled in two parts, the locked part
  (\<open>next_seq_begin\<close>, \<open>record_ack_begin\<close>) and the write, and as their composition. The step
  relation \<open>seq_step\<close> interleaves the parts of concurrent calls with crashes; its flag
  says whether calls for one stream are serialised by the caller.
\<close>

subsection \<open>Frontiers\<close>

definition STREAM_SEQ_PREFIX :: string where
  "STREAM_SEQ_PREFIX = ''sync.stream_seq:''"

definition stream_seq_key :: "u64 \<Rightarrow> bytes" where
  "stream_seq_key stream_id = str_bytes (STREAM_SEQ_PREFIX @ fmt_016x stream_id)"

record frontier =
  last_assigned :: u64
  last_acked :: u64

definition frontier_default :: frontier where
  "frontier_default = \<lparr>last_assigned = 0, last_acked = 0\<rparr>"

definition encode_frontier :: "frontier \<Rightarrow> bytes" where
  "encode_frontier f = u64_to_be_bytes (last_assigned f) @ u64_to_be_bytes (last_acked f)"

text \<open>The parsing of a 16-byte value inside \<open>load\<close>.\<close>

definition decode_frontier :: "bytes \<Rightarrow> frontier" where
  "decode_frontier arr =
     \<lparr>last_assigned = u64_from_be_bytes (take 8 arr), last_acked = u64_from_be_bytes (drop 8 arr)\<rparr>"

record seq_tracker =
  st_state :: "(u64, frontier) hmap"
  st_poisoned :: bool

definition frontier_of :: "seq_tracker \<Rightarrow> u64 \<Rightarrow> frontier" where
  "frontier_of t sid = hm_get_or frontier_default (st_state t) sid"

subsection \<open>Operations\<close>

text \<open>A key that is not UTF-8 and a key that is not a number give the same error, and no
  key with a non-ASCII byte is a number: one case of the model.\<close>

fun load_loop :: "kv_pair list \<Rightarrow> (u64, frontier) hmap \<Rightarrow> (u64, frontier) hmap lite_result" where
  "load_loop [] state = Inr state"
| "load_loop ((key, val) # rest) state =
     (if \<not> prefix (str_bytes STREAM_SEQ_PREFIX) key then Inr state
      else case from_str_radix16 (bytes_str (drop (length STREAM_SEQ_PREFIX) key)) of
             None \<Rightarrow> Inl Storage
           | Some stream_id \<Rightarrow>
               if length val \<noteq> 16 then Inl Storage
               else load_loop rest (hm_insert stream_id (decode_frontier val) state))"

definition tracker_load :: "'s storage_ops \<Rightarrow> 's \<Rightarrow> seq_tracker lite_result" where
  "tracker_load so s =
     rbind (so_scan_range so s Meta (str_bytes STREAM_SEQ_PREFIX) usize_max) (\<lambda>pairs.
       rbind (load_loop pairs []) (\<lambda>state. Inr \<lparr>st_state = state, st_poisoned = False\<rparr>))"

definition next_seq_begin :: "seq_tracker \<Rightarrow> u64 \<Rightarrow> (u64 \<times> bytes) lite_result \<times> seq_tracker" where
  "next_seq_begin t stream_id =
     (if st_poisoned t then (Inl LockPoisoned, t)
      else (let entry = frontier_of t stream_id;
                next = last_assigned entry + 1;
                entry = entry\<lparr>last_assigned := next\<rparr>
            in (Inr (next, encode_frontier entry),
                t\<lparr>st_state := hm_insert stream_id entry (st_state t)\<rparr>)))"

definition next_seq ::
  "'s storage_ops \<Rightarrow> seq_tracker \<Rightarrow> 's \<Rightarrow> u64 \<Rightarrow> u64 lite_result \<times> seq_tracker \<times> 's" where
  "next_seq so t s stream_id =
     (case next_seq_begin t stream_id of
        (Inl e, t') \<Rightarrow> (Inl e, t', s)
      | (Inr (next, encoded), t') \<Rightarrow>
          (case so_put so s Meta (stream_seq_key stream_id) encoded of
             (Inl e, s') \<Rightarrow> (Inl e, t', s')
           | (Inr _, s') \<Rightarrow> (Inr next, t', s')))"

definition record_ack_begin :: "seq_tracker \<Rightarrow> u64 \<Rightarrow> u64 \<Rightarrow> bytes option lite_result \<times> seq_tracker" where
  "record_ack_begin t stream_id applied_seq =
     (if st_poisoned t then (Inl LockPoisoned, t)
      else (let entry = frontier_of t stream_id
            in if applied_seq \<le> last_acked entry
               then (Inr None, t\<lparr>st_state := hm_insert stream_id entry (st_state t)\<rparr>)
               else (let entry = \<lparr>last_assigned = max (last_assigned entry) applied_seq,
                                  last_acked = applied_seq\<rparr>
                     in (Inr (Some (encode_frontier entry)),
                         t\<lparr>st_state := hm_insert stream_id entry (st_state t)\<rparr>))))"

definition record_ack ::
  "'s storage_ops \<Rightarrow> seq_tracker \<Rightarrow> 's \<Rightarrow> u64 \<Rightarrow> u64 \<Rightarrow> unit lite_result \<times> seq_tracker \<times> 's" where
  "record_ack so t s stream_id applied_seq =
     (case record_ack_begin t stream_id applied_seq of
        (Inl e, t') \<Rightarrow> (Inl e, t', s)
      | (Inr None, t') \<Rightarrow> (Inr (), t', s)
      | (Inr (Some encoded), t') \<Rightarrow>
          (case so_put so s Meta (stream_seq_key stream_id) encoded of (r, s') \<Rightarrow> (r, t', s')))"

definition tracker_last_acked :: "seq_tracker \<Rightarrow> u64 \<Rightarrow> u64" where
  "tracker_last_acked t stream_id =
     (if st_poisoned t then 0
      else case hm_get (st_state t) stream_id of Some f \<Rightarrow> last_acked f | None \<Rightarrow> 0)"

definition tracker_last_assigned :: "seq_tracker \<Rightarrow> u64 \<Rightarrow> u64" where
  "tracker_last_assigned t stream_id =
     (if st_poisoned t then 0
      else case hm_get (st_state t) stream_id of Some f \<Rightarrow> last_assigned f | None \<Rightarrow> 0)"

subsection \<open>The delegate's use of the tracker\<close>

text \<open>\<open>nodedb/sync_delegate/outbound_state.rs\<close>: a failure to assign gives the sentinel 0,
  a failure to record an acknowledgement is logged. \<open>stream_id_for\<close> belongs to the wire
  crate, so the stream id is an argument.\<close>

definition next_stream_seq_impl ::
  "'s storage_ops \<Rightarrow> seq_tracker \<Rightarrow> 's \<Rightarrow> u64 \<Rightarrow> u64 \<times> seq_tracker \<times> 's" where
  "next_stream_seq_impl so t s stream_id =
     (case next_seq so t s stream_id of
        (Inr seq, t', s') \<Rightarrow> (seq, t', s')
      | (Inl _, t', s') \<Rightarrow> (0, t', s'))"

definition record_stream_ack_impl ::
  "'s storage_ops \<Rightarrow> seq_tracker \<Rightarrow> 's \<Rightarrow> u64 \<Rightarrow> u64 \<Rightarrow> seq_tracker \<times> 's" where
  "record_stream_ack_impl so t s stream_id applied_seq =
     (case record_ack so t s stream_id applied_seq of (_, t', s') \<Rightarrow> (t', s'))"

subsection \<open>Codec and keys\<close>

lemma length_encode_frontier [simp]: "length (encode_frontier f) = 16"
  by (simp add: encode_frontier_def)

lemma decode_encode_frontier [simp]: "decode_frontier (encode_frontier f) = f"
  by (simp add: decode_frontier_def encode_frontier_def)

lemma stream_seq_key_inject [simp]: "stream_seq_key a = stream_seq_key b \<longleftrightarrow> a = b"
  by (simp add: stream_seq_key_def)

lemma prefix_stream_seq_key [simp]: "prefix (str_bytes STREAM_SEQ_PREFIX) (stream_seq_key sid)"
  by (simp add: stream_seq_key_def)

lemma parse_stream_seq_key [simp]:
  "from_str_radix16 (bytes_str (drop (length STREAM_SEQ_PREFIX) (stream_seq_key sid))) = Some sid"
  by (simp add: stream_seq_key_def)

lemma frontier_of_insert [simp]:
  "frontier_of (t\<lparr>st_state := hm_insert sid f (st_state t)\<rparr>) sid' = (if sid' = sid then f else frontier_of t sid')"
  by (simp add: frontier_of_def hm_get_or_def)

subsection \<open>Loading\<close>

definition seq_rows_ok :: "rows \<Rightarrow> bool" where
  "seq_rows_ok m \<longleftrightarrow>
     (\<forall>k v. m Meta k = Some v \<and> prefix (str_bytes STREAM_SEQ_PREFIX) k \<longrightarrow>
        (\<exists>sid. k = stream_seq_key sid) \<and> length v = 16)"

definition disk_frontier :: "rows \<Rightarrow> u64 \<Rightarrow> frontier" where
  "disk_frontier m sid =
     (case m Meta (stream_seq_key sid) of None \<Rightarrow> frontier_default | Some v \<Rightarrow> decode_frontier v)"

lemma load_loop_takeWhile:
  "load_loop es st = load_loop (takeWhile (\<lambda>kv. prefix (str_bytes STREAM_SEQ_PREFIX) (fst kv)) es) st"
  by (induction es st rule: load_loop.induct) (auto split: option.splits)

lemma load_loop_canonical:
  assumes "\<And>k v. (k, v) \<in> set es \<Longrightarrow> (\<exists>sid. k = stream_seq_key sid) \<and> length v = 16" "distinct (map fst es)"
  shows "\<exists>st'. load_loop es st = Inr st' \<and>
    (\<forall>sid. hm_get st' sid = (case map_of es (stream_seq_key sid) of
                               Some v \<Rightarrow> Some (decode_frontier v) | None \<Rightarrow> hm_get st sid))"
  using assms
proof (induction es arbitrary: st)
  case (Cons kv es)
  obtain sid v where kv: "kv = (stream_seq_key sid, v)" "length v = 16"
    using Cons.prems(1) [of "fst kv" "snd kv"] by (cases kv) auto
  have step: "load_loop (kv # es) st = load_loop es (hm_insert sid (decode_frontier v) st)"
    by (simp add: kv)
  obtain st' where st': "load_loop es (hm_insert sid (decode_frontier v) st) = Inr st'"
    "\<forall>s. hm_get st' s = (case map_of es (stream_seq_key s) of
        Some v \<Rightarrow> Some (decode_frontier v) | None \<Rightarrow> hm_get (hm_insert sid (decode_frontier v) st) s)"
    using Cons.IH [of "hm_insert sid (decode_frontier v) st"] Cons.prems by auto
  have "map_of es (stream_seq_key sid) = None"
    using Cons.prems(2) by (simp add: kv map_of_eq_None_iff)
  then show ?case
    unfolding step using st' by (intro exI [of _ st']) (auto simp: kv split: option.splits)
qed simp

lemma takeWhile_prefix_block:
  assumes "sorted_wrt (<) (map fst xs)" "\<And>kv. kv \<in> set xs \<Longrightarrow> p \<le> fst kv"
  shows "takeWhile (\<lambda>kv. prefix p (fst kv)) xs = filter (\<lambda>kv. prefix p (fst kv)) (xs :: kv_pair list)"
  using assms
proof (induction xs)
  case (Cons x xs)
  show ?case
  proof (cases "prefix p (fst x)")
    case False
    have "\<not> prefix p (fst y)" if y: "y \<in> set xs" for y
    proof
      assume "prefix p (fst y)"
      then have "fst y < fst x"
        using prefix_block [of p "fst y" "fst x"] Cons.prems(2) [of x] False by simp
      moreover have "fst x < fst y"
        using Cons.prems(1) y by simp
      ultimately show False by simp
    qed
    then show ?thesis using False by (simp add: filter_empty_conv)
  qed (use Cons in simp)
qed simp

locale seq_store = storage_engine +
  assumes seq_visible: "str_bytes STREAM_SEQ_PREFIX \<le> k \<Longrightarrow> \<not> hidden Meta k"
begin

lemma tracker_load_ok:
  assumes "store_inv s" "seq_rows_ok (rows_of s)" "length pairs < usize_max"
    and "so_scan_range so s Meta (str_bytes STREAM_SEQ_PREFIX) usize_max = Inr pairs"
  shows "\<exists>t. tracker_load so s = Inr t \<and> \<not> st_poisoned t \<and> (\<forall>sid. frontier_of t sid = disk_frontier (rows_of s) sid)"
proof -
  let ?P = "str_bytes STREAM_SEQ_PREFIX"
  let ?es = "entries_where (\<lambda>k. ?P \<le> k) (rows_of s Meta)"
  let ?fs = "filter (\<lambda>kv. prefix ?P (fst kv)) ?es"
  note fin = finite_rows [OF assms(1), of Meta]
  have "pairs = take usize_max ?es"
    by (rule scan_range_law [OF assms(1) seq_visible assms(4)])
  then have pairs: "pairs = ?es"
    using assms(3) by simp
  have tw: "takeWhile (\<lambda>kv. prefix ?P (fst kv)) ?es = ?fs"
    by (rule takeWhile_prefix_block [OF entries_where_sorted]) (auto simp: entries_where_set [OF fin])
  have set: "set ?fs = {(k, v). rows_of s Meta k = Some v \<and> prefix ?P k}"
    by (auto simp: entries_where_set [OF fin] intro: prefix_le)
  have d: "distinct (map fst ?fs)"
    by (simp add: distinct_map_filter entries_where_distinct)
  have "(\<exists>sid. k = stream_seq_key sid) \<and> length v = 16" if "(k, v) \<in> set ?fs" for k v
    using that assms(2) unfolding set seq_rows_ok_def by blast
  then obtain st' where st': "load_loop ?fs [] = Inr st'"
    "\<forall>sid. hm_get st' sid = (case map_of ?fs (stream_seq_key sid) of
        Some v \<Rightarrow> Some (decode_frontier v) | None \<Rightarrow> hm_get [] sid)"
    using load_loop_canonical [OF _ d, of "[]"] by blast
  have m: "map_of ?fs (stream_seq_key sid) = rows_of s Meta (stream_seq_key sid)" for sid
  proof (cases "rows_of s Meta (stream_seq_key sid)")
    case None
    then show ?thesis using set by (force simp: map_of_eq_None_iff)
  next
    case (Some v)
    then have "(stream_seq_key sid, v) \<in> set ?fs" unfolding set by simp
    then show ?thesis using d Some by simp
  qed
  have "tracker_load so s = Inr \<lparr>st_state = st', st_poisoned = False\<rparr>"
    using assms(4) pairs st'(1) load_loop_takeWhile [of ?es "[]"] by (simp add: tracker_load_def tw)
  then show ?thesis
    using st'(2) m by (auto simp: frontier_of_def hm_get_or_def disk_frontier_def split: option.splits)
qed

end

subsection \<open>Interleaved calls and crashes\<close>

text \<open>A run keeps the tracker, the storage, the writes whose lock is already released
  (stream, encoded frontier, and the number to return for an assignment), and the ghost
  list of the numbers returned to callers. \<open>serial\<close> requires that no write for the
  stream is outstanding when a call begins. An assignment at \<open>u64::MAX\<close> is left out: it
  takes 2^64 assignments, or an acknowledgement of that number. The rows a reload scans
  are fewer than \<open>usize::MAX\<close>.\<close>

record 's seq_run =
  sr_tracker :: seq_tracker
  sr_store :: 's
  sr_pending :: "(u64 \<times> bytes \<times> u64 option) list"
  sr_sent :: "(u64 \<times> u64) list"

inductive seq_step :: "'s storage_ops \<Rightarrow> bool \<Rightarrow> 's seq_run \<Rightarrow> 's seq_run \<Rightarrow> bool" for so serial where
  begin_next: "next_seq_begin t sid = (Inr (n, enc), t') \<Longrightarrow> (serial \<longrightarrow> sid \<notin> fst ` set pend) \<Longrightarrow>
     last_assigned (frontier_of t sid) \<noteq> u64_max \<Longrightarrow>
     seq_step so serial \<lparr>sr_tracker = t, sr_store = s, sr_pending = pend, sr_sent = sent\<rparr>
       \<lparr>sr_tracker = t', sr_store = s, sr_pending = pend @ [(sid, enc, Some n)], sr_sent = sent\<rparr>"
| begin_ack: "record_ack_begin t sid a = (Inr (Some enc), t') \<Longrightarrow> (serial \<longrightarrow> sid \<notin> fst ` set pend) \<Longrightarrow>
     seq_step so serial \<lparr>sr_tracker = t, sr_store = s, sr_pending = pend, sr_sent = sent\<rparr>
       \<lparr>sr_tracker = t', sr_store = s, sr_pending = pend @ [(sid, enc, None)], sr_sent = sent\<rparr>"
| finish: "so_put so s Meta (stream_seq_key sid) enc = (r, s') \<Longrightarrow>
     seq_step so serial \<lparr>sr_tracker = t, sr_store = s, sr_pending = xs @ (sid, enc, num) # ys, sr_sent = sent\<rparr>
       \<lparr>sr_tracker = t, sr_store = s', sr_pending = xs @ ys,
        sr_sent = (case num of Some n \<Rightarrow> if is_ok r then sent @ [(sid, n)] else sent | None \<Rightarrow> sent)\<rparr>"
| crash: "tracker_load so s = Inr t' \<Longrightarrow>
     so_scan_range so s Meta (str_bytes STREAM_SEQ_PREFIX) usize_max = Inr pairs \<Longrightarrow> length pairs < usize_max \<Longrightarrow>
     seq_step so serial \<lparr>sr_tracker = t, sr_store = s, sr_pending = pend, sr_sent = sent\<rparr>
       \<lparr>sr_tracker = t', sr_store = s, sr_pending = [], sr_sent = sent\<rparr>"

definition pend_ok :: "seq_tracker \<Rightarrow> rows \<Rightarrow> u64 \<times> bytes \<times> u64 option \<Rightarrow> bool" where
  "pend_ok t m = (\<lambda>(sid, enc, num).
     enc = encode_frontier (frontier_of t sid) \<and>
     (case num of None \<Rightarrow> True
      | Some n \<Rightarrow> n = last_assigned (frontier_of t sid) \<and> last_assigned (disk_frontier m sid) < n))"

definition seq_run_inv :: "('s \<Rightarrow> rows) \<Rightarrow> ('s \<Rightarrow> bool) \<Rightarrow> 's seq_run \<Rightarrow> bool" where
  "seq_run_inv rows_of store_inv g \<longleftrightarrow>
     store_inv (sr_store g) \<and> seq_rows_ok (rows_of (sr_store g)) \<and>
     (\<forall>sid. last_assigned (disk_frontier (rows_of (sr_store g)) sid)
              \<le> last_assigned (frontier_of (sr_tracker g) sid)) \<and>
     list_all (\<lambda>(sid, n). n \<le> last_assigned (disk_frontier (rows_of (sr_store g)) sid)) (sr_sent g) \<and>
     list_all (pend_ok (sr_tracker g) (rows_of (sr_store g))) (sr_pending g) \<and>
     distinct (map fst (sr_pending g)) \<and> distinct (sr_sent g)"

lemma pend_ok_cong:
  assumes "\<And>x. x \<in> set pend \<Longrightarrow> frontier_of t' (fst x) = frontier_of t (fst x)"
    "\<And>x. x \<in> set pend \<Longrightarrow> disk_frontier m' (fst x) = disk_frontier m (fst x)"
  shows "list_all (pend_ok t' m') pend = list_all (pend_ok t m) pend"
  using assms by (intro list.pred_cong) (auto simp: pend_ok_def split: option.splits)

lemma next_seq_begin_Inr:
  "next_seq_begin t sid = (Inr (n, enc), t') \<Longrightarrow>
   n = last_assigned (frontier_of t sid) + 1 \<and> enc = encode_frontier (frontier_of t' sid) \<and>
   last_assigned (frontier_of t' sid) = n \<and> (\<forall>s. s \<noteq> sid \<longrightarrow> frontier_of t' s = frontier_of t s)"
  by (auto simp: next_seq_begin_def Let_def split: if_splits)

lemma record_ack_begin_Some:
  "record_ack_begin t sid a = (Inr (Some enc), t') \<Longrightarrow>
   enc = encode_frontier (frontier_of t' sid) \<and>
   last_assigned (frontier_of t sid) \<le> last_assigned (frontier_of t' sid) \<and>
   last_acked (frontier_of t' sid) = a \<and> (\<forall>s. s \<noteq> sid \<longrightarrow> frontier_of t' s = frontier_of t s)"
  by (auto simp: record_ack_begin_def Let_def split: if_splits)

lemma disk_after_put:
  assumes "m' = rows_apply m (Put Meta (stream_seq_key sid) (encode_frontier f))"
  shows "disk_frontier m' sid' = (if sid' = sid then f else disk_frontier m sid')"
    and "seq_rows_ok m \<Longrightarrow> seq_rows_ok m'"
  by (auto simp: assms disk_frontier_def seq_rows_ok_def)

context seq_store
begin

lemma begin_next_keeps:
  assumes "seq_run_inv rows_of store_inv \<lparr>sr_tracker = t, sr_store = s, sr_pending = pend, sr_sent = sent\<rparr>"
    and "next_seq_begin t sid = (Inr (n, enc), t')" "sid \<notin> fst ` set pend"
    and "last_assigned (frontier_of t sid) \<noteq> u64_max"
  shows "seq_run_inv rows_of store_inv
           \<lparr>sr_tracker = t', sr_store = s, sr_pending = pend @ [(sid, enc, Some n)], sr_sent = sent\<rparr>"
proof -
  note b = next_seq_begin_Inr [OF assms(2)]
  note i = assms(1) [unfolded seq_run_inv_def, simplified]
  have lt: "last_assigned (frontier_of t sid) < n"
    using b u64_succ_gt(1) [OF assms(4)] by simp
  have 1: "last_assigned (disk_frontier (rows_of s) s') \<le> last_assigned (frontier_of t' s')" for s'
    using i b lt by (cases "s' = sid") (auto intro: order.trans less_imp_le)
  have 2: "last_assigned (disk_frontier (rows_of s) sid) < n"
    using i lt by (blast intro: le_less_trans)
  have "frontier_of t' (fst x) = frontier_of t (fst x)" if "x \<in> set pend" for x
    using that assms(3) b by (metis image_eqI)
  then have "list_all (pend_ok t' (rows_of s)) pend"
    using pend_ok_cong [of pend t' t "rows_of s" "rows_of s"] i by simp
  then show ?thesis
    using i 1 2 b assms(3) by (simp add: seq_run_inv_def pend_ok_def)
qed

lemma begin_ack_keeps:
  assumes "seq_run_inv rows_of store_inv \<lparr>sr_tracker = t, sr_store = s, sr_pending = pend, sr_sent = sent\<rparr>"
    and "record_ack_begin t sid a = (Inr (Some enc), t')" "sid \<notin> fst ` set pend"
  shows "seq_run_inv rows_of store_inv
           \<lparr>sr_tracker = t', sr_store = s, sr_pending = pend @ [(sid, enc, None)], sr_sent = sent\<rparr>"
proof -
  note b = record_ack_begin_Some [OF assms(2)]
  note i = assms(1) [unfolded seq_run_inv_def, simplified]
  have 1: "last_assigned (disk_frontier (rows_of s) s') \<le> last_assigned (frontier_of t' s')" for s'
    using i b by (cases "s' = sid") (auto intro: order.trans)
  have "frontier_of t' (fst x) = frontier_of t (fst x)" if "x \<in> set pend" for x
    using that assms(3) b by (metis image_eqI)
  then have "list_all (pend_ok t' (rows_of s)) pend"
    using pend_ok_cong [of pend t' t "rows_of s" "rows_of s"] i by simp
  then show ?thesis
    using i 1 b assms(3) by (simp add: seq_run_inv_def pend_ok_def)
qed

lemma finish_keeps:
  assumes "seq_run_inv rows_of store_inv
      \<lparr>sr_tracker = t, sr_store = s, sr_pending = xs @ (sid, enc, num) # ys, sr_sent = sent\<rparr>"
    and "so_put so s Meta (stream_seq_key sid) enc = (r, s')"
  shows "seq_run_inv rows_of store_inv
     \<lparr>sr_tracker = t, sr_store = s', sr_pending = xs @ ys,
      sr_sent = (case num of Some n \<Rightarrow> if is_ok r then sent @ [(sid, n)] else sent | None \<Rightarrow> sent)\<rparr>"
proof -
  let ?f = "frontier_of t sid"
  note i = assms(1) [unfolded seq_run_inv_def, simplified]
  have inv: "store_inv s" and p: "pend_ok t (rows_of s) (sid, enc, num)" and enc: "enc = encode_frontier ?f"
    using i by (auto simp: pend_ok_def)
  show ?thesis
  proof (cases r)
    case (Inl e)
    then have "rows_of s' = rows_of s" "store_inv s'"
      using put_err [OF inv] put_inv [OF inv] assms(2) by blast+
    then show ?thesis
      using i Inl by (simp add: seq_run_inv_def split: option.splits)
  next
    case (Inr u)
    have rows: "rows_of s' = rows_apply (rows_of s) (Put Meta (stream_seq_key sid) (encode_frontier ?f))"
      using put_ok [OF inv] assms(2) Inr enc by blast
    have d: "disk_frontier (rows_of s') q = (if q = sid then ?f else disk_frontier (rows_of s) q)" for q
      by (rule disk_after_put(1) [OF rows])
    have "fst x \<noteq> sid" if "x \<in> set (xs @ ys)" for x
      using i that by auto
    then have pend: "list_all (pend_ok t (rows_of s')) (xs @ ys)"
      using pend_ok_cong [of "xs @ ys" t t "rows_of s'" "rows_of s"] i d by simp
    have mono: "last_assigned (disk_frontier (rows_of s) q) \<le> last_assigned (disk_frontier (rows_of s') q)" for q
      using i by (simp add: d)
    have old: "list_all (\<lambda>(q, n). n \<le> last_assigned (disk_frontier (rows_of s') q)) sent"
      using i mono by (auto simp: list_all_iff intro: order.trans)
    have fresh: "num = Some n \<Longrightarrow> (sid, n) \<notin> set sent" for n
      using p i by (auto simp: pend_ok_def list_all_iff)
    have num: "num = Some n \<Longrightarrow> n = last_assigned ?f" for n
      using p by (simp add: pend_ok_def)
    show ?thesis
      using i pend old fresh num Inr disk_after_put(2) [OF rows] put_inv [OF inv assms(2)]
      by (auto simp: seq_run_inv_def d split: option.splits)
  qed
qed

lemma crash_keeps:
  assumes "seq_run_inv rows_of store_inv \<lparr>sr_tracker = t, sr_store = s, sr_pending = pend, sr_sent = sent\<rparr>"
    and "tracker_load so s = Inr t'" "length pairs < usize_max"
    and "so_scan_range so s Meta (str_bytes STREAM_SEQ_PREFIX) usize_max = Inr pairs"
  shows "seq_run_inv rows_of store_inv \<lparr>sr_tracker = t', sr_store = s, sr_pending = [], sr_sent = sent\<rparr>"
proof -
  have "store_inv s" "seq_rows_ok (rows_of s)"
    using assms(1) by (auto simp: seq_run_inv_def)
  from tracker_load_ok [OF this assms(3,4)]
  have "\<forall>sid. frontier_of t' sid = disk_frontier (rows_of s) sid"
    using assms(2) by auto
  then show ?thesis
    using assms(1) by (simp add: seq_run_inv_def)
qed

lemma seq_step_keeps:
  "seq_step so True g g' \<Longrightarrow> seq_run_inv rows_of store_inv g \<Longrightarrow> seq_run_inv rows_of store_inv g'"
proof (erule seq_step.cases, goal_cases)
  case 1 then show ?case using begin_next_keeps by blast
next
  case 2 then show ?case using begin_ack_keeps by blast
next
  case 3 then show ?case using finish_keeps by blast
next
  case 4 then show ?case using crash_keeps by blast
qed

lemma seq_run_keeps:
  "(seq_step so True)\<^sup>*\<^sup>* g g' \<Longrightarrow> seq_run_inv rows_of store_inv g \<Longrightarrow> seq_run_inv rows_of store_inv g'"
  by (induction rule: rtranclp_induct) (auto intro: seq_step_keeps)

end

interpretation mem_seq: seq_store "pagedb_engine mem_pagedb demo_nsb" "pagedb_rows map_of demo_nsb"
  "\<lambda>_. True" "\<lambda>_ _. False"
  by unfold_locales simp

lemma salt_before_seq: "str_bytes STREAM_SEQ_PREFIX \<le> k \<Longrightarrow> k \<noteq> SALT_KEY"
  by (auto simp: STREAM_SEQ_PREFIX_def SALT_KEY_def str_bytes_def)

interpretation enc_seq: seq_store "encrypted_engine (pagedb_engine mem_pagedb demo_nsb) demo_env"
  "enc_rows demo_env (pagedb_rows map_of demo_nsb)"
  "enc_inv demo_env (pagedb_rows map_of demo_nsb) (\<lambda>_. True)" "enc_hidden (\<lambda>_ _. False)"
  by unfold_locales (auto simp: enc_hidden_def is_salt_def dest: salt_before_seq)

subsection \<open>Properties of the tracker\<close>

text \<open>
  C7. No reuse under serialised calls: if the calls for one stream do not overlap, then
  over any interleaving of assignments, acknowledgements, failed writes, crashes and
  reloads, no sequence number is returned twice for a stream, and every returned number
  is covered by the frontier in storage (persist before send).
\<close>

theorem stream_seq_never_reused:
  assumes "seq_store so rows_of store_inv hidden" "store_inv s" "seq_rows_ok (rows_of s)"
    and "tracker_load so s = Inr t"
    and "so_scan_range so s Meta (str_bytes STREAM_SEQ_PREFIX) usize_max = Inr pairs" "length pairs < usize_max"
    and "(seq_step so True)\<^sup>*\<^sup>* \<lparr>sr_tracker = t, sr_store = s, sr_pending = [], sr_sent = []\<rparr> g"
  shows "distinct (sr_sent g) \<and>
         list_all (\<lambda>(sid, n). n \<le> last_assigned (disk_frontier (rows_of (sr_store g)) sid)) (sr_sent g)"
proof -
  have "seq_run_inv rows_of store_inv \<lparr>sr_tracker = t, sr_store = s, sr_pending = [], sr_sent = []\<rparr>"
    using seq_store.tracker_load_ok [OF assms(1-3,6,5)] assms(2-4) by (auto simp: seq_run_inv_def)
  from seq_store.seq_run_keeps [OF assms(1,7) this] show ?thesis
    by (simp add: seq_run_inv_def)
qed

text \<open>Persist before send, for one call: when \<open>next_seq\<close> returns a number, it is one above
  the stream's frontier, storage holds exactly the new in-memory frontier, and other
  streams are untouched; when it fails, storage is unchanged.
\<close>

theorem next_seq_persisted:
  assumes "seq_store so rows_of store_inv hidden" "store_inv s"
    and "next_seq so t s sid = (r, t', s')"
  shows "(case r of
            Inr n \<Rightarrow> n = last_assigned (frontier_of t sid) + 1 \<and>
                     disk_frontier (rows_of s') sid = (frontier_of t sid)\<lparr>last_assigned := n\<rparr> \<and>
                     frontier_of t' sid = disk_frontier (rows_of s') sid
          | Inl e \<Rightarrow> rows_of s' = rows_of s)
       \<and> (sid' \<noteq> sid \<longrightarrow> disk_frontier (rows_of s') sid' = disk_frontier (rows_of s) sid')"
proof (cases "st_poisoned t")
  case True
  then show ?thesis using assms(3) by (auto simp: next_seq_def next_seq_begin_def)
next
  case False
  let ?f = "(frontier_of t sid)\<lparr>last_assigned := last_assigned (frontier_of t sid) + 1\<rparr>"
  note kv = storage_engine.axioms(1) [OF seq_store.axioms(1) [OF assms(1)]]
  obtain r' where p: "so_put so s Meta (stream_seq_key sid) (encode_frontier ?f) = (r', s')"
    and t': "t' = t\<lparr>st_state := hm_insert sid ?f (st_state t)\<rparr>"
    and r: "r = (case r' of Inl e \<Rightarrow> Inl e | Inr _ \<Rightarrow> Inr (last_assigned ?f))"
    using assms(3) False
    by (auto simp: next_seq_def next_seq_begin_def Let_def split: prod.splits sum.splits)
  show ?thesis
  proof (cases r')
    case (Inl e)
    then show ?thesis
      using kv_store.put_err [OF kv assms(2)] p r by auto
  next
    case (Inr u)
    then have "rows_of s' = rows_apply (rows_of s) (Put Meta (stream_seq_key sid) (encode_frontier ?f))"
      using kv_store.put_ok [OF kv assms(2)] p by blast
    then show ?thesis
      using disk_after_put(1) [of "rows_of s'" "rows_of s" sid ?f] Inr r t' by simp
  qed
qed

subsection \<open>Concrete runs\<close>

text \<open>One stream with id 1 over the in-memory pages: its only row, its tracker, and the
  steps of the run relation on them.\<close>

definition seq_demo_tracker :: "u64 \<Rightarrow> u64 \<Rightarrow> seq_tracker" where
  "seq_demo_tracker a b = \<lparr>st_state = [(1, \<lparr>last_assigned = a, last_acked = b\<rparr>)], st_poisoned = False\<rparr>"

definition seq_demo_enc :: "u64 \<Rightarrow> u64 \<Rightarrow> bytes" where
  "seq_demo_enc a b = encode_frontier \<lparr>last_assigned = a, last_acked = b\<rparr>"

definition seq_demo_row :: "u64 \<Rightarrow> u64 \<Rightarrow> kv_pair list" where
  "seq_demo_row a b = [(0 # stream_seq_key 1, seq_demo_enc a b)]"

definition seq_demo_run ::
  "seq_tracker \<Rightarrow> kv_pair list \<Rightarrow> (u64 \<times> bytes \<times> u64 option) list \<Rightarrow> (u64 \<times> u64) list \<Rightarrow> kv_pair list seq_run" where
  "seq_demo_run t d p q = \<lparr>sr_tracker = t, sr_store = d, sr_pending = p, sr_sent = q\<rparr>"

definition seq_demo_start :: "kv_pair list seq_run" where
  "seq_demo_start = seq_demo_run \<lparr>st_state = [], st_poisoned = False\<rparr> [] [] []"

lemmas seq_demo_defs = seq_demo_run_def seq_demo_tracker_def seq_demo_enc_def

lemma seq_demo_put:
  assumes "d = [] \<or> d = seq_demo_row a' b'"
  shows "so_put demo_engine d Meta (stream_seq_key 1) (seq_demo_enc a b) = (Inr (), seq_demo_row a b)"
  using assms
  by (auto simp: put_rows_def commit_txn_def mem_pagedb_def prefix_key_def Let_def seq_demo_row_def)

lemma seq_demo_scan:
  "so_scan_range demo_engine (seq_demo_row a b) Meta (str_bytes STREAM_SEQ_PREFIX) usize_max
   = Inr [(stream_seq_key 1, seq_demo_enc a b)]"
  using prefix_le [OF prefix_stream_seq_key [of 1]]
  by (simp add: scan_range_rows_def mem_pagedb_def prefix_key_def ns_end_def mem_scan_def seq_demo_row_def
      strip_rows_def usize_max_def)

lemma seq_demo_first:
  "seq_step demo_engine serial seq_demo_start
     (seq_demo_run (seq_demo_tracker 1 0) [] [(1, seq_demo_enc 1 0, Some 1)] [])"
  using seq_step.begin_next [of "\<lparr>st_state = [], st_poisoned = False\<rparr>" 1 1 "seq_demo_enc 1 0"
      "seq_demo_tracker 1 0" serial "[]" demo_engine "[]" "[]"]
  by (simp add: next_seq_begin_def frontier_of_def hm_get_or_def Let_def seq_demo_defs seq_demo_start_def
      frontier_default_def u64_max_def)

lemma seq_demo_next:
  assumes "a \<noteq> u64_max"
  shows "seq_step demo_engine False (seq_demo_run (seq_demo_tracker a b) d p q)
     (seq_demo_run (seq_demo_tracker (a + 1) b) d (p @ [(1, seq_demo_enc (a + 1) b, Some (a + 1))]) q)"
  unfolding seq_demo_run_def using assms by (intro seq_step.begin_next)
    (simp_all add: next_seq_begin_def frontier_of_def hm_get_or_def Let_def seq_demo_defs)

lemma seq_demo_ack:
  "seq_step demo_engine False (seq_demo_run (seq_demo_tracker 1 0) d p q)
     (seq_demo_run (seq_demo_tracker 1 1) d (p @ [(1, seq_demo_enc 1 1, None)]) q)"
  unfolding seq_demo_run_def by (intro seq_step.begin_ack [where a = 1])
    (simp_all add: record_ack_begin_def frontier_of_def hm_get_or_def Let_def seq_demo_defs)

lemma seq_demo_finish:
  assumes "d = [] \<or> d = seq_demo_row a' b'"
  shows "seq_step demo_engine serial (seq_demo_run t d (xs @ (1, seq_demo_enc a b, num) # ys) q)
     (seq_demo_run t (seq_demo_row a b) (xs @ ys) (case num of Some n \<Rightarrow> q @ [(1, n)] | None \<Rightarrow> q))"
  using seq_step.finish [OF seq_demo_put [OF assms, of a b], where t = t and xs = xs and num = num and ys = ys
      and sent = q and serial = serial]
  by (cases num) (simp_all add: seq_demo_run_def)

lemma seq_demo_crash:
  "seq_step demo_engine serial (seq_demo_run t (seq_demo_row a b) p q)
     (seq_demo_run (seq_demo_tracker a b) (seq_demo_row a b) [] q)"
  unfolding seq_demo_run_def by (rule seq_step.crash [OF _ seq_demo_scan])
    (unfold tracker_load_def seq_demo_scan, simp_all add: seq_demo_defs usize_max_def)

lemma seq_demo_first_sent:
  "(seq_step demo_engine serial)\<^sup>*\<^sup>* seq_demo_start
     (seq_demo_run (seq_demo_tracker 1 0) (seq_demo_row 1 0) [] [(1, 1)])"
proof -
  have "(seq_step demo_engine serial)\<^sup>*\<^sup>* seq_demo_start
      (seq_demo_run (seq_demo_tracker 1 0) [] [(1, seq_demo_enc 1 0, Some 1)] [])"
    using seq_demo_first by (rule r_into_rtranclp)
  also have "seq_step demo_engine serial \<dots> (seq_demo_run (seq_demo_tracker 1 0) (seq_demo_row 1 0) [] [(1, 1)])"
    using seq_demo_finish [of "[]" 0 0 serial _ "[]" 1 0 "Some 1" "[]" "[]"] by simp
  finally show ?thesis .
qed

text \<open>
  C12. Overlapping calls break it: an acknowledgement that took its snapshot before an
  assignment but writes after it overwrites the newer frontier in storage, and after a
  crash the same sequence number is handed out again.
\<close>

theorem stream_seq_race:
  "\<exists>g. (seq_step demo_engine False)\<^sup>*\<^sup>*
          \<lparr>sr_tracker = \<lparr>st_state = [], st_poisoned = False\<rparr>, sr_store = [], sr_pending = [], sr_sent = []\<rparr> g
     \<and> sr_sent g = [(1, 1), (1, 2), (1, 2)]"
proof -
  let ?R = "seq_step demo_engine False"
  let ?a = "(1, seq_demo_enc 1 1, None)"
  let ?n = "(1, seq_demo_enc 2 1, Some 2)"
  let ?s = "\<lambda>a b d p q. seq_demo_run (seq_demo_tracker a b) d p q"
  note seq_demo_first_sent [of False]
  also have "?R (?s 1 0 (seq_demo_row 1 0) [] [(1, 1)]) (?s 1 1 (seq_demo_row 1 0) [?a] [(1, 1)])"
    using seq_demo_ack [of _ "[]"] by simp
  also have "?R (?s 1 1 (seq_demo_row 1 0) [?a] [(1, 1)]) (?s 2 1 (seq_demo_row 1 0) [?a, ?n] [(1, 1)])"
    using seq_demo_next [of 1 1 _ "[?a]"] by (simp add: u64_max_def)
  also have "?R (?s 2 1 (seq_demo_row 1 0) [?a, ?n] [(1, 1)]) (?s 2 1 (seq_demo_row 2 1) [?a] [(1, 1), (1, 2)])"
    using seq_demo_finish [of _ 1 0 False _ "[?a]" 2 1 "Some 2" "[]" "[(1, 1)]"] by simp
  also have "?R (?s 2 1 (seq_demo_row 2 1) [?a] [(1, 1), (1, 2)]) (?s 2 1 (seq_demo_row 1 1) [] [(1, 1), (1, 2)])"
    using seq_demo_finish [of _ 2 1 False _ "[]" 1 1 None "[]" "[(1, 1), (1, 2)]"] by simp
  also have "?R (?s 2 1 (seq_demo_row 1 1) [] [(1, 1), (1, 2)]) (?s 1 1 (seq_demo_row 1 1) [] [(1, 1), (1, 2)])"
    by (rule seq_demo_crash)
  also have "?R (?s 1 1 (seq_demo_row 1 1) [] [(1, 1), (1, 2)]) (?s 2 1 (seq_demo_row 1 1) [?n] [(1, 1), (1, 2)])"
    using seq_demo_next [of 1 1 _ "[]"] by (simp add: u64_max_def)
  also have "?R (?s 2 1 (seq_demo_row 1 1) [?n] [(1, 1), (1, 2)])
      (?s 2 1 (seq_demo_row 2 1) [] [(1, 1), (1, 2), (1, 2)])"
    using seq_demo_finish [of _ 1 1 False _ "[]" 2 1 "Some 2" "[]" "[(1, 1), (1, 2)]"] by simp
  finally show ?thesis
    by (intro exI conjI) (auto simp: seq_demo_start_def seq_demo_run_def)
qed

subsection \<open>Witnesses\<close>

theorem stream_seq_never_reused_witness:
  "\<exists>g. (seq_step demo_engine True)\<^sup>*\<^sup>* seq_demo_start g \<and> sr_sent g = [(1, 1)] \<and>
       distinct (sr_sent g) \<and>
       list_all (\<lambda>(sid, n). n \<le> last_assigned (disk_frontier (pagedb_rows map_of demo_nsb (sr_store g)) sid)) (sr_sent g)"
proof -
  let ?g = "seq_demo_run (seq_demo_tracker 1 0) (seq_demo_row 1 0) [] [(1, 1)]"
  have rows: "seq_rows_ok (pagedb_rows map_of demo_nsb [])"
    by (simp add: seq_rows_ok_def pagedb_rows_def)
  have scan: "so_scan_range demo_engine [] Meta (str_bytes STREAM_SEQ_PREFIX) usize_max = Inr []"
    by (simp add: scan_range_rows_def mem_pagedb_def prefix_key_def ns_end_def mem_scan_def strip_rows_def)
  have load: "tracker_load demo_engine [] = Inr \<lparr>st_state = [], st_poisoned = False\<rparr>"
    unfolding tracker_load_def scan by simp
  have "0 < usize_max" by (simp add: usize_max_def)
  then show ?thesis
    using stream_seq_never_reused [OF mem_seq.seq_store_axioms _ rows load scan, of ?g]
      seq_demo_first_sent [of True]
    by (intro exI [of _ ?g]) (simp add: seq_demo_start_def seq_demo_run_def)
qed

theorem next_seq_persisted_witness:
  "\<exists>t' s'. next_seq demo_engine \<lparr>st_state = [], st_poisoned = False\<rparr> [] 1 = (Inr 1, t', s') \<and>
     disk_frontier (pagedb_rows map_of demo_nsb s') 1 = \<lparr>last_assigned = 1, last_acked = 0\<rparr>"
proof -
  let ?t = "\<lparr>st_state = [], st_poisoned = False\<rparr>"
  have "next_seq demo_engine ?t [] 1 = (Inr 1, seq_demo_tracker 1 0, seq_demo_row 1 0)"
    using seq_demo_put [of "[]" 0 0 1 0]
    by (simp add: next_seq_def next_seq_begin_def frontier_of_def hm_get_or_def Let_def seq_demo_defs
        frontier_default_def)
  from next_seq_persisted [OF mem_seq.seq_store_axioms _ this] this show ?thesis
    by (auto simp: frontier_of_def hm_get_or_def frontier_default_def)
qed

end
