(* ===== verification/Vector_Clock.thy ===== *)
theory Vector_Clock
  imports Lite_Prelude
begin

text \<open>
  The vector clock of the sync handshake (\<open>sync/clock.rs\<close>): per-peer counters, merge,
  dominance, difference and the wire form with hexadecimal peer ids. The merge laws are
  proved once in the locale \<open>counter_join\<close>, for any state whose join takes the maximum
  per key, and interpreted on the clock.
\<close>

subsection \<open>Operations\<close>

record vector_clock =
  vc_entries :: "(u64, u64) hmap"

definition vc_new :: vector_clock where
  "vc_new = \<lparr>vc_entries = []\<rparr>"

definition vc_set :: "u64 \<Rightarrow> u64 \<Rightarrow> vector_clock \<Rightarrow> vector_clock" where
  "vc_set peer_id counter c = c\<lparr>vc_entries := hm_insert peer_id counter (vc_entries c)\<rparr>"

definition vc_get :: "vector_clock \<Rightarrow> u64 \<Rightarrow> u64" where
  "vc_get c peer_id = hm_get_or 0 (vc_entries c) peer_id"

definition vc_advance :: "u64 \<Rightarrow> u64 \<Rightarrow> vector_clock \<Rightarrow> vector_clock" where
  "vc_advance peer_id counter c =
     (let entry = hm_get_or 0 (vc_entries c) peer_id
      in c\<lparr>vc_entries := hm_insert peer_id (if counter > entry then counter else entry) (vc_entries c)\<rparr>)"

definition vc_merge :: "vector_clock \<Rightarrow> vector_clock \<Rightarrow> vector_clock" where
  "vc_merge self other = foldl (\<lambda>c (peer, counter). vc_advance peer counter c) self (vc_entries other)"

definition vc_dominates :: "vector_clock \<Rightarrow> vector_clock \<Rightarrow> bool" where
  "vc_dominates self other \<longleftrightarrow> list_all (\<lambda>(peer, counter). vc_get self peer \<ge> counter) (vc_entries other)"

fun vc_diff_loop :: "vector_clock \<Rightarrow> (u64, u64) hmap \<Rightarrow> (u64 \<times> u64 \<times> u64) list" where
  "vc_diff_loop self [] = []"
| "vc_diff_loop self ((peer, remote_counter) # rest) =
     (let local_counter = vc_get self peer
      in if remote_counter > local_counter
         then (peer, remote_counter, local_counter) # vc_diff_loop self rest
         else vc_diff_loop self rest)"

definition vc_diff :: "vector_clock \<Rightarrow> vector_clock \<Rightarrow> (u64 \<times> u64 \<times> u64) list" where
  "vc_diff self remote = vc_diff_loop self (vc_entries remote)"

definition vc_to_wire :: "vector_clock \<Rightarrow> (string, u64) hmap" where
  "vc_to_wire c = hm_collect (map (\<lambda>(peer, counter). (fmt_016x peer, counter)) (vc_entries c))"

definition vc_from_wire :: "(string, u64) hmap \<Rightarrow> vector_clock" where
  "vc_from_wire wire =
     \<lparr>vc_entries = hm_collect (List.map_filter
        (\<lambda>(hex, counter). map_option (\<lambda>peer. (peer, counter)) (from_str_radix16 hex)) wire)\<rparr>"

definition vc_peer_count :: "vector_clock \<Rightarrow> usize" where
  "vc_peer_count c = length (vc_entries c)"

definition vc_peers :: "vector_clock \<Rightarrow> u64 list" where
  "vc_peers c = map fst (vc_entries c)"

definition vc_as_map :: "vector_clock \<Rightarrow> (u64, u64) hmap" where
  "vc_as_map c = vc_entries c"

subsection \<open>Joins that take the maximum per key\<close>

locale counter_join =
  fixes obs :: "'c \<Rightarrow> 'k \<Rightarrow> 'v::linorder"
    and join :: "'c \<Rightarrow> 'c \<Rightarrow> 'c"
    and valid :: "'c \<Rightarrow> bool"
  assumes obs_join: "valid b \<Longrightarrow> obs (join a b) k = max (obs a k) (obs b k)"
    and valid_join: "valid a \<Longrightarrow> valid (join a b)"
begin

lemma join_commute: "valid a \<Longrightarrow> valid b \<Longrightarrow> obs (join a b) = obs (join b a)"
  by (simp add: fun_eq_iff obs_join max.commute)

lemma join_assoc:
  "valid a \<Longrightarrow> valid b \<Longrightarrow> valid c \<Longrightarrow> obs (join (join a b) c) = obs (join a (join b c))"
  by (simp add: fun_eq_iff obs_join valid_join max.assoc)

lemma join_idem: "valid a \<Longrightarrow> obs (join a a) = obs a"
  by (simp add: fun_eq_iff obs_join)

lemma join_upper: "valid b \<Longrightarrow> obs a k \<le> obs (join a b) k" "valid b \<Longrightarrow> obs b k \<le> obs (join a b) k"
  by (simp_all add: obs_join)

lemma join_least:
  "valid b \<Longrightarrow> (\<And>k. obs a k \<le> obs c k) \<Longrightarrow> (\<And>k. obs b k \<le> obs c k) \<Longrightarrow> obs (join a b) k \<le> obs c k"
  by (simp add: obs_join)

end

abbreviation vc_ok :: "vector_clock \<Rightarrow> bool" where
  "vc_ok c \<equiv> hm_ok (vc_entries c)"

lemma vc_get_advance: "vc_get (vc_advance p n c) q = (if q = p then max n (vc_get c p) else vc_get c q)"
  by (auto simp: vc_get_def vc_advance_def hm_get_or_def Let_def max_def)

lemma vc_ok_advance: "vc_ok c \<Longrightarrow> vc_ok (vc_advance p n c)"
  by (simp add: vc_advance_def Let_def)

lemma vc_merge_get:
  assumes "distinct (map fst es)"
  shows "vc_get (foldl (\<lambda>c (peer, counter). vc_advance peer counter c) self es) k
       = max (vc_get self k) (hm_get_or 0 es k)"
  using assms
proof (induction es arbitrary: self)
  case Nil
  then show ?case by (simp add: hm_get_or_def)
next
  case (Cons e es)
  obtain p n where e: "e = (p, n)" by fastforce
  have "map_of es p = None"
    using Cons.prems by (simp add: e map_of_eq_None_iff)
  then show ?case
    using Cons by (auto simp: e vc_get_advance hm_get_or_def max.commute max.left_commute)
qed

lemma vc_merge_ok: "vc_ok self \<Longrightarrow> vc_ok (foldl (\<lambda>c (peer, counter). vc_advance peer counter c) self es)"
  by (induction es arbitrary: self) (auto simp: vc_ok_advance)

interpretation vc: counter_join vc_get vc_merge vc_ok
proof
  show "vc_get (vc_merge a b) k = max (vc_get a k) (vc_get b k)" if "vc_ok b" for a b k
    using vc_merge_get [OF that] by (simp add: vc_merge_def vc_get_def)
  show "vc_ok (vc_merge a b)" if "vc_ok a" for a b
    using vc_merge_ok [OF that] by (simp add: vc_merge_def)
qed

lemma vc_dominates_iff:
  assumes "vc_ok b"
  shows "vc_dominates a b \<longleftrightarrow> (\<forall>k. vc_get b k \<le> vc_get a k)"
proof
  assume d: "vc_dominates a b"
  show "\<forall>k. vc_get b k \<le> vc_get a k"
  proof
    fix k
    show "vc_get b k \<le> vc_get a k"
    proof (cases "map_of (vc_entries b) k")
      case (Some n)
      then have "(k, n) \<in> set (vc_entries b)"
        by (rule map_of_SomeD)
      then show ?thesis
        using d Some by (auto simp: vc_dominates_def list_all_iff vc_get_def [of b] hm_get_or_def)
    qed (simp add: vc_get_def [of b] hm_get_or_def)
  qed
next
  assume le: "\<forall>k. vc_get b k \<le> vc_get a k"
  have "n \<le> vc_get a p" if "(p, n) \<in> set (vc_entries b)" for p n
    using le [rule_format, of p] assms that by (simp add: vc_get_def [of b] hm_get_or_def)
  then show "vc_dominates a b"
    by (auto simp: vc_dominates_def list_all_iff)
qed

lemma vc_diff_set:
  "set (vc_diff self remote) =
   {(p, r, vc_get self p) | p r. (p, r) \<in> set (vc_entries remote) \<and> vc_get self p < r}"
proof -
  have "set (vc_diff_loop self es) = {(p, r, vc_get self p) | p r. (p, r) \<in> set es \<and> vc_get self p < r}" for es
    by (induction es) (auto simp: Let_def split: if_splits)
  then show ?thesis by (simp add: vc_diff_def)
qed

subsection \<open>Properties of the clock\<close>

text \<open>
  C9. Merging is the least upper bound in the dominance order: the merged clock dominates
  both, and any clock that dominates both dominates the merge. So merges commute,
  associate and repeat without effect, whatever order the hash maps iterate in.
\<close>

theorem vc_merge_lub:
  assumes "vc_ok a" "vc_ok b"
  shows "vc_dominates (vc_merge a b) a \<and> vc_dominates (vc_merge a b) b \<and>
         (vc_dominates c a \<and> vc_dominates c b \<longrightarrow> vc_dominates c (vc_merge a b)) \<and>
         vc_get (vc_merge a b) = vc_get (vc_merge b a) \<and> vc_get (vc_merge a a) = vc_get a"
  using assms vc.join_upper [OF assms(2), where a = a] vc.join_least [OF assms(2), where a = a and c = c]
    vc.join_commute [OF assms] vc.join_idem [OF assms(1)] vc.valid_join [OF assms(1), of b]
  by (simp add: vc_dominates_iff)

text \<open>
  C10. The wire form loses nothing: importing an exported clock gives the clock back,
  through the hexadecimal formatting and parsing of the peer ids.
\<close>

theorem vc_wire_roundtrip:
  assumes "vc_ok c"
  shows "vc_from_wire (vc_to_wire c) = c"
proof -
  let ?w = "\<lambda>es. map (\<lambda>(peer, counter). (fmt_016x peer, counter)) es"
  have "distinct (map fst (?w es))" if "distinct (map fst es)" for es :: "(u64 \<times> u64) list"
    using that by (induction es) (auto simp: image_iff)
  then have w: "vc_to_wire c = ?w (vc_entries c)"
    using assms by (simp add: vc_to_wire_def hm_collect_distinct)
  have "List.map_filter (\<lambda>(hex, counter). map_option (\<lambda>peer. (peer, counter)) (from_str_radix16 hex)) (?w es)
      = es" for es :: "(u64 \<times> u64) list"
    by (induction es) (auto simp: map_filter_simps)
  then show ?thesis
    using assms by (simp add: vc_from_wire_def w hm_collect_distinct)
qed

text \<open>A difference lists exactly the peers on which the remote clock is ahead, each with
  both counters, and it is empty exactly when the local clock dominates the remote one.
\<close>

theorem vc_diff_exact:
  assumes "vc_ok remote"
  shows "((p, r, l) \<in> set (vc_diff self remote) \<longleftrightarrow>
            p \<in> set (vc_peers remote) \<and> r = vc_get remote p \<and> l = vc_get self p \<and> l < r)
       \<and> (vc_diff self remote = [] \<longleftrightarrow> vc_dominates self remote)"
proof
  have "(p, r) \<in> set (vc_entries remote) \<longleftrightarrow> p \<in> set (vc_peers remote) \<and> r = vc_get remote p"
    using assms by (force simp: vc_peers_def vc_get_def hm_get_or_def)
  then show "(p, r, l) \<in> set (vc_diff self remote) \<longleftrightarrow>
            p \<in> set (vc_peers remote) \<and> r = vc_get remote p \<and> l = vc_get self p \<and> l < r"
    by (auto simp: vc_diff_set)
  have "vc_diff self remote = [] \<longleftrightarrow> set (vc_diff self remote) = {}"
    by simp
  then show "vc_diff self remote = [] \<longleftrightarrow> vc_dominates self remote"
    by (auto simp: vc_diff_set vc_dominates_def list_all_iff not_less)
qed

definition demo_clock :: vector_clock where
  "demo_clock = \<lparr>vc_entries = [(1, 5), (255, 7)]\<rparr>"

definition demo_clock2 :: vector_clock where
  "demo_clock2 = \<lparr>vc_entries = [(255, 9), (3, 1)]\<rparr>"

theorem vc_merge_lub_witness:
  "vc_dominates (vc_merge demo_clock demo_clock2) demo_clock \<and>
   vc_get (vc_merge demo_clock demo_clock2) = vc_get (vc_merge demo_clock2 demo_clock)"
  using vc_merge_lub [of demo_clock demo_clock2] by (simp add: demo_clock_def demo_clock2_def)

theorem vc_wire_roundtrip_witness: "vc_from_wire (vc_to_wire demo_clock) = demo_clock"
  using vc_wire_roundtrip [of demo_clock] by (simp add: demo_clock_def)

theorem vc_diff_exact_witness: "(255, 9, 7) \<in> set (vc_diff demo_clock demo_clock2)"
  using vc_diff_exact [of demo_clock2 255 9 7 demo_clock]
  by (simp add: demo_clock_def demo_clock2_def vc_peers_def vc_get_def hm_get_or_def)

end
