(* ===== verification/Flow_Control.thy ===== *)
theory Flow_Control
  imports Lite_Prelude Complex_Main
begin

text \<open>
  Flow control of the delta push pipeline (\<open>sync/flow_control.rs\<close>): the configuration, the
  metrics counters, the in-flight window and the additive-increase multiplicative-decrease
  batch size.

  The clock is an argument \<open>now\<close> of the operations that read it. \<open>f64\<close> values are
  rationals; the argument \<open>rnd\<close> is the rounding of IEEE arithmetic, applied after every
  operation. Atomic counters are words, so they wrap.
\<close>

subsection \<open>Configuration and metrics\<close>

record flow_control_config =
  max_in_flight :: usize
  min_batch_size :: usize
  max_batch_size :: usize
  initial_batch_size :: usize
  max_pending_count :: usize
  max_pending_bytes :: usize

definition FlowControlConfig_default :: flow_control_config where
  "FlowControlConfig_default =
     \<lparr>max_in_flight = 64, min_batch_size = 10, max_batch_size = 500, initial_batch_size = 50,
      max_pending_count = 10000, max_pending_bytes = 50 * 1024 * 1024\<rparr>"

record sync_metrics =
  m_deltas_pushed :: u64
  m_deltas_received :: u64
  m_deltas_rejected :: u64
  m_reconnect_count :: u64
  m_last_sync_ts :: u64
  m_checksum_failures :: u64
  m_conflicts_total :: u64
  m_conflicts_by_collection :: "(string, u64) hmap"
  m_conflicts_poisoned :: bool
  m_clock_skew_warnings :: u64
  m_stale_timeouts :: u64

definition SyncMetrics_new :: sync_metrics where
  "SyncMetrics_new =
     \<lparr>m_deltas_pushed = 0, m_deltas_received = 0, m_deltas_rejected = 0, m_reconnect_count = 0,
      m_last_sync_ts = 0, m_checksum_failures = 0, m_conflicts_total = 0,
      m_conflicts_by_collection = [], m_conflicts_poisoned = False, m_clock_skew_warnings = 0,
      m_stale_timeouts = 0\<rparr>"

definition record_stale_timeouts :: "u64 \<Rightarrow> sync_metrics \<Rightarrow> sync_metrics" where
  "record_stale_timeouts count m = m\<lparr>m_stale_timeouts := m_stale_timeouts m + count\<rparr>"

definition record_clock_skew_warning :: "sync_metrics \<Rightarrow> sync_metrics" where
  "record_clock_skew_warning m = m\<lparr>m_clock_skew_warnings := m_clock_skew_warnings m + 1\<rparr>"

definition metrics_record_push :: "u64 \<Rightarrow> u64 \<Rightarrow> sync_metrics \<Rightarrow> sync_metrics" where
  "metrics_record_push now_millis count m =
     m\<lparr>m_deltas_pushed := m_deltas_pushed m + count, m_last_sync_ts := now_millis\<rparr>"

definition record_received :: "u64 \<Rightarrow> sync_metrics \<Rightarrow> sync_metrics" where
  "record_received now_millis m =
     m\<lparr>m_deltas_received := m_deltas_received m + 1, m_last_sync_ts := now_millis\<rparr>"

definition metrics_record_reject :: "sync_metrics \<Rightarrow> sync_metrics" where
  "metrics_record_reject m = m\<lparr>m_deltas_rejected := m_deltas_rejected m + 1\<rparr>"

definition record_reconnect :: "sync_metrics \<Rightarrow> sync_metrics" where
  "record_reconnect m = m\<lparr>m_reconnect_count := m_reconnect_count m + 1\<rparr>"

definition record_checksum_failure :: "sync_metrics \<Rightarrow> sync_metrics" where
  "record_checksum_failure m = m\<lparr>m_checksum_failures := m_checksum_failures m + 1\<rparr>"

definition record_conflict :: "string \<Rightarrow> sync_metrics \<Rightarrow> sync_metrics" where
  "record_conflict collection m =
     (let m = m\<lparr>m_conflicts_total := m_conflicts_total m + 1\<rparr>;
          by_coll = m_conflicts_by_collection m
      in if m_conflicts_poisoned m then m
         else m\<lparr>m_conflicts_by_collection :=
                  hm_insert collection (hm_get_or 0 by_coll collection + 1) by_coll\<rparr>)"

definition conflicts_by_collection :: "sync_metrics \<Rightarrow> (string, u64) hmap" where
  "conflicts_by_collection m = (if m_conflicts_poisoned m then [] else m_conflicts_by_collection m)"

subsection \<open>The controller\<close>

record flow_controller =
  fc_config :: flow_control_config
  fc_in_flight :: "(u64, instant) hmap"
  fc_ema_rtt_ms :: rat
  fc_current_batch_size :: usize
  fc_consecutive_acks :: usize
  fc_pending_count :: usize
  fc_pending_bytes :: usize

definition FlowController_new :: "flow_control_config \<Rightarrow> flow_controller" where
  "FlowController_new config =
     \<lparr>fc_config = config, fc_in_flight = [], fc_ema_rtt_ms = 0,
      fc_current_batch_size = initial_batch_size config, fc_consecutive_acks = 0,
      fc_pending_count = 0, fc_pending_bytes = 0\<rparr>"

definition can_push :: "flow_controller \<Rightarrow> bool" where
  "can_push fc \<longleftrightarrow> length (fc_in_flight fc) < max_in_flight (fc_config fc)"

definition next_batch_size :: "flow_controller \<Rightarrow> usize" where
  "next_batch_size fc =
     (let window_remaining = max_in_flight (fc_config fc) - length (fc_in_flight fc)
      in min (fc_current_batch_size fc) window_remaining)"

definition fc_record_push :: "instant \<Rightarrow> u64 list \<Rightarrow> flow_controller \<Rightarrow> flow_controller" where
  "fc_record_push now mutation_ids fc =
     fc\<lparr>fc_in_flight := fold (\<lambda>mid m. hm_insert mid now m) mutation_ids (fc_in_flight fc)\<rparr>"

definition f64_as_u64 :: "rat \<Rightarrow> u64" where
  "f64_as_u64 x = (if x \<le> 0 then 0 else if 2 ^ 64 \<le> x then u64_max else word_of_int \<lfloor>x\<rfloor>)"

definition fc_record_ack ::
  "(rat \<Rightarrow> rat) \<Rightarrow> instant \<Rightarrow> u64 \<Rightarrow> flow_controller \<Rightarrow> u64 option \<times> flow_controller" where
  "fc_record_ack rnd now mutation_id fc =
     (case hm_get (fc_in_flight fc) mutation_id of
        None \<Rightarrow> (None, fc)
      | Some send_time \<Rightarrow>
          (let rtt_ms = rnd (of_nat (as_millis (now - send_time)));
               ema = (if fc_ema_rtt_ms fc = 0 then rtt_ms
                      else rnd (rnd ((7 / 8) * fc_ema_rtt_ms fc) + rnd ((1 / 8) * rtt_ms)));
               acks = fc_consecutive_acks fc + 1;
               fc' = fc\<lparr>fc_in_flight := hm_remove mutation_id (fc_in_flight fc), fc_ema_rtt_ms := ema\<rparr>
           in (Some (f64_as_u64 rtt_ms),
               if 8 \<le> acks
               then fc'\<lparr>fc_consecutive_acks := 0,
                        fc_current_batch_size :=
                          min (fc_current_batch_size fc + 1) (max_batch_size (fc_config fc))\<rparr>
               else fc'\<lparr>fc_consecutive_acks := acks\<rparr>)))"

definition fc_record_reject :: "u64 \<Rightarrow> flow_controller \<Rightarrow> flow_controller" where
  "fc_record_reject mutation_id fc =
     fc\<lparr>fc_in_flight := hm_remove mutation_id (fc_in_flight fc), fc_consecutive_acks := 0,
        fc_current_batch_size := max (fc_current_batch_size fc div 2) (min_batch_size (fc_config fc))\<rparr>"

definition update_pending :: "usize \<Rightarrow> usize \<Rightarrow> flow_controller \<Rightarrow> flow_controller" where
  "update_pending count byte_count fc = fc\<lparr>fc_pending_count := count, fc_pending_bytes := byte_count\<rparr>"

definition is_queue_full :: "flow_controller \<Rightarrow> bool" where
  "is_queue_full fc \<longleftrightarrow>
     max_pending_count (fc_config fc) \<le> fc_pending_count fc \<or>
     max_pending_bytes (fc_config fc) \<le> fc_pending_bytes fc"

definition in_flight_count :: "flow_controller \<Rightarrow> usize" where
  "in_flight_count fc = length (fc_in_flight fc)"

definition avg_rtt_ms :: "flow_controller \<Rightarrow> u64" where
  "avg_rtt_ms fc = f64_as_u64 (fc_ema_rtt_ms fc)"

text \<open>\<open>Instant::duration_since\<close> saturates at zero, as subtraction of naturals does.\<close>

definition cleanup_stale :: "instant \<Rightarrow> duration \<Rightarrow> flow_controller \<Rightarrow> usize \<times> flow_controller" where
  "cleanup_stale now timeout fc =
     (let before = length (fc_in_flight fc);
          kept = filter (\<lambda>(_, sent_at). now - sent_at < timeout) (fc_in_flight fc);
          cleaned = before - length kept;
          fc' = fc\<lparr>fc_in_flight := kept\<rparr>
      in (cleaned,
          if 0 < cleaned
          then fc'\<lparr>fc_consecutive_acks := 0,
                   fc_current_batch_size :=
                     max (fc_current_batch_size fc div 2) (min_batch_size (fc_config fc))\<rparr>
          else fc'))"

definition cleanup_stale_and_record ::
  "instant \<Rightarrow> duration \<Rightarrow> flow_controller \<times> sync_metrics \<Rightarrow> flow_controller \<times> sync_metrics" where
  "cleanup_stale_and_record now timeout = (\<lambda>(fc, metrics).
     (case cleanup_stale now timeout fc of
        (cleaned, fc') \<Rightarrow>
          (fc', if 0 < cleaned then record_stale_timeouts (of_nat cleaned) metrics else metrics)))"

record sync_metrics_snapshot =
  sn_state :: string
  sn_pending_count :: u64
  sn_pending_bytes :: u64
  sn_deltas_pushed :: u64
  sn_deltas_received :: u64
  sn_deltas_rejected :: u64
  sn_avg_rtt_ms :: u64
  sn_in_flight :: u64
  sn_reconnect_count :: u64
  sn_last_sync_ts :: u64
  sn_checksum_failures :: u64
  sn_current_batch_size :: u64
  sn_conflicts_total :: u64
  sn_stale_timeouts :: u64

definition fc_snapshot :: "string \<Rightarrow> sync_metrics \<Rightarrow> flow_controller \<Rightarrow> sync_metrics_snapshot" where
  "fc_snapshot state metrics fc =
     \<lparr>sn_state = state, sn_pending_count = of_nat (fc_pending_count fc),
      sn_pending_bytes = of_nat (fc_pending_bytes fc),
      sn_deltas_pushed = m_deltas_pushed metrics, sn_deltas_received = m_deltas_received metrics,
      sn_deltas_rejected = m_deltas_rejected metrics, sn_avg_rtt_ms = avg_rtt_ms fc,
      sn_in_flight = of_nat (length (fc_in_flight fc)), sn_reconnect_count = m_reconnect_count metrics,
      sn_last_sync_ts = m_last_sync_ts metrics, sn_checksum_failures = m_checksum_failures metrics,
      sn_current_batch_size = of_nat (fc_current_batch_size fc),
      sn_conflicts_total = m_conflicts_total metrics, sn_stale_timeouts = m_stale_timeouts metrics\<rparr>"

definition fc_reset :: "flow_controller \<Rightarrow> flow_controller" where
  "fc_reset fc = fc\<lparr>fc_in_flight := [], fc_consecutive_acks := 0\<rparr>"

subsection \<open>Runs of the controller\<close>

text \<open>One event per mutating method. A push is admitted when the caller sends no more
  than \<open>next_batch_size\<close>; \<open>flow_guarded\<close> checks that along a run.\<close>

datatype flow_event =
    EvPush instant "u64 list"
  | EvAck instant u64
  | EvReject u64
  | EvPending usize usize
  | EvCleanup instant duration
  | EvReset

fun flow_step :: "(rat \<Rightarrow> rat) \<Rightarrow> flow_event \<Rightarrow> flow_controller \<Rightarrow> flow_controller" where
  "flow_step rnd (EvPush now ids) fc = fc_record_push now ids fc"
| "flow_step rnd (EvAck now mid) fc = snd (fc_record_ack rnd now mid fc)"
| "flow_step rnd (EvReject mid) fc = fc_record_reject mid fc"
| "flow_step rnd (EvPending c b) fc = update_pending c b fc"
| "flow_step rnd (EvCleanup now timeout) fc = snd (cleanup_stale now timeout fc)"
| "flow_step rnd EvReset fc = fc_reset fc"

fun flow_guarded :: "(rat \<Rightarrow> rat) \<Rightarrow> flow_event list \<Rightarrow> flow_controller \<Rightarrow> bool" where
  "flow_guarded rnd [] fc = True"
| "flow_guarded rnd (e # es) fc =
     ((case e of EvPush _ ids \<Rightarrow> length ids \<le> next_batch_size fc | _ \<Rightarrow> True) \<and>
      flow_guarded rnd es (flow_step rnd e fc))"

definition config_ok :: "flow_control_config \<Rightarrow> bool" where
  "config_ok c \<longleftrightarrow> min_batch_size c \<le> initial_batch_size c \<and> initial_batch_size c \<le> max_batch_size c"

definition flow_inv :: "flow_controller \<Rightarrow> bool" where
  "flow_inv fc \<longleftrightarrow>
     min_batch_size (fc_config fc) \<le> fc_current_batch_size fc \<and>
     fc_current_batch_size fc \<le> max_batch_size (fc_config fc) \<and>
     fc_consecutive_acks fc < 8 \<and> hm_ok (fc_in_flight fc)"

lemmas flow_defs = fc_record_push_def fc_record_ack_def fc_record_reject_def update_pending_def
  cleanup_stale_def fc_reset_def Let_def

lemma hm_ok_fold_insert: "hm_ok m \<Longrightarrow> hm_ok (fold (\<lambda>mid m. hm_insert mid now m) ids m)"
  by (induction ids arbitrary: m) auto

lemma length_fold_insert:
  "length (fold (\<lambda>mid m. hm_insert mid now m) ids m) \<le> length m + length ids"
proof (induction ids arbitrary: m)
  case (Cons i ids)
  from Cons [of "hm_insert i now m"] show ?case
    by (simp add: length_hm_insert split: if_splits)
qed simp

lemma flow_step_config [simp]: "fc_config (flow_step rnd e fc) = fc_config fc"
  by (cases e) (auto simp: flow_defs split: option.splits)

lemma flow_step_inv: "flow_inv fc \<Longrightarrow> flow_inv (flow_step rnd e fc)"
  by (cases e) (auto simp: flow_inv_def flow_defs hm_ok_fold_insert distinct_map_filter split: option.splits)

lemma flow_run_config [simp]: "fc_config (fold (flow_step rnd) es fc) = fc_config fc"
  by (induction es arbitrary: fc) auto

lemma flow_run_inv: "flow_inv fc \<Longrightarrow> flow_inv (fold (flow_step rnd) es fc)"
  by (induction es arbitrary: fc) (auto intro: flow_step_inv)

lemma flow_step_window:
  assumes "in_flight_count fc \<le> max_in_flight (fc_config fc)"
    and "case e of EvPush _ ids \<Rightarrow> length ids \<le> next_batch_size fc | _ \<Rightarrow> True"
  shows "in_flight_count (flow_step rnd e fc) \<le> max_in_flight (fc_config fc)"
proof (cases e)
  case (EvPush now ids)
  then show ?thesis
    using assms length_fold_insert [of now ids "fc_in_flight fc"]
    by (simp add: in_flight_count_def fc_record_push_def next_batch_size_def Let_def) linarith
next
  case (EvAck now mid)
  then show ?thesis
    using assms length_hm_remove_le [of mid "fc_in_flight fc"]
    by (auto simp: in_flight_count_def fc_record_ack_def Let_def split: option.splits)
next
  case (EvReject mid)
  then show ?thesis
    using assms length_hm_remove_le [of mid "fc_in_flight fc"]
    by (auto simp: in_flight_count_def fc_record_reject_def)
next
  case (EvCleanup now timeout)
  have "length (filter (\<lambda>(_, sent_at). now - sent_at < timeout) (fc_in_flight fc)) \<le> max_in_flight (fc_config fc)"
    using assms(1) unfolding in_flight_count_def by (rule le_trans [OF length_filter_le])
  then show ?thesis
    using EvCleanup by (auto simp: in_flight_count_def cleanup_stale_def Let_def)
qed (use assms in \<open>auto simp: in_flight_count_def update_pending_def fc_reset_def\<close>)

subsection \<open>Properties of flow control\<close>


text \<open>
  C16. The in-flight window holds: a client that never pushes more than
  \<open>next_batch_size\<close> at once never has more than \<open>max_in_flight\<close> unacknowledged deltas,
  whatever else happens in between.
\<close>

theorem flow_window_respected:
  assumes "flow_guarded rnd es (FlowController_new config)"
  shows "in_flight_count (fold (flow_step rnd) es (FlowController_new config)) \<le> max_in_flight config"
proof -
  have "in_flight_count (fold (flow_step rnd) es fc) \<le> max_in_flight (fc_config fc)"
    if "flow_guarded rnd es fc" "in_flight_count fc \<le> max_in_flight (fc_config fc)" for fc
    using that
  proof (induction es arbitrary: fc)
    case (Cons e es)
    then show ?case
      using flow_step_window [of fc e rnd] Cons.IH [of "flow_step rnd e fc"] by simp
  qed simp
  from this [OF assms] show ?thesis
    by (simp add: in_flight_count_def FlowController_new_def)
qed

text \<open>
  C18. Lost acknowledgements cannot stop the pipeline: however full the window is, a
  cleanup that comes at least one timeout after the last push empties it, so the next
  batch is the whole current batch or the whole window; it counts every entry it evicts
  and halves the batch size, down to the floor.
\<close>

theorem flow_cleanup_reopens:
  assumes "\<And>mid sent. (mid, sent) \<in> set (fc_in_flight fc) \<Longrightarrow> sent + timeout \<le> now"
    and "cleanup_stale now timeout fc = (n, fc')"
    and "0 < max_in_flight (fc_config fc)" "0 < min_batch_size (fc_config fc)" "0 < fc_current_batch_size fc"
  shows "n = in_flight_count fc \<and> in_flight_count fc' = 0 \<and> can_push fc' \<and> 0 < next_batch_size fc' \<and>
         (0 < n \<longrightarrow> fc_current_batch_size fc' = max (fc_current_batch_size fc div 2) (min_batch_size (fc_config fc)))"
proof -
  have "filter (\<lambda>(_, sent_at). now - sent_at < timeout) (fc_in_flight fc) = []"
    using assms(1) by (fastforce simp: filter_empty_conv)
  then show ?thesis
    using assms(2-) by (auto simp: cleanup_stale_def Let_def in_flight_count_def can_push_def next_batch_size_def)
qed

subsection \<open>Witnesses\<close>

definition demo_flow_events :: "flow_event list" where
  "demo_flow_events = [EvPush 0 [1, 2, 3], EvAck 2000000 1, EvReject 2, EvCleanup 9000000000 5000000000]"


theorem flow_window_respected_witness:
  "in_flight_count (fold (flow_step id) demo_flow_events (FlowController_new FlowControlConfig_default)) \<le> 64"
proof -
  have "flow_guarded id demo_flow_events (FlowController_new FlowControlConfig_default)"
    by (simp add: demo_flow_events_def next_batch_size_def FlowController_new_def FlowControlConfig_default_def)
  from flow_window_respected [OF this] show ?thesis
    by (simp add: FlowControlConfig_default_def)
qed

theorem flow_cleanup_reopens_witness:
  "\<exists>fc'. cleanup_stale 10 5 (fc_record_push 0 [1, 2] (FlowController_new FlowControlConfig_default)) = (2, fc') \<and>
         can_push fc' \<and> fc_current_batch_size fc' = 25"
proof -
  let ?fc = "fc_record_push 0 [1, 2] (FlowController_new FlowControlConfig_default)"
  obtain n fc' where c: "cleanup_stale 10 5 ?fc = (n, fc')"
    by fastforce
  have s: "sent + 5 \<le> 10" if "(mid, sent) \<in> set (fc_in_flight ?fc)" for mid sent
    using that by (auto simp: fc_record_push_def FlowController_new_def)
  have "n = 2 \<and> can_push fc' \<and> fc_current_batch_size fc' = 25"
    using flow_cleanup_reopens [OF s c]
    by (simp add: fc_record_push_def FlowController_new_def FlowControlConfig_default_def in_flight_count_def)
  then show ?thesis using c by blast
qed

end
