(* ===== verification/Engine_Queues.thy ===== *)
theory Engine_Queues
  imports Outbound_Queue
begin

text \<open>
  The per-engine outbound queues over the durable queue: columnar (\<open>outbound/columnar.rs\<close>),
  vector (\<open>outbound/vector.rs\<close>), timeseries (\<open>outbound/timeseries.rs\<close>) and KV
  (\<open>outbound/kv.rs\<close>).

  Entries are stored as MessagePack through the external \<open>zerompk\<close> crate: its encoder and
  decoder are a \<open>codec\<close> argument, and \<open>codec_law\<close> is the round trip the code relies on.
  Cell values, embeddings and geometries are type variables. The encode, drain and update
  bodies that the engines share are the \<open>eq_\<close> operations.
\<close>

subsection \<open>Codecs and the shared bodies\<close>

record 'a codec =
  cd_enc :: "'a \<Rightarrow> bytes option"
  cd_dec :: "bytes \<Rightarrow> 'a option"

definition codec_law :: "'a codec \<Rightarrow> bool" where
  "codec_law cd \<longleftrightarrow> (\<forall>x b. cd_enc cd x = Some b \<longrightarrow> cd_dec cd b = Some x)"

definition eq_enqueue ::
  "'s storage_ops \<Rightarrow> 'a codec \<Rightarrow> durable_queue \<Rightarrow> 's \<Rightarrow> 'a \<Rightarrow> unit lite_result \<times> durable_queue \<times> 's" where
  "eq_enqueue so cd q s entry =
     (case cd_enc cd entry of
        None \<Rightarrow> (Inl Serialization, q, s)
      | Some payload \<Rightarrow> dq_enqueue so q s payload)"

fun drain_loop :: "(bytes \<Rightarrow> bool) \<Rightarrow> 'a codec \<Rightarrow> kv_pair list \<Rightarrow> (bytes \<times> 'a) list lite_result" where
  "drain_loop skip cd [] = Inr []"
| "drain_loop skip cd ((key, payload) # pairs) =
     (if skip key then drain_loop skip cd pairs
      else case cd_dec cd payload of
             None \<Rightarrow> Inl Serialization
           | Some entry \<Rightarrow> rbind (drain_loop skip cd pairs) (\<lambda>out. Inr ((key, entry) # out)))"

definition eq_drain ::
  "'s storage_ops \<Rightarrow> 'a codec \<Rightarrow> (bytes \<Rightarrow> bool) \<Rightarrow> durable_queue \<Rightarrow> 's \<Rightarrow> usize \<Rightarrow> (bytes \<times> 'a) list lite_result" where
  "eq_drain so cd skip q s limit = rbind (dq_drain_batch so q s limit) (drain_loop skip cd)"

definition eq_update ::
  "'s storage_ops \<Rightarrow> 'a codec \<Rightarrow> durable_queue \<Rightarrow> 's \<Rightarrow> bytes \<Rightarrow> 'a \<Rightarrow> unit lite_result \<times> 's" where
  "eq_update so cd q s key entry =
     (case cd_enc cd entry of
        None \<Rightarrow> (Inl Serialization, s)
      | Some payload \<Rightarrow> dq_update_entry so q s key payload)"

text \<open>\<open>in_flight.values().any(|k| k == &key)\<close>.\<close>

definition in_flight_key :: "(u64, bytes) hmap \<Rightarrow> bytes \<Rightarrow> bool" where
  "in_flight_key m key = list_ex (\<lambda>kv. snd kv = key) m"

subsection \<open>Columnar\<close>

record 'v pending_columnar_batch =
  pc_batch_id :: u64
  pc_collection :: string
  pc_rows :: "'v list list"
  pc_schema_bytes :: bytes
  pc_seq :: u64

record columnar_outbound =
  co_queue :: durable_queue
  co_ids :: u64
  co_in_flight :: "(u64, bytes) hmap"

definition columnar_open_with_cap :: "'s storage_ops \<Rightarrow> 's \<Rightarrow> usize \<Rightarrow> columnar_outbound lite_result" where
  "columnar_open_with_cap so s cap =
     rbind (dq_open_with_cap so s ColumnarPending cap) (\<lambda>queue.
       Inr \<lparr>co_queue = queue, co_ids = 1, co_in_flight = []\<rparr>)"

definition columnar_open :: "'s storage_ops \<Rightarrow> 's \<Rightarrow> columnar_outbound lite_result" where
  "columnar_open so s = columnar_open_with_cap so s DEFAULT_CAP"

definition columnar_enqueue_row ::
  "'s storage_ops \<Rightarrow> 'v pending_columnar_batch codec \<Rightarrow> string \<Rightarrow> 'v list \<Rightarrow> bytes \<Rightarrow>
   columnar_outbound \<times> 's \<Rightarrow> unit lite_result \<times> columnar_outbound \<times> 's" where
  "columnar_enqueue_row so cd collection row schema_bytes = (\<lambda>(c, s).
     let batch_id = co_ids c;
         c = c\<lparr>co_ids := co_ids c + 1\<rparr>;
         batch = \<lparr>pc_batch_id = batch_id, pc_collection = collection, pc_rows = [row],
                  pc_schema_bytes = schema_bytes, pc_seq = 0\<rparr>
     in case eq_enqueue so cd (co_queue c) s batch of
          (r, q, s') \<Rightarrow> (r, c\<lparr>co_queue := q\<rparr>, s'))"

definition columnar_drain_batch ::
  "'s storage_ops \<Rightarrow> 'v pending_columnar_batch codec \<Rightarrow> columnar_outbound \<Rightarrow> 's \<Rightarrow> usize \<Rightarrow>
   (bytes \<times> 'v pending_columnar_batch) list lite_result" where
  "columnar_drain_batch so cd c s limit =
     eq_drain so cd (in_flight_key (co_in_flight c)) (co_queue c) s limit"

definition columnar_mark_in_flight :: "u64 \<Rightarrow> bytes \<Rightarrow> columnar_outbound \<Rightarrow> columnar_outbound" where
  "columnar_mark_in_flight batch_id durable_key c =
     c\<lparr>co_in_flight := hm_insert batch_id durable_key (co_in_flight c)\<rparr>"

definition columnar_ack_in_flight :: "u64 \<Rightarrow> columnar_outbound \<Rightarrow> bytes option \<times> columnar_outbound" where
  "columnar_ack_in_flight batch_id c =
     (hm_get (co_in_flight c) batch_id, c\<lparr>co_in_flight := hm_remove batch_id (co_in_flight c)\<rparr>)"

definition columnar_clear_in_flight :: "columnar_outbound \<Rightarrow> columnar_outbound" where
  "columnar_clear_in_flight c = c\<lparr>co_in_flight := []\<rparr>"

definition columnar_ack_keys ::
  "'s storage_ops \<Rightarrow> columnar_outbound \<Rightarrow> 's \<Rightarrow> bytes list \<Rightarrow> unit lite_result \<times> 's" where
  "columnar_ack_keys so c s keys = dq_ack_keys so (co_queue c) s keys"

definition columnar_update_entry ::
  "'s storage_ops \<Rightarrow> 'v pending_columnar_batch codec \<Rightarrow> columnar_outbound \<Rightarrow> 's \<Rightarrow> bytes \<Rightarrow>
   'v pending_columnar_batch \<Rightarrow> unit lite_result \<times> 's" where
  "columnar_update_entry so cd c s key batch = eq_update so cd (co_queue c) s key batch"

definition columnar_len :: "'s storage_ops \<Rightarrow> columnar_outbound \<Rightarrow> 's \<Rightarrow> u64 lite_result" where
  "columnar_len so c s = dq_len so (co_queue c) s"

definition columnar_is_empty :: "'s storage_ops \<Rightarrow> columnar_outbound \<Rightarrow> 's \<Rightarrow> bool lite_result" where
  "columnar_is_empty so c s = dq_is_empty so (co_queue c) s"

subsection \<open>Vector\<close>

record 'f pending_vector_insert =
  vi_batch_id :: u64
  vi_collection :: string
  vi_id :: string
  vi_vector :: "'f list"
  vi_dim :: usize
  vi_field_name :: string
  vi_seq :: u64

record pending_vector_delete =
  vd_batch_id :: u64
  vd_collection :: string
  vd_id :: string
  vd_field_name :: string
  vd_seq :: u64

record vector_outbound =
  vo_inserts :: durable_queue
  vo_deletes :: durable_queue
  vo_ids :: u64
  vo_in_flight_inserts :: "(u64, bytes) hmap"
  vo_in_flight_deletes :: "(u64, bytes) hmap"

definition vector_open_with_cap :: "'s storage_ops \<Rightarrow> 's \<Rightarrow> usize \<Rightarrow> vector_outbound lite_result" where
  "vector_open_with_cap so s cap =
     rbind (dq_open_with_cap so s VectorInsertPending cap) (\<lambda>inserts.
     rbind (dq_open_with_cap so s VectorDeletePending cap) (\<lambda>deletes.
       Inr \<lparr>vo_inserts = inserts, vo_deletes = deletes, vo_ids = 1,
            vo_in_flight_inserts = [], vo_in_flight_deletes = []\<rparr>))"

definition vector_open :: "'s storage_ops \<Rightarrow> 's \<Rightarrow> vector_outbound lite_result" where
  "vector_open so s = vector_open_with_cap so s DEFAULT_CAP"

definition vector_enqueue_insert ::
  "'s storage_ops \<Rightarrow> 'f pending_vector_insert codec \<Rightarrow> string \<Rightarrow> string \<Rightarrow> 'f list \<Rightarrow> usize \<Rightarrow> string \<Rightarrow>
   vector_outbound \<times> 's \<Rightarrow> unit lite_result \<times> vector_outbound \<times> 's" where
  "vector_enqueue_insert so cd collection id_str vec dim field_name = (\<lambda>(v, s).
     let batch_id = vo_ids v;
         v = v\<lparr>vo_ids := vo_ids v + 1\<rparr>;
         entry = \<lparr>vi_batch_id = batch_id, vi_collection = collection, vi_id = id_str, vi_vector = vec,
                  vi_dim = dim, vi_field_name = field_name, vi_seq = 0\<rparr>
     in case eq_enqueue so cd (vo_inserts v) s entry of
          (r, q, s') \<Rightarrow> (r, v\<lparr>vo_inserts := q\<rparr>, s'))"

definition vector_enqueue_delete ::
  "'s storage_ops \<Rightarrow> pending_vector_delete codec \<Rightarrow> string \<Rightarrow> string \<Rightarrow> string \<Rightarrow>
   vector_outbound \<times> 's \<Rightarrow> unit lite_result \<times> vector_outbound \<times> 's" where
  "vector_enqueue_delete so cd collection id_str field_name = (\<lambda>(v, s).
     let batch_id = vo_ids v;
         v = v\<lparr>vo_ids := vo_ids v + 1\<rparr>;
         entry = \<lparr>vd_batch_id = batch_id, vd_collection = collection, vd_id = id_str,
                  vd_field_name = field_name, vd_seq = 0\<rparr>
     in case eq_enqueue so cd (vo_deletes v) s entry of
          (r, q, s') \<Rightarrow> (r, v\<lparr>vo_deletes := q\<rparr>, s'))"

definition vector_drain_inserts ::
  "'s storage_ops \<Rightarrow> 'f pending_vector_insert codec \<Rightarrow> vector_outbound \<Rightarrow> 's \<Rightarrow> usize \<Rightarrow>
   (bytes \<times> 'f pending_vector_insert) list lite_result" where
  "vector_drain_inserts so cd v s limit =
     eq_drain so cd (in_flight_key (vo_in_flight_inserts v)) (vo_inserts v) s limit"

definition vector_drain_deletes ::
  "'s storage_ops \<Rightarrow> pending_vector_delete codec \<Rightarrow> vector_outbound \<Rightarrow> 's \<Rightarrow> usize \<Rightarrow>
   (bytes \<times> pending_vector_delete) list lite_result" where
  "vector_drain_deletes so cd v s limit =
     eq_drain so cd (in_flight_key (vo_in_flight_deletes v)) (vo_deletes v) s limit"

definition vector_mark_insert_in_flight :: "u64 \<Rightarrow> bytes \<Rightarrow> vector_outbound \<Rightarrow> vector_outbound" where
  "vector_mark_insert_in_flight batch_id durable_key v =
     v\<lparr>vo_in_flight_inserts := hm_insert batch_id durable_key (vo_in_flight_inserts v)\<rparr>"

definition vector_ack_insert_in_flight :: "u64 \<Rightarrow> vector_outbound \<Rightarrow> bytes option \<times> vector_outbound" where
  "vector_ack_insert_in_flight batch_id v =
     (hm_get (vo_in_flight_inserts v) batch_id,
      v\<lparr>vo_in_flight_inserts := hm_remove batch_id (vo_in_flight_inserts v)\<rparr>)"

definition vector_mark_delete_in_flight :: "u64 \<Rightarrow> bytes \<Rightarrow> vector_outbound \<Rightarrow> vector_outbound" where
  "vector_mark_delete_in_flight batch_id durable_key v =
     v\<lparr>vo_in_flight_deletes := hm_insert batch_id durable_key (vo_in_flight_deletes v)\<rparr>"

definition vector_ack_delete_in_flight :: "u64 \<Rightarrow> vector_outbound \<Rightarrow> bytes option \<times> vector_outbound" where
  "vector_ack_delete_in_flight batch_id v =
     (hm_get (vo_in_flight_deletes v) batch_id,
      v\<lparr>vo_in_flight_deletes := hm_remove batch_id (vo_in_flight_deletes v)\<rparr>)"

definition vector_clear_in_flight :: "vector_outbound \<Rightarrow> vector_outbound" where
  "vector_clear_in_flight v = v\<lparr>vo_in_flight_inserts := [], vo_in_flight_deletes := []\<rparr>"

definition vector_ack_insert_keys ::
  "'s storage_ops \<Rightarrow> vector_outbound \<Rightarrow> 's \<Rightarrow> bytes list \<Rightarrow> unit lite_result \<times> 's" where
  "vector_ack_insert_keys so v s keys = dq_ack_keys so (vo_inserts v) s keys"

definition vector_ack_delete_keys ::
  "'s storage_ops \<Rightarrow> vector_outbound \<Rightarrow> 's \<Rightarrow> bytes list \<Rightarrow> unit lite_result \<times> 's" where
  "vector_ack_delete_keys so v s keys = dq_ack_keys so (vo_deletes v) s keys"

definition vector_update_insert_entry ::
  "'s storage_ops \<Rightarrow> 'f pending_vector_insert codec \<Rightarrow> vector_outbound \<Rightarrow> 's \<Rightarrow> bytes \<Rightarrow>
   'f pending_vector_insert \<Rightarrow> unit lite_result \<times> 's" where
  "vector_update_insert_entry so cd v s key entry = eq_update so cd (vo_inserts v) s key entry"

definition vector_update_delete_entry ::
  "'s storage_ops \<Rightarrow> pending_vector_delete codec \<Rightarrow> vector_outbound \<Rightarrow> 's \<Rightarrow> bytes \<Rightarrow>
   pending_vector_delete \<Rightarrow> unit lite_result \<times> 's" where
  "vector_update_delete_entry so cd v s key entry = eq_update so cd (vo_deletes v) s key entry"

definition vector_pending_insert_count :: "'s storage_ops \<Rightarrow> vector_outbound \<Rightarrow> 's \<Rightarrow> u64 lite_result" where
  "vector_pending_insert_count so v s = dq_len so (vo_inserts v) s"

definition vector_pending_delete_count :: "'s storage_ops \<Rightarrow> vector_outbound \<Rightarrow> 's \<Rightarrow> u64 lite_result" where
  "vector_pending_delete_count so v s = dq_len so (vo_deletes v) s"

subsection \<open>Timeseries\<close>

record 'v pending_timeseries_batch =
  pt_batch_id :: u64
  pt_collection :: string
  pt_column_names :: "string list"
  pt_rows :: "'v list list"
  pt_seq :: u64

record in_flight_batch =
  ib_batch_id :: u64
  ib_durable_key :: bytes

record timeseries_outbound =
  to_queue :: durable_queue
  to_ids :: u64
  to_in_flight :: "(u64, in_flight_batch) hmap"

definition timeseries_open_with_cap :: "'s storage_ops \<Rightarrow> 's \<Rightarrow> usize \<Rightarrow> timeseries_outbound lite_result" where
  "timeseries_open_with_cap so s cap =
     rbind (dq_open_with_cap so s TimeseriesPending cap) (\<lambda>queue.
       Inr \<lparr>to_queue = queue, to_ids = 1, to_in_flight = []\<rparr>)"

definition timeseries_open :: "'s storage_ops \<Rightarrow> 's \<Rightarrow> timeseries_outbound lite_result" where
  "timeseries_open so s = timeseries_open_with_cap so s DEFAULT_CAP"

definition timeseries_enqueue_row ::
  "'s storage_ops \<Rightarrow> 'v pending_timeseries_batch codec \<Rightarrow> string \<Rightarrow> string list \<Rightarrow> 'v list \<Rightarrow>
   timeseries_outbound \<times> 's \<Rightarrow> unit lite_result \<times> timeseries_outbound \<times> 's" where
  "timeseries_enqueue_row so cd collection column_names row = (\<lambda>(t, s).
     let batch_id = to_ids t;
         t = t\<lparr>to_ids := to_ids t + 1\<rparr>;
         batch = \<lparr>pt_batch_id = batch_id, pt_collection = collection, pt_column_names = column_names,
                  pt_rows = [row], pt_seq = 0\<rparr>
     in case eq_enqueue so cd (to_queue t) s batch of
          (r, q, s') \<Rightarrow> (r, t\<lparr>to_queue := q\<rparr>, s'))"

definition timeseries_drain_batch ::
  "'s storage_ops \<Rightarrow> 'v pending_timeseries_batch codec \<Rightarrow> timeseries_outbound \<Rightarrow> 's \<Rightarrow> usize \<Rightarrow>
   (bytes \<times> 'v pending_timeseries_batch) list lite_result" where
  "timeseries_drain_batch so cd t s limit =
     eq_drain so cd (\<lambda>key. list_ex (\<lambda>kv. ib_durable_key (snd kv) = key) (to_in_flight t)) (to_queue t) s limit"

definition mark_in_flight_by_seq :: "u64 \<Rightarrow> u64 \<Rightarrow> bytes \<Rightarrow> timeseries_outbound \<Rightarrow> timeseries_outbound" where
  "mark_in_flight_by_seq stream_seq batch_id durable_key t =
     t\<lparr>to_in_flight :=
         hm_insert stream_seq \<lparr>ib_batch_id = batch_id, ib_durable_key = durable_key\<rparr> (to_in_flight t)\<rparr>"

text \<open>The sequence numbers to acknowledge are collected first, then each is removed.\<close>

fun remove_seqs ::
  "u64 list \<Rightarrow> (u64, in_flight_batch) hmap \<Rightarrow> bytes list \<times> (u64, in_flight_batch) hmap" where
  "remove_seqs [] m = ([], m)"
| "remove_seqs (seq # seqs) m =
     (case hm_get m seq of
        None \<Rightarrow> remove_seqs seqs (hm_remove seq m)
      | Some f \<Rightarrow> (case remove_seqs seqs (hm_remove seq m) of
                    (keys, m') \<Rightarrow> (ib_durable_key f # keys, m')))"

definition ack_in_flight_through_seq :: "u64 \<Rightarrow> timeseries_outbound \<Rightarrow> bytes list \<times> timeseries_outbound" where
  "ack_in_flight_through_seq applied_seq t =
     (let to_ack = filter (\<lambda>seq. seq \<le> applied_seq) (map fst (to_in_flight t))
      in case remove_seqs to_ack (to_in_flight t) of
           (keys, m) \<Rightarrow> (keys, t\<lparr>to_in_flight := m\<rparr>))"

definition ack_in_flight_by_batch_id :: "u64 \<Rightarrow> timeseries_outbound \<Rightarrow> bytes option \<times> timeseries_outbound" where
  "ack_in_flight_by_batch_id batch_id t =
     (case find (\<lambda>(_, f). ib_batch_id f = batch_id) (to_in_flight t) of
        None \<Rightarrow> (None, t)
      | Some (seq, _) \<Rightarrow>
          (map_option ib_durable_key (hm_get (to_in_flight t) seq),
           t\<lparr>to_in_flight := hm_remove seq (to_in_flight t)\<rparr>))"

definition timeseries_clear_in_flight :: "timeseries_outbound \<Rightarrow> timeseries_outbound" where
  "timeseries_clear_in_flight t = t\<lparr>to_in_flight := []\<rparr>"

definition timeseries_ack_keys ::
  "'s storage_ops \<Rightarrow> timeseries_outbound \<Rightarrow> 's \<Rightarrow> bytes list \<Rightarrow> unit lite_result \<times> 's" where
  "timeseries_ack_keys so t s keys = dq_ack_keys so (to_queue t) s keys"

definition timeseries_update_entry ::
  "'s storage_ops \<Rightarrow> 'v pending_timeseries_batch codec \<Rightarrow> timeseries_outbound \<Rightarrow> 's \<Rightarrow> bytes \<Rightarrow>
   'v pending_timeseries_batch \<Rightarrow> unit lite_result \<times> 's" where
  "timeseries_update_entry so cd t s key batch = eq_update so cd (to_queue t) s key batch"

definition timeseries_len :: "'s storage_ops \<Rightarrow> timeseries_outbound \<Rightarrow> 's \<Rightarrow> u64 lite_result" where
  "timeseries_len so t s = dq_len so (to_queue t) s"

definition timeseries_is_empty :: "'s storage_ops \<Rightarrow> timeseries_outbound \<Rightarrow> 's \<Rightarrow> bool lite_result" where
  "timeseries_is_empty so t s = dq_is_empty so (to_queue t) s"

subsection \<open>KV\<close>

datatype pending_kv_op = KvPut bytes u64 | KvDelete

datatype kv_push_op = WirePut bytes u64 | WireDelete

fun kv_to_wire :: "pending_kv_op \<Rightarrow> kv_push_op" where
  "kv_to_wire (KvPut row expire_at_ms) = WirePut row expire_at_ms"
| "kv_to_wire KvDelete = WireDelete"

record pending_kv_write =
  kw_collection :: string
  kw_key :: bytes
  kw_op :: pending_kv_op
  kw_seq :: u64

definition PendingKvWrite_new :: "string \<Rightarrow> bytes \<Rightarrow> pending_kv_op \<Rightarrow> pending_kv_write" where
  "PendingKvWrite_new collection key kv_op =
     \<lparr>kw_collection = collection, kw_key = key, kw_op = kv_op, kw_seq = 0\<rparr>"

record kv_outbound =
  ko_durable :: durable_queue
  ko_in_flight :: "u64 list"

definition kv_batch_id :: "bytes \<Rightarrow> u64 lite_result" where
  "kv_batch_id durable_key =
     (if length durable_key \<noteq> 8 then Inl Serialization else Inr (u64_from_be_bytes durable_key))"

definition kv_open_with_cap :: "'s storage_ops \<Rightarrow> 's \<Rightarrow> usize \<Rightarrow> kv_outbound lite_result" where
  "kv_open_with_cap so s cap =
     rbind (dq_open_with_cap so s KvPushPending cap) (\<lambda>durable.
       Inr \<lparr>ko_durable = durable, ko_in_flight = []\<rparr>)"

definition kv_open :: "'s storage_ops \<Rightarrow> 's \<Rightarrow> kv_outbound lite_result" where
  "kv_open so s = kv_open_with_cap so s DEFAULT_CAP"

definition kv_enqueue ::
  "'s storage_ops \<Rightarrow> pending_kv_write codec \<Rightarrow> pending_kv_write \<Rightarrow>
   kv_outbound \<times> 's \<Rightarrow> unit lite_result \<times> kv_outbound \<times> 's" where
  "kv_enqueue so cd write = (\<lambda>(k, s).
     case eq_enqueue so cd (ko_durable k) s write of (r, q, s') \<Rightarrow> (r, k\<lparr>ko_durable := q\<rparr>, s'))"

definition kv_ensure_room :: "'s storage_ops \<Rightarrow> kv_outbound \<Rightarrow> 's \<Rightarrow> usize \<Rightarrow> unit lite_result" where
  "kv_ensure_room so k s writes = ensure_room so (ko_durable k) s writes"

text \<open>The in-flight set is a list without duplicates.\<close>

fun kv_drain_loop ::
  "u64 list \<Rightarrow> pending_kv_write codec \<Rightarrow> kv_pair list \<Rightarrow> (bytes \<times> pending_kv_write) list lite_result" where
  "kv_drain_loop in_flight cd [] = Inr []"
| "kv_drain_loop in_flight cd ((key, payload) # pairs) =
     rbind (kv_batch_id key) (\<lambda>batch_id.
       if batch_id \<in> set in_flight then kv_drain_loop in_flight cd pairs
       else case cd_dec cd payload of
              None \<Rightarrow> Inl Serialization
            | Some write \<Rightarrow> rbind (kv_drain_loop in_flight cd pairs) (\<lambda>out. Inr ((key, write) # out)))"

definition kv_drain ::
  "'s storage_ops \<Rightarrow> pending_kv_write codec \<Rightarrow> kv_outbound \<Rightarrow> 's \<Rightarrow> usize \<Rightarrow>
   (bytes \<times> pending_kv_write) list lite_result" where
  "kv_drain so cd k s limit =
     rbind (dq_drain_batch so (ko_durable k) s limit) (kv_drain_loop (ko_in_flight k) cd)"

definition kv_mark_in_flight :: "u64 \<Rightarrow> kv_outbound \<Rightarrow> kv_outbound" where
  "kv_mark_in_flight batch_id k = k\<lparr>ko_in_flight := List.insert batch_id (ko_in_flight k)\<rparr>"

definition kv_retire ::
  "'s storage_ops \<Rightarrow> u64 \<Rightarrow> kv_outbound \<times> 's \<Rightarrow> unit lite_result \<times> kv_outbound \<times> 's" where
  "kv_retire so batch_id = (\<lambda>(k, s).
     let k = k\<lparr>ko_in_flight := removeAll batch_id (ko_in_flight k)\<rparr>
     in case dq_ack_keys so (ko_durable k) s [u64_to_be_bytes batch_id] of (r, s') \<Rightarrow> (r, k, s'))"

definition kv_clear_in_flight :: "kv_outbound \<Rightarrow> kv_outbound" where
  "kv_clear_in_flight k = k\<lparr>ko_in_flight := []\<rparr>"

definition kv_update_entry ::
  "'s storage_ops \<Rightarrow> pending_kv_write codec \<Rightarrow> kv_outbound \<Rightarrow> 's \<Rightarrow> bytes \<Rightarrow> pending_kv_write \<Rightarrow>
   unit lite_result \<times> 's" where
  "kv_update_entry so cd k s durable_key write = eq_update so cd (ko_durable k) s durable_key write"

definition kv_pending_count :: "'s storage_ops \<Rightarrow> kv_outbound \<Rightarrow> 's \<Rightarrow> u64 lite_result" where
  "kv_pending_count so k s = dq_len so (ko_durable k) s"

subsection \<open>Draining\<close>

lemma drain_loop_Inr:
  "drain_loop skip cd pairs = Inr out \<longleftrightarrow>
   list_all (\<lambda>(k, p). cd_dec cd p \<noteq> None) (filter (\<lambda>(k, _). \<not> skip k) pairs) \<and>
   out = map (\<lambda>(k, p). (k, the (cd_dec cd p))) (filter (\<lambda>(k, _). \<not> skip k) pairs)"
  by (induction skip cd pairs arbitrary: out rule: drain_loop.induct) (auto split: option.splits)

text \<open>The stored KV writes in queue order, decoded.\<close>

definition kv_writes ::
  "rows \<Rightarrow> pending_kv_write codec \<Rightarrow> durable_queue \<Rightarrow> (bytes \<times> pending_kv_write option) list" where
  "kv_writes m cd q = map (\<lambda>(k, p). (k, cd_dec cd p)) (dq_contents m q)"

lemma kv_drain_loop_Inr:
  "kv_drain_loop in_flight cd pairs = Inr out \<Longrightarrow>
   map (\<lambda>(k, w). (k, Some w)) out =
   filter (\<lambda>(k, _). u64_from_be_bytes k \<notin> set in_flight) (map (\<lambda>(k, p). (k, cd_dec cd p)) pairs)"
  by (induction in_flight cd pairs arbitrary: out rule: kv_drain_loop.induct)
    (auto simp: kv_batch_id_def split: if_splits option.splits)

lemma in_flight_key_iff: "in_flight_key m key \<longleftrightarrow> key \<in> snd ` set m"
  by (induction m) (auto simp: in_flight_key_def)

subsection \<open>Batch ids and in-flight records\<close>

text \<open>The entry under a key, and the invariant that makes a batch id name one entry: ids
  of stored entries are distinct and below the counter, and an in-flight record points
  to the entry with its id.\<close>

definition entry_at :: "rows \<Rightarrow> 'a codec \<Rightarrow> namespace \<Rightarrow> bytes \<Rightarrow> 'a option" where
  "entry_at m cd ns k = Option.bind (m ns k) (cd_dec cd)"

definition ids_inv ::
  "rows \<Rightarrow> 'a codec \<Rightarrow> ('a \<Rightarrow> u64) \<Rightarrow> durable_queue \<Rightarrow> u64 \<Rightarrow> (u64, bytes) hmap \<Rightarrow> bool" where
  "ids_inv m cd bid q ids infl \<longleftrightarrow>
     dq_inv m q \<and>
     (\<forall>k \<in> dom (m (dq_namespace q)). \<exists>e. entry_at m cd (dq_namespace q) k = Some e \<and> bid e < ids) \<and>
     (\<forall>k k' e e'. entry_at m cd (dq_namespace q) k = Some e \<and> entry_at m cd (dq_namespace q) k' = Some e' \<and>
        bid e = bid e' \<longrightarrow> k = k') \<and>
     (\<forall>i k. hm_get infl i = Some k \<longrightarrow> k < u64_to_be_bytes (dq_next_id q) \<and>
        (\<forall>e. entry_at m cd (dq_namespace q) k = Some e \<longrightarrow> bid e = i))"

lemma ids_invD:
  assumes "ids_inv m cd bid q ids infl" "dq_namespace q = ns"
  shows "dq_inv m q" "\<And>k e. entry_at m cd ns k = Some e \<Longrightarrow> bid e < ids"
    "\<And>k k' e e'. entry_at m cd ns k = Some e \<Longrightarrow> entry_at m cd ns k' = Some e' \<Longrightarrow> bid e = bid e' \<Longrightarrow> k = k'"
    "\<And>i k. hm_get infl i = Some k \<Longrightarrow> k < u64_to_be_bytes (dq_next_id q)"
    "\<And>i k e. hm_get infl i = Some k \<Longrightarrow> entry_at m cd ns k = Some e \<Longrightarrow> bid e = i"
    "\<And>k. m ns k \<noteq> None \<Longrightarrow> \<exists>e. entry_at m cd ns k = Some e \<and> bid e < ids"
proof -
  note i = assms(1) [unfolded ids_inv_def assms(2)]
  show "dq_inv m q" using i by blast
  show "bid e < ids" if "entry_at m cd ns k = Some e" for k e
  proof -
    have "k \<in> dom (m ns)" using that by (auto simp: entry_at_def bind_eq_Some_conv)
    with i that show ?thesis by force
  qed
  show "k = k'" if "entry_at m cd ns k = Some e" "entry_at m cd ns k' = Some e'" "bid e = bid e'" for k k' e e'
    using i that by blast
  show "k < u64_to_be_bytes (dq_next_id q)" if "hm_get infl i = Some k" for i k
    using i that by blast
  show "bid e = i" if "hm_get infl i = Some k" "entry_at m cd ns k = Some e" for i k e
    using i that by blast
  show "\<exists>e. entry_at m cd ns k = Some e \<and> bid e < ids" if "m ns k \<noteq> None" for k
    using i that by blast
qed

lemma ids_invI:
  assumes "dq_inv m q" "dq_namespace q = ns"
    "\<And>k. m ns k \<noteq> None \<Longrightarrow> \<exists>e. entry_at m cd ns k = Some e \<and> bid e < ids"
    "\<And>k k' e e'. entry_at m cd ns k = Some e \<Longrightarrow> entry_at m cd ns k' = Some e' \<Longrightarrow> bid e = bid e' \<Longrightarrow> k = k'"
    "\<And>i k. hm_get infl i = Some k \<Longrightarrow> k < u64_to_be_bytes (dq_next_id q)"
    "\<And>i k e. hm_get infl i = Some k \<Longrightarrow> entry_at m cd ns k = Some e \<Longrightarrow> bid e = i"
  shows "ids_inv m cd bid q ids infl"
  using assms unfolding ids_inv_def by (auto simp: dom_def)

lemma dq_enqueue_next_mono:
  assumes "dq_enqueue so q s payload = (r, q', s')"
  shows "dq_next_id q \<le> dq_next_id q'"
proof (cases "dq_next_id q = u64_max")
  case True
  then show ?thesis
    using assms by (auto simp: dq_enqueue_def reserve_key_def take_next_def u64_checked_add_one_Some
        split: sum.splits prod.splits option.splits)
next
  case False
  then show ?thesis
    using assms u64_succ_gt(1) [OF False]
    by (auto simp: dq_enqueue_def reserve_key_def take_next_def u64_checked_add_one_Some
        split: sum.splits prod.splits option.splits)
qed

context outbound_store
begin

lemma eq_drain_entry:
  assumes "store_inv s" "dq_namespace q = ns" "eq_drain so cd skip q s lim = Inr out" "(k, e) \<in> set out"
  shows "entry_at (rows_of s) cd ns k = Some e" "\<not> skip k"
proof -
  obtain pairs where p: "so_scan_range so s ns [] lim = Inr pairs" "drain_loop skip cd pairs = Inr out"
    using assms(2,3) by (auto simp: eq_drain_def dq_drain_batch_def)
  have "set pairs \<subseteq> {(k, v). rows_of s ns k = Some v}"
    using scan_all [OF assms(1) p(1)] entries_where_set [OF finite_rows [OF assms(1)], of "\<lambda>_. True"]
    by (auto dest: in_set_takeD)
  then show "entry_at (rows_of s) cd ns k = Some e" "\<not> skip k"
    using p(2) assms(4) by (auto simp: drain_loop_Inr list_all_iff entry_at_def)
qed

lemma eq_enqueue_ids:
  assumes "store_inv s" "dq_namespace q = ns" "ids_inv (rows_of s) cd bid q ids infl" "codec_law cd"
    and "bid e = ids" "ids \<noteq> u64_max" "eq_enqueue so cd q s e = (r, q', s')"
  shows "ids_inv (rows_of s') cd bid q' (ids + 1) infl" "store_inv s'" "dq_namespace q' = ns"
proof -
  note i = ids_invD [OF assms(3,2)]
  note lt = u64_succ_gt(1) [OF assms(6)]
  have ne: "entry_at (rows_of s) cd ns k = Some x \<Longrightarrow> bid x \<noteq> ids" for k x
    using i(2) by force
  have keep: "ids_inv (rows_of s) cd bid q'' (ids + 1) infl"
    if q'': "dq_inv (rows_of s) q''" "dq_namespace q'' = ns" "dq_next_id q \<le> dq_next_id q''" for q''
  proof (rule ids_invI [OF q''(1,2)])
    fix j k assume "hm_get infl j = Some k"
    then show "k < u64_to_be_bytes (dq_next_id q'')"
      using i(4) q''(3) by (meson less_le_trans u64_to_be_bytes_le)
  qed (use i lt in \<open>blast intro: less_trans\<close>)+
  have "ids_inv (rows_of s') cd bid q' (ids + 1) infl \<and> store_inv s' \<and> dq_namespace q' = ns"
  proof (cases "cd_enc cd e")
    case None
    then show ?thesis
      using assms keep [OF i(1) assms(2)] by (auto simp: eq_enqueue_def)
  next
    case (Some payload)
    then have enq: "dq_enqueue so q s payload = (r, q', s')"
      using assms(7) by (simp add: eq_enqueue_def)
    have dec: "cd_dec cd payload = Some e"
      using Some assms(4) by (auto simp: codec_law_def)
    note mono = dq_enqueue_next_mono [OF enq]
    from assms(1,2) i(1) enq show ?thesis
    proof (cases rule: enqueue_cases)
      case ok
      let ?k = "u64_to_be_bytes (dq_next_id q)"
      have at: "entry_at (rows_of s') cd ns k = (if k = ?k then Some e else entry_at (rows_of s) cd ns k)" for k
        by (simp add: ok(2) entry_at_def dec)
      have "ids_inv (rows_of s') cd bid q' (ids + 1) infl"
      proof (rule ids_invI [OF ok(5,7)])
        fix k assume "rows_of s' ns k \<noteq> None"
        then have "k \<noteq> ?k \<Longrightarrow> rows_of s ns k \<noteq> None" by (simp add: ok(2))
        then show "\<exists>e. entry_at (rows_of s') cd ns k = Some e \<and> bid e < ids + 1"
          unfolding at using i(6) [of k] lt assms(5) by (cases "k = ?k") (auto intro: less_trans)
      next
        fix k k' e1 e2
        assume "entry_at (rows_of s') cd ns k = Some e1" "entry_at (rows_of s') cd ns k' = Some e2" "bid e1 = bid e2"
        then show "k = k'"
          using ne i(3) assms(5) unfolding at by (metis option.inject)
      next
        fix j k assume "hm_get infl j = Some k"
        then show "k < u64_to_be_bytes (dq_next_id q')"
          using i(4) mono by (meson less_le_trans u64_to_be_bytes_le)
      next
        fix j k e1 assume "hm_get infl j = Some k" "entry_at (rows_of s') cd ns k = Some e1"
        then show "bid e1 = j"
          using i(4,5) unfolding at by (auto split: if_splits)
      qed
      then show ?thesis using ok(6,7) by simp
    next
      case (err e')
      then show ?thesis using keep mono by simp
    qed
  qed
  then show "ids_inv (rows_of s') cd bid q' (ids + 1) infl" "store_inv s'" "dq_namespace q' = ns"
    by auto
qed

lemma mark_ids:
  assumes "dq_namespace q = ns" "ids_inv m cd bid q ids infl" "entry_at m cd ns k = Some e"
  shows "ids_inv m cd bid q ids (hm_insert (bid e) k infl)"
proof (rule ids_invI [OF _ assms(1)])
  note i = ids_invD [OF assms(2,1)]
  show "dq_inv m q" by (rule i(1))
  show "k' < u64_to_be_bytes (dq_next_id q)" if "hm_get (hm_insert (bid e) k infl) j = Some k'" for j k'
  proof (cases "j = bid e")
    case True
    have "k \<in> dom (m (dq_namespace q))"
      using assms(1,3) by (auto simp: entry_at_def bind_eq_Some_conv)
    then show ?thesis
      using True that dq_inv_key_less [OF i(1)] by simp
  qed (use that i(4) in simp)
  show "bid e1 = j" if "hm_get (hm_insert (bid e) k infl) j = Some k'" "entry_at m cd ns k' = Some e1" for j k' e1
    using that i(5) assms(3) by (auto split: if_splits)
qed (use ids_invD [OF assms(2,1)] in blast)+

lemma update_ids:
  assumes "store_inv s" "dq_namespace q = ns" "ids_inv (rows_of s) cd bid q ids infl" "codec_law cd"
    and "entry_at (rows_of s) cd ns k = Some e" "bid e' = bid e" "eq_update so cd q s k e' = (r, s')"
  shows "ids_inv (rows_of s') cd bid q ids infl" "store_inv s'"
proof -
  note i = ids_invD [OF assms(3,2)]
  have "ids_inv (rows_of s') cd bid q ids infl \<and> store_inv s'"
  proof (cases "cd_enc cd e'")
    case None
    then show ?thesis using assms(1,3,7) by (simp add: eq_update_def)
  next
    case (Some payload)
    then have p: "so_put so s ns k payload = (r, s')"
      using assms(2,7) by (simp add: eq_update_def dq_update_entry_def)
    have dec: "cd_dec cd payload = Some e'"
      using Some assms(4) by (auto simp: codec_law_def)
    note inv' = put_inv [OF assms(1) p]
    show ?thesis
    proof (cases r)
      case (Inl x)
      then show ?thesis using put_err [OF assms(1)] p inv' assms(3) by simp
    next
      case (Inr u)
      have rows: "rows_of s' = rows_apply (rows_of s) (Put ns k payload)"
        using put_ok [OF assms(1)] p Inr by simp
      have at: "entry_at (rows_of s') cd ns k' = (if k' = k then Some e' else entry_at (rows_of s) cd ns k')" for k'
        by (simp add: rows entry_at_def dec)
      have "k \<in> dom (rows_of s ns)"
        using assms(5) by (auto simp: entry_at_def bind_eq_Some_conv)
      then have dq: "dq_inv (rows_of s') q"
        using i(1) assms(2) by (auto simp: dq_inv_def rows)
      have "ids_inv (rows_of s') cd bid q ids infl"
      proof (rule ids_invI [OF dq assms(2)])
        fix k' assume "rows_of s' ns k' \<noteq> None"
        then have "k' \<noteq> k \<Longrightarrow> rows_of s ns k' \<noteq> None" by (simp add: rows)
        then show "\<exists>e. entry_at (rows_of s') cd ns k' = Some e \<and> bid e < ids"
          unfolding at using i(2) [OF assms(5)] i(6) [of k'] assms(6) by (cases "k' = k") auto
      next
        fix k1 k2 e1 e2
        assume "entry_at (rows_of s') cd ns k1 = Some e1" "entry_at (rows_of s') cd ns k2 = Some e2" "bid e1 = bid e2"
        then show "k1 = k2"
          using i(3) [OF assms(5)] i(3) assms(6) unfolding at by (metis option.inject)
      next
        fix j k1 e1 assume "hm_get infl j = Some k1" "entry_at (rows_of s') cd ns k1 = Some e1"
        then show "bid e1 = j"
          using i(5) assms(5,6) unfolding at by (auto split: if_splits)
      qed (rule i(4))
      then show ?thesis using inv' by simp
    qed
  qed
  then show "ids_inv (rows_of s') cd bid q ids infl" "store_inv s'" by auto
qed

lemma ack_ids:
  assumes "store_inv s" "dq_namespace q = ns" "ids_inv (rows_of s) cd bid q ids infl"
    and "hm_get infl i = Some k" "dq_ack_keys so q s [k] = (r, s')"
  shows "ids_inv (rows_of s') cd bid q ids (hm_remove i infl)" "store_inv s'"
    "rows_of s' ns k' = rows_of s ns k' \<or> k' = k \<and> rows_of s' ns k' = None"
proof -
  note iv = ids_invD [OF assms(3,2)]
  have rows: "rows_of s' ns k' = (if is_ok r \<and> k' = k then None else rows_of s ns k')" for k'
    using ack_keys_ok(1) [OF assms(1,2)] ack_keys_err [OF assms(1)] assms(5) by (cases r) auto
  then show "rows_of s' ns k' = rows_of s ns k' \<or> k' = k \<and> rows_of s' ns k' = None" by simp
  show "store_inv s'" by (rule ack_keys_inv [OF assms(1,5)])
  have at: "entry_at (rows_of s') cd ns k' = Some e \<Longrightarrow> entry_at (rows_of s) cd ns k' = Some e" for k' e
    by (auto simp: entry_at_def rows split: if_splits)
  show "ids_inv (rows_of s') cd bid q ids (hm_remove i infl)"
  proof (rule ids_invI [OF _ assms(2)])
    show "dq_inv (rows_of s') q"
      using iv(1) unfolding dq_inv_def assms(2) by (auto simp: rows dom_def)
  next
    fix k' assume "rows_of s' ns k' \<noteq> None"
    then show "\<exists>e. entry_at (rows_of s') cd ns k' = Some e \<and> bid e < ids"
      using iv(6) [of k'] by (auto simp: rows entry_at_def split: if_splits)
  qed (use at iv(3-5) in \<open>auto split: if_splits\<close>)
qed

end

subsection \<open>Acknowledging a frontier\<close>

lemma remove_seqs_spec:
  assumes "hm_ok m" "distinct seqs" "set seqs \<subseteq> fst ` set m"
  shows "remove_seqs seqs m =
    (map (\<lambda>seq. ib_durable_key (the (hm_get m seq))) seqs, filter (\<lambda>(seq, _). seq \<notin> set seqs) m)"
  using assms
proof (induction seqs arbitrary: m)
  case (Cons seq seqs)
  obtain f where f: "hm_get m seq = Some f"
    using Cons.prems(3) by (metis list.set_intros(1) map_of_eq_None_iff not_None_eq subsetD)
  have "set (map fst (hm_remove seq m)) = fst ` set m - {seq}"
    unfolding delete_keys by simp
  then have sub: "set seqs \<subseteq> fst ` set (hm_remove seq m)"
    using Cons.prems(2,3) by auto
  have "map (\<lambda>q. ib_durable_key (the (hm_get (hm_remove seq m) q))) seqs
      = map (\<lambda>q. ib_durable_key (the (hm_get m q))) seqs"
    using Cons.prems(2) by auto
  moreover have "filter (\<lambda>(q, _). q \<notin> set seqs) (hm_remove seq m) = filter (\<lambda>(q, _). q \<notin> set (seq # seqs)) m"
    by (auto simp: AList.delete_eq intro!: filter_cong)
  ultimately show ?case
    using Cons.IH [of "hm_remove seq m"] Cons.prems sub f by simp
qed (simp add: filter_True)

subsection \<open>Properties\<close>

text \<open>
  C19. A columnar drain is first-in first-out and skips exactly what is in flight: it
  returns, in queue order, the entries among the first \<open>limit\<close> of the queue whose key no
  in-flight record holds, each decoded from storage.
\<close>

theorem columnar_drain_fifo:
  assumes "outbound_store so rows_of store_inv hidden ColumnarPending" "store_inv s"
    and "dq_namespace (co_queue c) = ColumnarPending" "columnar_drain_batch so cd c s limit = Inr out"
  shows "map fst out = filter (\<lambda>k. k \<notin> snd ` set (co_in_flight c))
           (map fst (take limit (dq_contents (rows_of s) (co_queue c))))
       \<and> list_all (\<lambda>(k, b). entry_at (rows_of s) cd ColumnarPending k = Some b) out"
proof -
  obtain pairs where p: "so_scan_range so s ColumnarPending [] limit = Inr pairs"
    "drain_loop (in_flight_key (co_in_flight c)) cd pairs = Inr out"
    using assms(3,4) by (auto simp: columnar_drain_batch_def eq_drain_def dq_drain_batch_def)
  have "pairs = take limit (dq_contents (rows_of s) (co_queue c))"
    using outbound_store.scan_all [OF assms(1,2) p(1)] assms(3) by (simp add: dq_contents_def)
  moreover have "map fst out = filter (\<lambda>k. \<not> in_flight_key (co_in_flight c) k) (map fst pairs)"
    using p(2) unfolding drain_loop_Inr by (auto simp: filter_map comp_def case_prod_beta')
  moreover have "list_all (\<lambda>(k, b). entry_at (rows_of s) cd ColumnarPending k = Some b) out"
    using outbound_store.eq_drain_entry(1) [OF assms(1,2,3) assms(4) [unfolded columnar_drain_batch_def]]
    by (auto simp: list_all_iff)
  ultimately show ?thesis
    by (simp add: in_flight_key_iff)
qed

text \<open>
  C20. The batch id of a drained KV write retires that write and nothing else. A drain pairs every
  key with the write stored under it. Retiring the batch id of one drained pair, through the same
  handle or through one opened again on the same storage, makes the next drain return the stored
  writes in queue order without that one, skipping those still in flight; after a retire that
  failed the next drain returns the write again.
\<close>

theorem kv_retire_exact:
  assumes "outbound_store so rows_of store_inv hidden KvPushPending" "store_inv s"
    and "dq_namespace (ko_durable k) = KvPushPending" "dq_namespace (ko_durable k2) = KvPushPending"
    and "kv_drain so cd k s limit = Inr out" "(key, write) \<in> set out" "kv_batch_id key = Inr batch_id"
    and "kv_retire so batch_id (k2, s) = (r, k3, s3)" "kv_drain so cd k3 s3 limit3 = Inr out3"
  shows "(key, Some write) \<in> set (kv_writes (rows_of s) cd (ko_durable k)) \<and>
         map (\<lambda>(k, w). (k, Some w)) out3 =
           filter (\<lambda>(k, _). u64_from_be_bytes k \<notin> set (ko_in_flight k2) - {batch_id})
             (take limit3 (filter (\<lambda>(k, _). is_ok r \<longrightarrow> k \<noteq> key) (kv_writes (rows_of s) cd (ko_durable k))))"
proof -
  have key: "u64_to_be_bytes batch_id = key"
    using assms(7) by (auto simp: kv_batch_id_def u64_to_from_be_bytes split: if_splits)
  have a: "dq_ack_keys so (ko_durable k2) s [key] = (r, s3)"
    and k3: "k3 = k2\<lparr>ko_in_flight := removeAll batch_id (ko_in_flight k2)\<rparr>"
    using assms(8) by (auto simp: kv_retire_def Let_def key split: prod.splits)
  have drain: "map (\<lambda>(k, w). (k, Some w)) out' =
      filter (\<lambda>(k, _). u64_from_be_bytes k \<notin> set (ko_in_flight h))
        (take lim (kv_writes (rows_of t) cd (ko_durable h)))"
    if "kv_drain so cd h t lim = Inr out'" "store_inv t" "dq_namespace (ko_durable h) = KvPushPending" for h t lim out'
    using that outbound_store.scan_all [OF assms(1)] kv_drain_loop_Inr
    by (fastforce simp: kv_drain_def dq_drain_batch_def kv_writes_def dq_contents_def take_map)
  have "(key, Some write) \<in> set (map (\<lambda>(k, w). (k, Some w)) out)"
    using assms(6) by force
  then have 1: "(key, Some write) \<in> set (kv_writes (rows_of s) cd (ko_durable k))"
    unfolding drain [OF assms(5,2,3)] by (auto dest: in_set_takeD)
  have "dq_contents (rows_of s3) (ko_durable k2) =
      filter (\<lambda>kv. is_ok r \<longrightarrow> fst kv \<noteq> key) (dq_contents (rows_of s) (ko_durable k2))"
    using outbound_store.ack_keys_ok(2) [OF assms(1,2,4)] outbound_store.ack_keys_err [OF assms(1,2)] a
    by (cases r) auto
  then have "kv_writes (rows_of s3) cd (ko_durable k3) =
      filter (\<lambda>(k, _). is_ok r \<longrightarrow> k \<noteq> key) (kv_writes (rows_of s) cd (ko_durable k))"
    using assms(3,4) by (simp add: kv_writes_def k3 filter_map comp_def case_prod_unfold dq_contents_def)
  then show ?thesis
    using 1 drain [OF assms(9)] outbound_store.ack_keys_inv [OF assms(1,2) a] assms(4) by (simp add: k3)
qed

text \<open>A timeseries frontier acknowledgement is exact on sequence numbers: it returns the
  durable key of every in-flight record at or below the frontier and keeps the others.
\<close>

theorem timeseries_ack_through_exact:
  assumes "hm_ok (to_in_flight t)" "ack_in_flight_through_seq applied t = (keys, t')"
  shows "keys = map (ib_durable_key \<circ> snd) (filter (\<lambda>(seq, _). seq \<le> applied) (to_in_flight t))
       \<and> to_in_flight t' = filter (\<lambda>(seq, _). applied < seq) (to_in_flight t)"
proof -
  let ?m = "to_in_flight t"
  let ?qs = "filter (\<lambda>seq. seq \<le> applied) (map fst ?m)"
  have "remove_seqs ?qs ?m = (keys, to_in_flight t')"
    using assms(2) by (auto simp: ack_in_flight_through_seq_def Let_def split: prod.splits)
  then have k: "keys = map (\<lambda>seq. ib_durable_key (the (hm_get ?m seq))) ?qs"
    and t': "to_in_flight t' = filter (\<lambda>(seq, _). seq \<notin> set ?qs) ?m"
    using remove_seqs_spec [OF assms(1), of ?qs] assms(1) by auto
  have "keys = map (ib_durable_key \<circ> snd) (filter (\<lambda>(seq, _). seq \<le> applied) ?m)"
    unfolding k filter_map using assms(1) by (auto simp: comp_def case_prod_beta' intro!: map_cong filter_cong)
  moreover have "to_in_flight t' = filter (\<lambda>(seq, _). applied < seq) ?m"
  proof -
    have "seq \<notin> set ?qs \<longleftrightarrow> applied < seq" if "(seq, f) \<in> set ?m" for seq f
      using that by (auto simp: not_le intro: rev_image_eqI)
    then show ?thesis unfolding t' by (intro filter_cong) auto
  qed
  ultimately show ?thesis by simp
qed

subsection \<open>The in-memory store in concrete runs\<close>

lemma mem_outbound:
  "outbound_store demo_engine (pagedb_rows map_of demo_nsb) (\<lambda>_. True) (\<lambda>_ _. False) ns"
  by (intro outbound_store.intro outbound_store_axioms.intro
      outbound_store.axioms(1) [OF mem_q.outbound_store_axioms]) simp

lemma mem_scan_sorted:
  assumes "sorted_wrt (<) (map fst xs)"
  shows "mem_scan P xs = filter (\<lambda>kv. P (fst kv)) xs"
proof -
  have "sorted_wrt (<) (filter P (map fst xs))"
    by (rule sorted_wrt_filter [OF assms])
  then have s: "sort (remdups (filter P (map fst xs))) = filter P (map fst xs)"
    by (simp add: strict_sorted_iff distinct_remdups_id sort_key_id_if_sorted sorted_sort_id)
  have d: "distinct (map fst xs)"
    using assms by (simp add: strict_sorted_iff)
  show ?thesis
    unfolding mem_scan_def s using d
    by (auto simp: filter_map comp_def intro!: map_idI)
qed

lemma demo_put_eq: "put_rows mem_pagedb demo_nsb s ns k v = (Inr (), AList.update (demo_nsb ns # k) v s)"
  by (simp add: put_rows_def commit_txn_def mem_pagedb_def prefix_key_def Let_def)

lemma demo_get_eq: "get_rows mem_pagedb demo_nsb s ns k = Inr (map_of s (demo_nsb ns # k))"
  by (simp add: get_rows_def mem_pagedb_def prefix_key_def Let_def)

lemma demo_count_eq:
  "sorted_wrt (<) (map fst s) \<Longrightarrow>
   count_rows mem_pagedb demo_nsb s ns = Inr (of_nat (length (filter (\<lambda>kv. prefix [demo_nsb ns] (fst kv)) s)))"
  by (simp add: count_rows_def mem_pagedb_def mem_scan_sorted Let_def)

lemma demo_scan_eq:
  "sorted_wrt (<) (map fst s) \<Longrightarrow>
   scan_range_rows mem_pagedb demo_nsb s ns [] lim
   = Inr (strip_rows (take lim (filter (\<lambda>kv. [demo_nsb ns] \<le> fst kv \<and> fst kv < [demo_nsb ns + 1]) s)))"
  by (simp add: scan_range_rows_def mem_pagedb_def prefix_key_def ns_end_def mem_scan_sorted Let_def)

lemma demo_ack_eq:
  "dq_ack_keys demo_engine q s [k] = (Inr (), filter (\<lambda>(c, _). c \<notin> {demo_nsb (dq_namespace q) # k}) s)"
  by (simp add: dq_ack_keys_def batch_write_rows_def mem_pagedb_def commit_txn_def Let_def apply_batched_def
      prefix_key_def)

lemmas demo_store_eqs = demo_put_eq demo_get_eq demo_count_eq demo_scan_eq demo_ack_eq

text \<open>Codecs for batches with a single empty row and no schema, and for KV deletes.\<close>

definition demo_col_codec :: "unit pending_columnar_batch codec" where
  "demo_col_codec =
     \<lparr>cd_enc = (\<lambda>b. if pc_rows b = [[]] \<and> pc_schema_bytes b = []
        then Some (u64_to_be_bytes (pc_batch_id b) @ u64_to_be_bytes (pc_seq b) @ str_bytes (pc_collection b))
        else None),
      cd_dec = (\<lambda>v. if length v < 16 then None
        else Some \<lparr>pc_batch_id = u64_from_be_bytes (take 8 v), pc_collection = bytes_str (drop 16 v), pc_rows = [[]],
                   pc_schema_bytes = [], pc_seq = u64_from_be_bytes (take 8 (drop 8 v))\<rparr>)\<rparr>"

lemma demo_col_codec_law: "codec_law demo_col_codec"
  by (auto simp: codec_law_def demo_col_codec_def split: if_splits)

definition demo_kv_codec :: "pending_kv_write codec" where
  "demo_kv_codec =
     \<lparr>cd_enc = (\<lambda>w. if kw_op w = KvDelete \<and> kw_key w = []
        then Some (u64_to_be_bytes (kw_seq w) @ str_bytes (kw_collection w)) else None),
      cd_dec = (\<lambda>v. if length v < 8 then None
        else Some \<lparr>kw_collection = bytes_str (drop 8 v), kw_key = [], kw_op = KvDelete,
                   kw_seq = u64_from_be_bytes (take 8 v)\<rparr>)\<rparr>"

definition demo_cbatch :: "u64 \<Rightarrow> u64 \<Rightarrow> string \<Rightarrow> unit pending_columnar_batch" where
  "demo_cbatch i n coll =
     \<lparr>pc_batch_id = i, pc_collection = coll, pc_rows = [[]], pc_schema_bytes = [], pc_seq = n\<rparr>"

definition demo_cbytes :: "u64 \<Rightarrow> u64 \<Rightarrow> string \<Rightarrow> bytes" where
  "demo_cbytes i n coll = u64_to_be_bytes i @ u64_to_be_bytes n @ str_bytes coll"

lemma demo_col_enc [simp]: "cd_enc demo_col_codec (demo_cbatch i n coll) = Some (demo_cbytes i n coll)"
  by (simp add: demo_col_codec_def demo_cbatch_def demo_cbytes_def)

lemma demo_col_dec [simp]: "cd_dec demo_col_codec (demo_cbytes i n coll) = Some (demo_cbatch i n coll)"
  by (simp add: demo_col_codec_def demo_cbatch_def demo_cbytes_def)

definition demo_col_row :: "u64 \<Rightarrow> u64 \<Rightarrow> u64 \<Rightarrow> string \<Rightarrow> kv_pair" where
  "demo_col_row key i n coll = (17 # u64_to_be_bytes key, demo_cbytes i n coll)"

definition demo_columnar :: "u64 \<Rightarrow> u64 \<Rightarrow> columnar_outbound" where
  "demo_columnar next_key ids =
     \<lparr>co_queue = \<lparr>dq_namespace = ColumnarPending, dq_cap = 10, dq_next_id = next_key\<rparr>, co_ids = ids,
      co_in_flight = []\<rparr>"

lemma demo_columnar_drain:
  "columnar_drain_batch demo_engine demo_col_codec (demo_columnar 2 2) [demo_col_row 1 1 0 ''c''] 256
   = Inr [(u64_to_be_bytes 1, demo_cbatch 1 0 ''c'')]"
  by (simp add: columnar_drain_batch_def eq_drain_def dq_drain_batch_def demo_columnar_def demo_col_row_def
      demo_scan_eq strip_rows_def in_flight_key_def)

subsection \<open>Witnesses\<close>

theorem columnar_drain_fifo_witness:
  "\<exists>out. columnar_drain_batch demo_engine demo_col_codec (demo_columnar 2 2) [demo_col_row 1 1 0 ''c''] 256 = Inr out \<and>
     list_all (\<lambda>(k, b). entry_at (pagedb_rows map_of demo_nsb [demo_col_row 1 1 0 ''c'']) demo_col_codec
        ColumnarPending k = Some b) out"
  using columnar_drain_fifo [OF mem_outbound _ _ demo_columnar_drain] demo_columnar_drain
  by (simp add: demo_columnar_def)

theorem kv_retire_exact_witness:
  "\<exists>k3 s3. kv_retire demo_engine 1 (\<lparr>ko_durable = \<lparr>dq_namespace = KvPushPending, dq_cap = 10, dq_next_id = 9\<rparr>,
        ko_in_flight = []\<rparr>, [(25 # u64_to_be_bytes 1, u64_to_be_bytes 0 @ str_bytes ''c'')]) = (Inr (), k3, s3) \<and>
      kv_drain demo_engine demo_kv_codec k3 s3 256 = Inr []"
proof -
  let ?q = "\<lambda>n. \<lparr>ko_durable = \<lparr>dq_namespace = KvPushPending, dq_cap = 10, dq_next_id = n\<rparr>, ko_in_flight = []\<rparr>"
  let ?s = "[(25 # u64_to_be_bytes 1, u64_to_be_bytes 0 @ str_bytes ''c'')]"
  let ?w = "\<lparr>kw_collection = ''c'', kw_key = [], kw_op = KvDelete, kw_seq = 0\<rparr>"
  have d: "kv_drain demo_engine demo_kv_codec (?q 2) ?s 256 = Inr [(u64_to_be_bytes 1, ?w)]"
    by (simp add: kv_drain_def dq_drain_batch_def demo_scan_eq strip_rows_def kv_batch_id_def demo_kv_codec_def)
  have m: "(u64_to_be_bytes 1, ?w) \<in> set [(u64_to_be_bytes 1, ?w)]" by simp
  have b: "kv_batch_id (u64_to_be_bytes 1) = Inr 1"
    by (simp add: kv_batch_id_def)
  obtain k3 s3 where r: "kv_retire demo_engine 1 (?q 9, ?s) = (Inr (), k3, s3)"
    by (simp add: kv_retire_def demo_ack_eq Let_def)
  have "s3 = []" "k3 = ?q 9"
    using r by (simp_all add: kv_retire_def demo_ack_eq Let_def)
  then have "\<exists>out. kv_drain demo_engine demo_kv_codec k3 s3 256 = Inr out"
    by (simp add: kv_drain_def dq_drain_batch_def demo_scan_eq strip_rows_def)
  then obtain out where o: "kv_drain demo_engine demo_kv_codec k3 s3 256 = Inr out" ..
  have "pagedb_rows map_of demo_nsb ?s KvPushPending = [u64_to_be_bytes 1 \<mapsto> u64_to_be_bytes 0 @ str_bytes ''c'']"
    by (auto simp: pagedb_rows_def fun_eq_iff)
  then have "kv_writes (pagedb_rows map_of demo_nsb ?s) demo_kv_codec (ko_durable (?q 2)) = [(u64_to_be_bytes 1, Some ?w)]"
    by (simp add: kv_writes_def dq_contents_def entries_where_def demo_kv_codec_def)
  then have "out = []"
    using kv_retire_exact [OF mem_outbound _ _ _ d m b r o] by simp
  then show ?thesis using r o by blast
qed

theorem timeseries_ack_through_exact_witness:
  "\<exists>t'. ack_in_flight_through_seq 3
      \<lparr>to_queue = \<lparr>dq_namespace = TimeseriesPending, dq_cap = 10, dq_next_id = 9\<rparr>, to_ids = 4,
       to_in_flight = [(2, \<lparr>ib_batch_id = 1, ib_durable_key = [1]\<rparr>), (5, \<lparr>ib_batch_id = 3, ib_durable_key = [7]\<rparr>)]\<rparr>
      = ([[1]], t') \<and> map fst (to_in_flight t') = [5]"
proof -
  let ?t = "\<lparr>to_queue = \<lparr>dq_namespace = TimeseriesPending, dq_cap = 10, dq_next_id = 9\<rparr>, to_ids = 4,
       to_in_flight = [(2, \<lparr>ib_batch_id = 1, ib_durable_key = [1]\<rparr>), (5, \<lparr>ib_batch_id = 3, ib_durable_key = [7]\<rparr>)]\<rparr>"
  obtain keys t' where "ack_in_flight_through_seq 3 ?t = (keys, t')"
    by fastforce
  then show ?thesis
    using timeseries_ack_through_exact [of ?t 3 keys t'] by simp
qed

end
