(* ===== verification/Staged_Queues.thy ===== *)
theory Staged_Queues
  imports Engine_Queues
begin

text \<open>
  The outbound queues that stage entries in memory before they spill to the durable queue:
  spatial (\<open>outbound/spatial.rs\<close>) and full-text search (\<open>outbound/fts/\<close>).

  The spatial queue takes its whole staging buffer out, enqueues entry by entry and puts
  back what met backpressure. The full-text queue reserves the durable key of the front
  entry first and removes the entry only after it is stored. The two protocols differ on
  a storage error; the properties at the end make that precise.
\<close>

subsection \<open>Spatial\<close>

definition SPATIAL_STAGING_CAP :: usize where
  "SPATIAL_STAGING_CAP = 4096"

record pending_spatial_insert =
  si_batch_id :: u64
  si_collection :: string
  si_field :: string
  si_doc_id :: string
  si_geometry_bytes :: bytes
  si_seq :: u64

record pending_spatial_delete =
  sd_batch_id :: u64
  sd_collection :: string
  sd_field :: string
  sd_doc_id :: string
  sd_seq :: u64

record spatial_outbound =
  sp_staging_inserts :: "pending_spatial_insert pending_queue"
  sp_staging_deletes :: "pending_spatial_delete pending_queue"
  sp_durable_inserts :: durable_queue
  sp_durable_deletes :: durable_queue
  sp_ids :: u64
  sp_in_flight_inserts :: "(u64, bytes) hmap"
  sp_in_flight_deletes_map :: "(u64, bytes) hmap"

definition spatial_open_with_cap :: "'s storage_ops \<Rightarrow> 's \<Rightarrow> usize \<Rightarrow> spatial_outbound lite_result" where
  "spatial_open_with_cap so s cap =
     rbind (dq_open_with_cap so s SpatialInsertPending cap) (\<lambda>durable_inserts.
     rbind (dq_open_with_cap so s SpatialDeletePending cap) (\<lambda>durable_deletes.
       Inr \<lparr>sp_staging_inserts = pq_new, sp_staging_deletes = pq_new,
            sp_durable_inserts = durable_inserts, sp_durable_deletes = durable_deletes, sp_ids = 1,
            sp_in_flight_inserts = [], sp_in_flight_deletes_map = []\<rparr>))"

definition spatial_open :: "'s storage_ops \<Rightarrow> 's \<Rightarrow> spatial_outbound lite_result" where
  "spatial_open so s = spatial_open_with_cap so s DEFAULT_CAP"

text \<open>\<open>enc_geo\<close> serialises a geometry.\<close>

definition stage_insert ::
  "('g \<Rightarrow> bytes option) \<Rightarrow> string \<Rightarrow> string \<Rightarrow> string \<Rightarrow> 'g \<Rightarrow> spatial_outbound \<Rightarrow> spatial_outbound" where
  "stage_insert enc_geo collection fld doc_id geometry p =
     (if SPATIAL_STAGING_CAP \<le> pq_len (sp_staging_inserts p) then p
      else case enc_geo geometry of
             None \<Rightarrow> p
           | Some geometry_bytes \<Rightarrow>
               p\<lparr>sp_ids := sp_ids p + 1,
                 sp_staging_inserts := pq_push
                   \<lparr>si_batch_id = sp_ids p, si_collection = collection, si_field = fld, si_doc_id = doc_id,
                    si_geometry_bytes = geometry_bytes, si_seq = 0\<rparr> (sp_staging_inserts p)\<rparr>)"

definition stage_delete :: "string \<Rightarrow> string \<Rightarrow> string \<Rightarrow> spatial_outbound \<Rightarrow> spatial_outbound" where
  "stage_delete collection fld doc_id p =
     (if SPATIAL_STAGING_CAP \<le> pq_len (sp_staging_deletes p) then p
      else p\<lparr>sp_ids := sp_ids p + 1,
             sp_staging_deletes := pq_push
               \<lparr>sd_batch_id = sp_ids p, sd_collection = collection, sd_field = fld, sd_doc_id = doc_id,
                sd_seq = 0\<rparr> (sp_staging_deletes p)\<rparr>)"

text \<open>One spill loop: \<open>bp\<close> tells whether an entry met backpressure before; from then on
  the rest is collected in \<open>failed\<close>. Any other error leaves the loop at once.\<close>

fun spill_loop ::
  "'s storage_ops \<Rightarrow> 'a codec \<Rightarrow> 'a list \<Rightarrow> bool \<Rightarrow> 'a list \<Rightarrow> durable_queue \<Rightarrow> 's \<Rightarrow>
   (bool \<times> 'a list) lite_result \<times> durable_queue \<times> 's" where
  "spill_loop so cd [] bp failed q s = (Inr (bp, failed), q, s)"
| "spill_loop so cd (entry # entries) bp failed q s =
     (if bp then spill_loop so cd entries bp (failed @ [entry]) q s
      else case cd_enc cd entry of
             None \<Rightarrow> (Inl Serialization, q, s)
           | Some payload \<Rightarrow>
               (case dq_enqueue so q s payload of
                  (Inr _, q', s') \<Rightarrow> spill_loop so cd entries bp failed q' s'
                | (Inl e, q', s') \<Rightarrow>
                    if e = Backpressure then spill_loop so cd entries True (failed @ [entry]) q' s'
                    else (Inl e, q', s')))"

definition spatial_flush_staging ::
  "'s storage_ops \<Rightarrow> pending_spatial_insert codec \<Rightarrow> pending_spatial_delete codec \<Rightarrow>
   spatial_outbound \<times> 's \<Rightarrow> unit lite_result \<times> spatial_outbound \<times> 's" where
  "spatial_flush_staging so ci cdel = (\<lambda>(p, s).
     let (staged_inserts, si) = pq_drain (sp_staging_inserts p);
         p = p\<lparr>sp_staging_inserts := si\<rparr>
     in case spill_loop so ci staged_inserts False [] (sp_durable_inserts p) s of
          (Inl e, q, s) \<Rightarrow> (Inl e, p\<lparr>sp_durable_inserts := q\<rparr>, s)
        | (Inr (bp, failed_inserts), q, s) \<Rightarrow>
            let p = p\<lparr>sp_durable_inserts := q,
                      sp_staging_inserts := fold pq_requeue (rev failed_inserts) (sp_staging_inserts p)\<rparr>;
                (staged_deletes, sd) = pq_drain (sp_staging_deletes p);
                p = p\<lparr>sp_staging_deletes := sd\<rparr>
            in case spill_loop so cdel staged_deletes bp [] (sp_durable_deletes p) s of
                 (Inl e, q, s) \<Rightarrow> (Inl e, p\<lparr>sp_durable_deletes := q\<rparr>, s)
               | (Inr (bp', failed_deletes), q, s) \<Rightarrow>
                   (if bp' then Inl Backpressure else Inr (),
                    p\<lparr>sp_durable_deletes := q,
                      sp_staging_deletes := fold pq_requeue (rev failed_deletes) (sp_staging_deletes p)\<rparr>,
                    s))"

definition spatial_drain_inserts ::
  "'s storage_ops \<Rightarrow> pending_spatial_insert codec \<Rightarrow> pending_spatial_delete codec \<Rightarrow> usize \<Rightarrow>
   spatial_outbound \<times> 's \<Rightarrow> (bytes \<times> pending_spatial_insert) list lite_result \<times> spatial_outbound \<times> 's" where
  "spatial_drain_inserts so ci cdel limit = (\<lambda>(p, s).
     case spatial_flush_staging so ci cdel (p, s) of
       (_, p, s) \<Rightarrow>
         (eq_drain so ci (in_flight_key (sp_in_flight_inserts p)) (sp_durable_inserts p) s limit, p, s))"

definition spatial_drain_deletes ::
  "'s storage_ops \<Rightarrow> pending_spatial_insert codec \<Rightarrow> pending_spatial_delete codec \<Rightarrow> usize \<Rightarrow>
   spatial_outbound \<times> 's \<Rightarrow> (bytes \<times> pending_spatial_delete) list lite_result \<times> spatial_outbound \<times> 's" where
  "spatial_drain_deletes so ci cdel limit = (\<lambda>(p, s).
     case spatial_flush_staging so ci cdel (p, s) of
       (_, p, s) \<Rightarrow>
         (eq_drain so cdel (in_flight_key (sp_in_flight_deletes_map p)) (sp_durable_deletes p) s limit, p, s))"

definition spatial_mark_insert_in_flight :: "u64 \<Rightarrow> bytes \<Rightarrow> spatial_outbound \<Rightarrow> spatial_outbound" where
  "spatial_mark_insert_in_flight batch_id durable_key p =
     p\<lparr>sp_in_flight_inserts := hm_insert batch_id durable_key (sp_in_flight_inserts p)\<rparr>"

definition spatial_ack_insert_in_flight :: "u64 \<Rightarrow> spatial_outbound \<Rightarrow> bytes option \<times> spatial_outbound" where
  "spatial_ack_insert_in_flight batch_id p =
     (hm_get (sp_in_flight_inserts p) batch_id,
      p\<lparr>sp_in_flight_inserts := hm_remove batch_id (sp_in_flight_inserts p)\<rparr>)"

definition spatial_mark_delete_in_flight :: "u64 \<Rightarrow> bytes \<Rightarrow> spatial_outbound \<Rightarrow> spatial_outbound" where
  "spatial_mark_delete_in_flight batch_id durable_key p =
     p\<lparr>sp_in_flight_deletes_map := hm_insert batch_id durable_key (sp_in_flight_deletes_map p)\<rparr>"

definition spatial_ack_delete_in_flight :: "u64 \<Rightarrow> spatial_outbound \<Rightarrow> bytes option \<times> spatial_outbound" where
  "spatial_ack_delete_in_flight batch_id p =
     (hm_get (sp_in_flight_deletes_map p) batch_id,
      p\<lparr>sp_in_flight_deletes_map := hm_remove batch_id (sp_in_flight_deletes_map p)\<rparr>)"

definition spatial_clear_in_flight :: "spatial_outbound \<Rightarrow> spatial_outbound" where
  "spatial_clear_in_flight p = p\<lparr>sp_in_flight_inserts := [], sp_in_flight_deletes_map := []\<rparr>"

definition spatial_ack_insert_keys ::
  "'s storage_ops \<Rightarrow> spatial_outbound \<Rightarrow> 's \<Rightarrow> bytes list \<Rightarrow> unit lite_result \<times> 's" where
  "spatial_ack_insert_keys so p s keys = dq_ack_keys so (sp_durable_inserts p) s keys"

definition spatial_ack_delete_keys ::
  "'s storage_ops \<Rightarrow> spatial_outbound \<Rightarrow> 's \<Rightarrow> bytes list \<Rightarrow> unit lite_result \<times> 's" where
  "spatial_ack_delete_keys so p s keys = dq_ack_keys so (sp_durable_deletes p) s keys"

definition spatial_update_insert_entry ::
  "'s storage_ops \<Rightarrow> pending_spatial_insert codec \<Rightarrow> spatial_outbound \<Rightarrow> 's \<Rightarrow> bytes \<Rightarrow>
   pending_spatial_insert \<Rightarrow> unit lite_result \<times> 's" where
  "spatial_update_insert_entry so cd p s key entry = eq_update so cd (sp_durable_inserts p) s key entry"

definition spatial_update_delete_entry ::
  "'s storage_ops \<Rightarrow> pending_spatial_delete codec \<Rightarrow> spatial_outbound \<Rightarrow> 's \<Rightarrow> bytes \<Rightarrow>
   pending_spatial_delete \<Rightarrow> unit lite_result \<times> 's" where
  "spatial_update_delete_entry so cd p s key entry = eq_update so cd (sp_durable_deletes p) s key entry"

definition spatial_pending_insert_count :: "'s storage_ops \<Rightarrow> spatial_outbound \<Rightarrow> 's \<Rightarrow> u64 lite_result" where
  "spatial_pending_insert_count so p s = dq_len so (sp_durable_inserts p) s"

definition spatial_pending_delete_count :: "'s storage_ops \<Rightarrow> spatial_outbound \<Rightarrow> 's \<Rightarrow> u64 lite_result" where
  "spatial_pending_delete_count so p s = dq_len so (sp_durable_deletes p) s"

subsection \<open>Full-text search: staging\<close>

definition FTS_STAGING_CAP :: usize where
  "FTS_STAGING_CAP = 4096"

record pending_fts_index =
  fi_batch_id :: u64
  fi_collection :: string
  fi_doc_id :: string
  fi_fields :: "(string \<times> string) list"
  fi_seq :: u64

record pending_fts_delete =
  fd_batch_id :: u64
  fd_collection :: string
  fd_doc_id :: string
  fd_seq :: u64

record 'a staging_entry =
  se_payload :: 'a
  se_key :: "bytes option"

type_synonym 'a staging = "'a staging_entry list"

text \<open>\<open>build\<close> may fail; it runs under the staging lock, after the cap check, and the
  counter it draws from is threaded through.\<close>

definition admit :: "(u64 \<Rightarrow> 'a lite_result \<times> u64) \<Rightarrow> 'a staging \<times> u64 \<Rightarrow> unit lite_result \<times> 'a staging \<times> u64" where
  "admit build = (\<lambda>(entries, ids).
     if FTS_STAGING_CAP \<le> length entries then (Inl Backpressure, entries, ids)
     else case build ids of
            (Inl e, ids') \<Rightarrow> (Inl e, entries, ids')
          | (Inr payload, ids') \<Rightarrow> (Inr (), entries @ [\<lparr>se_payload = payload, se_key = None\<rparr>], ids'))"

definition front_reserved ::
  "'a staging \<times> durable_queue \<Rightarrow> (bytes \<times> 'a) option lite_result \<times> 'a staging \<times> durable_queue" where
  "front_reserved = (\<lambda>(entries, q).
     case entries of
       [] \<Rightarrow> (Inr None, entries, q)
     | entry # rest \<Rightarrow>
         (case se_key entry of
            Some key \<Rightarrow> (Inr (Some (key, se_payload entry)), entries, q)
          | None \<Rightarrow>
              (case reserve_key q of
                 (Inl e, q') \<Rightarrow> (Inl e, entries, q')
               | (Inr key, q') \<Rightarrow>
                   (Inr (Some (key, se_payload entry)), entry\<lparr>se_key := Some key\<rparr> # rest, q'))))"

definition remove_front :: "bytes \<Rightarrow> 'a staging \<Rightarrow> unit lite_result \<times> 'a staging" where
  "remove_front key entries =
     (case entries of
        [] \<Rightarrow> (Inl Serialization, entries)
      | entry # rest \<Rightarrow> if se_key entry \<noteq> Some key then (Inl Serialization, entries) else (Inr (), rest))"

definition reserved_keys :: "'a staging \<Rightarrow> bytes list" where
  "reserved_keys entries = List.map_filter se_key entries"

subsection \<open>Full-text search: the queue\<close>

record fts_outbound =
  ft_staging_indexes :: "pending_fts_index staging"
  ft_staging_deletes :: "pending_fts_delete staging"
  ft_durable_indexes :: durable_queue
  ft_durable_deletes :: durable_queue
  ft_ids :: u64
  ft_in_flight_indexes :: "(u64, bytes) hmap"
  ft_in_flight_deletes_map :: "(u64, bytes) hmap"

definition fts_open_with_cap :: "'s storage_ops \<Rightarrow> 's \<Rightarrow> usize \<Rightarrow> fts_outbound lite_result" where
  "fts_open_with_cap so s cap =
     rbind (dq_open_with_cap so s FtsIndexPending cap) (\<lambda>durable_indexes.
     rbind (dq_open_with_cap so s FtsDeletePending cap) (\<lambda>durable_deletes.
       Inr \<lparr>ft_staging_indexes = [], ft_staging_deletes = [],
            ft_durable_indexes = durable_indexes, ft_durable_deletes = durable_deletes, ft_ids = 1,
            ft_in_flight_indexes = [], ft_in_flight_deletes_map = []\<rparr>))"

definition fts_open :: "'s storage_ops \<Rightarrow> 's \<Rightarrow> fts_outbound lite_result" where
  "fts_open so s = fts_open_with_cap so s DEFAULT_CAP"

definition next_batch_id :: "u64 \<Rightarrow> u64 lite_result \<times> u64" where
  "next_batch_id ids =
     (case take_next ids of (Some i, ids') \<Rightarrow> (Inr i, ids') | (None, ids') \<Rightarrow> (Inl Backpressure, ids'))"

text \<open>\<open>staging_error\<close> rewrites the text of a backpressure error only.\<close>

definition staging_error :: "lite_error \<Rightarrow> lite_error" where
  "staging_error e = (case e of Backpressure \<Rightarrow> Backpressure | other \<Rightarrow> other)"

definition stage_index ::
  "string \<Rightarrow> string \<Rightarrow> (string \<times> string) list \<Rightarrow> fts_outbound \<Rightarrow> unit lite_result \<times> fts_outbound" where
  "stage_index collection doc_id field_texts f =
     (case admit (\<lambda>ids. case next_batch_id ids of
             (Inl e, ids') \<Rightarrow> (Inl e, ids')
           | (Inr i, ids') \<Rightarrow> (Inr \<lparr>fi_batch_id = i, fi_collection = collection, fi_doc_id = doc_id,
                                   fi_fields = field_texts, fi_seq = 0\<rparr>, ids'))
           (ft_staging_indexes f, ft_ids f) of
        (r, st, ids) \<Rightarrow> (map_err staging_error r, f\<lparr>ft_staging_indexes := st, ft_ids := ids\<rparr>))"

definition fts_stage_delete :: "string \<Rightarrow> string \<Rightarrow> fts_outbound \<Rightarrow> unit lite_result \<times> fts_outbound" where
  "fts_stage_delete collection doc_id f =
     (case admit (\<lambda>ids. case next_batch_id ids of
             (Inl e, ids') \<Rightarrow> (Inl e, ids')
           | (Inr i, ids') \<Rightarrow> (Inr \<lparr>fd_batch_id = i, fd_collection = collection, fd_doc_id = doc_id,
                                   fd_seq = 0\<rparr>, ids'))
           (ft_staging_deletes f, ft_ids f) of
        (r, st, ids) \<Rightarrow> (map_err staging_error r, f\<lparr>ft_staging_deletes := st, ft_ids := ids\<rparr>))"

text \<open>The loop \<open>while let Some((key, entry)) = staging.front_reserved(durable)?\<close>; each round
  that continues removes the front entry.\<close>

function spill ::
  "'s storage_ops \<Rightarrow> 'a codec \<Rightarrow> 'a staging \<Rightarrow> durable_queue \<Rightarrow> 's \<Rightarrow>
   unit lite_result \<times> 'a staging \<times> durable_queue \<times> 's" where
  "spill so cd staging q s =
     (case front_reserved (staging, q) of
        (Inl e, staging, q) \<Rightarrow> (Inl e, staging, q, s)
      | (Inr None, staging, q) \<Rightarrow> (Inr (), staging, q, s)
      | (Inr (Some (key, entry)), staging, q) \<Rightarrow>
          (case cd_enc cd entry of
             None \<Rightarrow> (Inl Serialization, staging, q, s)
           | Some payload \<Rightarrow>
               (case persist_reserved so q s key payload of
                  (Inl e, s) \<Rightarrow> (Inl e, staging, q, s)
                | (Inr _, s) \<Rightarrow>
                    (case remove_front key staging of
                       (Inl e, staging) \<Rightarrow> (Inl e, staging, q, s)
                     | (Inr _, staging) \<Rightarrow> spill so cd staging q s))))"
  by pat_completeness auto

lemma front_reserved_length: "front_reserved (st, q) = (r, st', q') \<Longrightarrow> length st' = length st"
  by (auto simp: front_reserved_def split: list.splits option.splits prod.splits sum.splits)

lemma remove_front_length: "remove_front key st = (Inr u, st') \<Longrightarrow> length st = Suc (length st')"
  by (auto simp: remove_front_def split: list.splits if_splits)

lemma spill_shrinks:
  "front_reserved (st, q) = (r, st1, q1) \<Longrightarrow> remove_front key st1 = (Inr u, st2) \<Longrightarrow> length st2 < length st"
  using front_reserved_length [of st q r st1 q1] remove_front_length [of key st1 u st2] by simp

termination spill
  by (relation "measure (\<lambda>(so, cd, st, q, s). length st)")
    (auto intro: spill_shrinks [OF sym sym])

definition spill_locked ::
  "'s storage_ops \<Rightarrow> pending_fts_index codec \<Rightarrow> pending_fts_delete codec \<Rightarrow>
   fts_outbound \<times> 's \<Rightarrow> unit lite_result \<times> fts_outbound \<times> 's" where
  "spill_locked so ci cdel = (\<lambda>(f, s).
     case spill so ci (ft_staging_indexes f) (ft_durable_indexes f) s of
       (indexes, si, qi, s) \<Rightarrow>
         (case spill so cdel (ft_staging_deletes f) (ft_durable_deletes f) s of
            (deletes, sd, qd, s) \<Rightarrow>
              ((case (indexes, deletes) of
                  (Inl e, Inl e2) \<Rightarrow>
                    if e \<noteq> Backpressure then Inl e else if e2 \<noteq> Backpressure then Inl e2 else Inl e
                | (Inl e, Inr _) \<Rightarrow> Inl e
                | (Inr _, Inl e) \<Rightarrow> Inl e
                | (Inr _, Inr _) \<Rightarrow> Inr ()),
               f\<lparr>ft_staging_indexes := si, ft_durable_indexes := qi,
                 ft_staging_deletes := sd, ft_durable_deletes := qd\<rparr>,
               s)))"

definition fts_flush_staging ::
  "'s storage_ops \<Rightarrow> pending_fts_index codec \<Rightarrow> pending_fts_delete codec \<Rightarrow>
   fts_outbound \<times> 's \<Rightarrow> unit lite_result \<times> fts_outbound \<times> 's" where
  "fts_flush_staging so ci cdel st = spill_locked so ci cdel st"

definition fts_drain_indexes ::
  "'s storage_ops \<Rightarrow> pending_fts_index codec \<Rightarrow> pending_fts_delete codec \<Rightarrow> usize \<Rightarrow>
   fts_outbound \<times> 's \<Rightarrow> (bytes \<times> pending_fts_index) list lite_result \<times> fts_outbound \<times> 's" where
  "fts_drain_indexes so ci cdel limit st =
     (case spill_locked so ci cdel st of
        (r, f, s) \<Rightarrow>
          if (case r of Inl e \<Rightarrow> e \<noteq> Backpressure | Inr _ \<Rightarrow> False) then (Inl (projl r), f, s)
          else (let excluded = reserved_keys (ft_staging_indexes f) @ map snd (ft_in_flight_indexes f)
                in (eq_drain so ci (\<lambda>key. key \<in> set excluded) (ft_durable_indexes f) s limit, f, s)))"

definition fts_drain_deletes ::
  "'s storage_ops \<Rightarrow> pending_fts_index codec \<Rightarrow> pending_fts_delete codec \<Rightarrow> usize \<Rightarrow>
   fts_outbound \<times> 's \<Rightarrow> (bytes \<times> pending_fts_delete) list lite_result \<times> fts_outbound \<times> 's" where
  "fts_drain_deletes so ci cdel limit st =
     (case spill_locked so ci cdel st of
        (r, f, s) \<Rightarrow>
          if (case r of Inl e \<Rightarrow> e \<noteq> Backpressure | Inr _ \<Rightarrow> False) then (Inl (projl r), f, s)
          else (let excluded = reserved_keys (ft_staging_deletes f) @ map snd (ft_in_flight_deletes_map f)
                in (eq_drain so cdel (\<lambda>key. key \<in> set excluded) (ft_durable_deletes f) s limit, f, s)))"

definition fts_mark_index_in_flight :: "u64 \<Rightarrow> bytes \<Rightarrow> fts_outbound \<Rightarrow> fts_outbound" where
  "fts_mark_index_in_flight batch_id durable_key f =
     f\<lparr>ft_in_flight_indexes := hm_insert batch_id durable_key (ft_in_flight_indexes f)\<rparr>"

definition fts_ack_index_in_flight :: "u64 \<Rightarrow> fts_outbound \<Rightarrow> bytes option \<times> fts_outbound" where
  "fts_ack_index_in_flight batch_id f =
     (hm_get (ft_in_flight_indexes f) batch_id,
      f\<lparr>ft_in_flight_indexes := hm_remove batch_id (ft_in_flight_indexes f)\<rparr>)"

definition fts_mark_delete_in_flight :: "u64 \<Rightarrow> bytes \<Rightarrow> fts_outbound \<Rightarrow> fts_outbound" where
  "fts_mark_delete_in_flight batch_id durable_key f =
     f\<lparr>ft_in_flight_deletes_map := hm_insert batch_id durable_key (ft_in_flight_deletes_map f)\<rparr>"

definition fts_ack_delete_in_flight :: "u64 \<Rightarrow> fts_outbound \<Rightarrow> bytes option \<times> fts_outbound" where
  "fts_ack_delete_in_flight batch_id f =
     (hm_get (ft_in_flight_deletes_map f) batch_id,
      f\<lparr>ft_in_flight_deletes_map := hm_remove batch_id (ft_in_flight_deletes_map f)\<rparr>)"

definition fts_clear_in_flight :: "fts_outbound \<Rightarrow> fts_outbound" where
  "fts_clear_in_flight f = f\<lparr>ft_in_flight_indexes := [], ft_in_flight_deletes_map := []\<rparr>"

definition fts_ack_index_keys ::
  "'s storage_ops \<Rightarrow> fts_outbound \<Rightarrow> 's \<Rightarrow> bytes list \<Rightarrow> unit lite_result \<times> 's" where
  "fts_ack_index_keys so f s keys = dq_ack_keys so (ft_durable_indexes f) s keys"

definition fts_ack_delete_keys ::
  "'s storage_ops \<Rightarrow> fts_outbound \<Rightarrow> 's \<Rightarrow> bytes list \<Rightarrow> unit lite_result \<times> 's" where
  "fts_ack_delete_keys so f s keys = dq_ack_keys so (ft_durable_deletes f) s keys"

definition fts_update_index_entry ::
  "'s storage_ops \<Rightarrow> pending_fts_index codec \<Rightarrow> fts_outbound \<Rightarrow> 's \<Rightarrow> bytes \<Rightarrow> pending_fts_index \<Rightarrow>
   unit lite_result \<times> 's" where
  "fts_update_index_entry so cd f s key entry = eq_update so cd (ft_durable_indexes f) s key entry"

definition fts_update_delete_entry ::
  "'s storage_ops \<Rightarrow> pending_fts_delete codec \<Rightarrow> fts_outbound \<Rightarrow> 's \<Rightarrow> bytes \<Rightarrow> pending_fts_delete \<Rightarrow>
   unit lite_result \<times> 's" where
  "fts_update_delete_entry so cd f s key entry = eq_update so cd (ft_durable_deletes f) s key entry"

definition fts_pending_index_count :: "'s storage_ops \<Rightarrow> fts_outbound \<Rightarrow> 's \<Rightarrow> u64 lite_result" where
  "fts_pending_index_count so f s = dq_len so (ft_durable_indexes f) s"

definition fts_pending_delete_count :: "'s storage_ops \<Rightarrow> fts_outbound \<Rightarrow> 's \<Rightarrow> u64 lite_result" where
  "fts_pending_delete_count so f s = dq_len so (ft_durable_deletes f) s"

declare spill.simps [simp del]

subsection \<open>Spilling a spatial buffer\<close>

lemma fold_requeue:
  "\<not> pq_poisoned q \<Longrightarrow> fold pq_requeue (rev xs) q = q\<lparr>pq_items := xs @ pq_items q\<rparr>"
  by (induction xs arbitrary: q) (simp_all add: pq_requeue_def)

text \<open>\<open>spilled\<close>: the first entries are stored at the tail of the queue in order, the rest
  are not, and no other namespace changes.\<close>

definition spilled ::
  "'a codec \<Rightarrow> namespace \<Rightarrow> rows \<Rightarrow> durable_queue \<Rightarrow> rows \<Rightarrow> durable_queue \<Rightarrow> 'a list \<Rightarrow> bool" where
  "spilled cd ns m q m' q' stored \<longleftrightarrow>
     map snd (dq_contents m' q') = map snd (dq_contents m q) @ map (\<lambda>e. the (cd_enc cd e)) stored \<and>
     list_all (\<lambda>e. cd_enc cd e \<noteq> None) stored \<and> (\<forall>other. other \<noteq> ns \<longrightarrow> m' other = m other)"

context outbound_store
begin

lemma spill_loop_collects:
  "spill_loop so cd es True failed q s = (Inr (True, failed @ es), q, s)"
  by (induction es arbitrary: failed) simp_all

lemma spill_loop_ok:
  assumes "store_inv s" "dq_namespace q = ns" "dq_inv (rows_of s) q"
    and "spill_loop so cd es bp failed q s = (Inr (bp', failed'), q', s')"
  shows "\<exists>stored rest. es = stored @ rest \<and> failed' = failed @ rest \<and> spilled cd ns (rows_of s) q (rows_of s') q' stored \<and>
    store_inv s' \<and> dq_namespace q' = ns \<and> dq_inv (rows_of s') q' \<and> (bp \<longrightarrow> stored = [])"
  using assms
proof (induction es arbitrary: q s)
  case Nil
  then show ?case by (auto simp: spilled_def)
next
  case (Cons e es)
  show ?case
  proof (cases bp)
    case True
    then have "spill_loop so cd (e # es) bp failed q s = (Inr (True, failed @ e # es), q, s)"
      using spill_loop_collects [of cd "e # es" failed q s] by simp
    then show ?thesis
      using Cons.prems True by (auto intro!: exI [of _ "[]"] simp: spilled_def)
  next
    case False
    then obtain payload where enc: "cd_enc cd e = Some payload"
      using Cons.prems(4) by (auto split: option.splits)
    obtain r q1 s1 where enq: "dq_enqueue so q s payload = (r, q1, s1)"
      by (cases "dq_enqueue so q s payload")
    from Cons.prems(1-3) enq show ?thesis
    proof (cases rule: enqueue_cases)
      case ok
      have "spill_loop so cd es bp failed q1 s1 = (Inr (bp', failed'), q', s')"
        using Cons.prems(4) False enc enq ok(1) by simp
      from Cons.IH [OF ok(6,7,5) this] obtain stored rest where ih: "es = stored @ rest" "failed' = failed @ rest"
        "spilled cd ns (rows_of s1) q1 (rows_of s') q' stored" "store_inv s'" "dq_namespace q' = ns" "dq_inv (rows_of s') q'"
        by blast
      have "spilled cd ns (rows_of s) q (rows_of s') q' (e # stored)"
        using ih(3) ok(3) enc by (simp add: spilled_def ok(2))
      then show ?thesis
        using ih False by (intro exI [of _ "e # stored"] exI [of _ rest]) simp
    next
      case (err x)
      have "x = Backpressure" "spill_loop so cd es True (failed @ [e]) q1 s1 = (Inr (bp', failed'), q', s')"
        using Cons.prems(4) False enc enq err(1) by (auto split: if_splits)
      then have "failed' = failed @ e # es" "q' = q1" "s' = s1"
        using spill_loop_collects [of cd es "failed @ [e]" q1 s1] by auto
      then have "e # es = [] @ (e # es) \<and> failed' = failed @ (e # es) \<and>
          spilled cd ns (rows_of s) q (rows_of s') q' [] \<and> store_inv s' \<and> dq_namespace q' = ns \<and> dq_inv (rows_of s') q'"
        using err Cons.prems(2) by (simp add: spilled_def dq_contents_def)
      then show ?thesis by blast
    qed
  qed
qed

end

subsection \<open>Spilling a full-text buffer\<close>

text \<open>The invariant of staging against its durable queue: only the front entry can hold a
  reserved key; that key is below the counter, above every stored key but itself, and if
  it is already stored, it is stored with the front's own payload (a write that finished
  before its caller saw it finish).\<close>

fun staging_ok :: "rows \<Rightarrow> 'a codec \<Rightarrow> durable_queue \<Rightarrow> 'a staging \<Rightarrow> bool" where
  "staging_ok m cd q [] = True"
| "staging_ok m cd q (entry # rest) =
     (list_all (\<lambda>e. se_key e = None) rest \<and>
      (case se_key entry of
         None \<Rightarrow> True
       | Some k \<Rightarrow> length k = 8 \<and> u64_from_be_bytes k < dq_next_id q \<and>
           (\<forall>k' \<in> dom (m (dq_namespace q)). k' \<le> k) \<and>
           (\<forall>v. m (dq_namespace q) k = Some v \<longrightarrow> cd_enc cd (se_payload entry) = Some v)))"

text \<open>What is still to be delivered: the stored payloads, then the staged entries that are
  not stored yet.\<close>

fun unstored :: "rows \<Rightarrow> durable_queue \<Rightarrow> 'a staging \<Rightarrow> 'a staging" where
  "unstored m q [] = []"
| "unstored m q (entry # rest) =
     (case se_key entry of
        Some k \<Rightarrow> if m (dq_namespace q) k \<noteq> None then rest else entry # rest
      | None \<Rightarrow> entry # rest)"

definition to_deliver :: "rows \<Rightarrow> 'a codec \<Rightarrow> durable_queue \<Rightarrow> 'a staging \<Rightarrow> bytes option list" where
  "to_deliver m cd q st = map (Some \<circ> snd) (dq_contents m q) @ map (cd_enc cd \<circ> se_payload) (unstored m q st)"

lemma front_reserved_cases:
  assumes "front_reserved (st, q) = (r, st', q')" "staging_ok m cd q st" "dq_inv m q"
  obtains (empty) "st = []" "st' = []" "q' = q" "r = Inr None"
    | (fail) e where "r = Inl e" "st' = st" "dq_inv m q'" "staging_ok m cd q' st'" "dq_namespace q' = dq_namespace q"
        "to_deliver m cd q' st' = to_deliver m cd q st"
    | (front) key entry rest where "st' = entry # rest" "r = Inr (Some (key, se_payload entry))" "se_key entry = Some key"
        "dq_inv m q'" "staging_ok m cd q' st'" "dq_namespace q' = dq_namespace q"
        "to_deliver m cd q' st' = to_deliver m cd q st"
proof (cases st)
  case Nil
  then show thesis using assms(1) by (intro empty) (auto simp: front_reserved_def)
next
  case (Cons entry rest)
  show thesis
  proof (cases "se_key entry")
    case (Some key)
    then show thesis
      using assms Cons by (intro front [of entry rest key]) (auto simp: front_reserved_def)
  next
    case None
    show thesis
    proof (cases "dq_next_id q = u64_max")
      case True
      then have "reserve_key q = (Inl dq_exhausted, q\<lparr>dq_next_id := u64_max\<rparr>)"
        using take_next_None [of u64_max u64_max] by (simp add: reserve_key_def)
      then show thesis
        using assms Cons None True
        by (intro fail [of dq_exhausted]) (auto simp: front_reserved_def to_deliver_def dq_contents_def dq_inv_def)
    next
      case False
      let ?k = "u64_to_be_bytes (dq_next_id q)"
      let ?q = "q\<lparr>dq_next_id := dq_next_id q + 1\<rparr>"
      have res: "reserve_key q = (Inr ?k, ?q)"
        using False by (auto simp: reserve_key_def take_next_def u64_checked_add_one_Some split: option.splits)
      note lt = u64_succ_gt(1) [OF False]
      have below: "k' \<in> dom (m (dq_namespace q)) \<Longrightarrow> k' < ?k" for k'
        by (rule dq_inv_key_less [OF assms(3)])
      then have fresh: "m (dq_namespace q) ?k = None"
        by (metis domIff less_irrefl)
      have inv: "dq_inv m ?q"
        using assms(3) lt by (auto simp: dq_inv_def intro: less_trans)
      have r: "r = Inr (Some (?k, se_payload entry))" "st' = entry\<lparr>se_key := Some ?k\<rparr> # rest" "q' = ?q"
        using assms(1) Cons None res by (simp_all add: front_reserved_def)
      have "\<forall>k' \<in> dom (m (dq_namespace q)). k' \<le> ?k"
        using below by (simp add: less_imp_le)
      then have ok: "staging_ok m cd q' st'"
        using assms(2) Cons lt fresh by (simp add: r)
      have "to_deliver m cd q' st' = to_deliver m cd q st"
        using Cons None fresh by (simp add: r to_deliver_def dq_contents_def)
      then show thesis
        using inv ok by (intro front [of "entry\<lparr>se_key := Some ?k\<rparr>" rest ?k]) (simp_all add: r)
    qed
  qed
qed

definition delivered_same ::
  "namespace \<Rightarrow> 'a codec \<Rightarrow> rows \<Rightarrow> durable_queue \<Rightarrow> 'a staging \<Rightarrow> rows \<Rightarrow> durable_queue \<Rightarrow> 'a staging \<Rightarrow> bool" where
  "delivered_same ns cd m q st m' q' st' \<longleftrightarrow>
     dq_namespace q' = ns \<and> dq_inv m' q' \<and> staging_ok m' cd q' st' \<and>
     to_deliver m' cd q' st' = to_deliver m cd q st \<and> (\<forall>other. other \<noteq> ns \<longrightarrow> m' other = m other)"

lemma unstored_no_keys: "list_all (\<lambda>e. se_key e = None) st \<Longrightarrow> unstored m q st = st"
  by (cases st) auto

lemma staging_ok_no_keys: "list_all (\<lambda>e. se_key e = None) st \<Longrightarrow> staging_ok m cd q st"
  by (cases st) auto

context outbound_store
begin

lemma persist_front:
  assumes "store_inv s" "dq_namespace q = ns" "dq_inv (rows_of s) q" "staging_ok (rows_of s) cd q (entry # rest)"
    and "se_key entry = Some key" "cd_enc cd (se_payload entry) = Some payload"
    and "persist_reserved so q s key payload = (Inr u, s')"
  shows "store_inv s'" "dq_inv (rows_of s') q" "staging_ok (rows_of s') cd q rest"
    "to_deliver (rows_of s') cd q rest = to_deliver (rows_of s) cd q (entry # rest)"
    "other \<noteq> ns \<Longrightarrow> rows_of s' other = rows_of s other"
proof -
  have rest: "list_all (\<lambda>e. se_key e = None) rest"
    and key: "length key = 8" "u64_from_be_bytes key < dq_next_id q" "\<forall>k' \<in> dom (rows_of s ns). k' \<le> key"
    using assms(2,4,5) by auto
  note nk = unstored_no_keys [OF rest] staging_ok_no_keys [OF rest]
  have "store_inv s' \<and> dq_inv (rows_of s') q \<and>
    to_deliver (rows_of s') cd q rest = to_deliver (rows_of s) cd q (entry # rest) \<and>
    (\<forall>other. other \<noteq> ns \<longrightarrow> rows_of s' other = rows_of s other)"
  proof (cases "rows_of s ns key")
    case (Some v)
    then have "s' = s"
      using get_law [OF assms(1), of ns key] assms(2,7)
      by (auto simp: persist_reserved_def split: sum.splits option.splits)
    then show ?thesis
      using assms(1-3,5) Some by (simp add: to_deliver_def nk)
  next
    case None
    have p: "so_put so s ns key payload = (Inr u, s')"
      using get_law [OF assms(1), of ns key] assms(2,7) None
      by (auto simp: persist_reserved_def split: sum.splits option.splits)
    have rows: "rows_of s' = rows_apply (rows_of s) (Put ns key payload)"
      by (rule put_ok [OF assms(1) p])
    have less: "k' \<in> dom (rows_of s ns) \<Longrightarrow> k' < key" for k'
      using key(3) None by (metis domIff order_le_less)
    have "dq_contents (rows_of s') q = dq_contents (rows_of s) q @ [(key, payload)]"
      using entries_where_insert_max [OF finite_rows [OF assms(1)] less] assms(2)
      by (simp add: dq_contents_def rows)
    moreover have "dq_inv (rows_of s') q"
      using assms(2,3) key by (auto simp: dq_inv_def rows)
    ultimately show ?thesis
      using put_inv [OF assms(1) p] assms(2,5,6) None by (simp add: to_deliver_def nk rows)
  qed
  then show "store_inv s'" "dq_inv (rows_of s') q" "staging_ok (rows_of s') cd q rest"
    "to_deliver (rows_of s') cd q rest = to_deliver (rows_of s) cd q (entry # rest)"
    "other \<noteq> ns \<Longrightarrow> rows_of s' other = rows_of s other"
    using nk by auto
qed

lemma persist_reserved_err:
  assumes "store_inv s" "persist_reserved so q s key payload = (Inl e, s')"
  shows "rows_of s' = rows_of s" "store_inv s'"
  using assms put_err [OF assms(1)] put_inv [OF assms(1)]
  by (auto simp: persist_reserved_def split: sum.splits option.splits)

lemma spill_conserves:
  assumes "store_inv s" "dq_namespace q = ns" "dq_inv (rows_of s) q" "staging_ok (rows_of s) cd q st"
    and "spill so cd st q s = (r, st', q', s')"
  shows "store_inv s' \<and> delivered_same ns cd (rows_of s) q st (rows_of s') q' st' \<and> (is_ok r \<longrightarrow> st' = [])"
  using assms
proof (induction st arbitrary: q s rule: length_induct)
  case (1 st)
  note inv = 1(2-5) and run = 1(6)
  obtain fr st1 q1 where f: "front_reserved (st, q) = (fr, st1, q1)"
    by (cases "front_reserved (st, q)")
  from f inv(4,3) show ?case
  proof (cases rule: front_reserved_cases)
    case empty
    then show ?thesis using inv run f by (subst (asm) spill.simps) (auto simp: delivered_same_def)
  next
    case (fail e)
    then show ?thesis using inv run f by (subst (asm) spill.simps) (auto simp: delivered_same_def)
  next
    case (front key entry rest)
    have ns1: "dq_namespace q1 = ns" using front(6) inv(2) by simp
    note ok1 = front(5) [unfolded front(1)]
    show ?thesis
    proof (cases "cd_enc cd (se_payload entry)")
      case None
      then show ?thesis
        using inv run f front by (subst (asm) spill.simps) (auto simp: delivered_same_def)
    next
      case (Some payload)
      obtain pr s1 where p: "persist_reserved so q1 s key payload = (pr, s1)"
        by (cases "persist_reserved so q1 s key payload")
      show ?thesis
      proof (cases pr)
        case (Inl e)
        note same = persist_reserved_err [OF inv(1) p [unfolded Inl]]
        have "st' = st1" "q' = q1" "s' = s1" "r = Inl e"
          using run f front(1,2) Some p Inl by (subst (asm) spill.simps; simp)+
        then show ?thesis
          using same front(4-7) ns1 by (simp add: delivered_same_def)
      next
        case (Inr u)
        note pf = persist_front [OF inv(1) ns1 front(4) ok1 front(3) Some p [unfolded Inr]]
        have "remove_front key st1 = (Inr (), rest)"
          using front(1,3) by (simp add: remove_front_def)
        then have "spill so cd rest q1 s1 = (r, st', q', s')" and "length rest < length st"
          using run f front(1,2) Some p Inr spill_shrinks [OF f] by (subst (asm) spill.simps; simp)+
        with 1(1) have "store_inv s' \<and> delivered_same ns cd (rows_of s1) q1 rest (rows_of s') q' st' \<and> (is_ok r \<longrightarrow> st' = [])"
          using pf(1-3) ns1 by blast
        then show ?thesis
          using pf(4,5) front(1,7) by (simp add: delivered_same_def)
      qed
    qed
  qed
qed

end

lemma queue_view_cong:
  assumes "m' (dq_namespace q) = m (dq_namespace q)"
  shows "dq_contents m' q = dq_contents m q" "dq_inv m' q = dq_inv m q"
    "staging_ok m' cd q st = staging_ok m cd q st" "to_deliver m' cd q st = to_deliver m cd q st"
  using assms by (cases st; simp add: dq_contents_def dq_inv_def to_deliver_def split: option.splits)+

lemma spill_loop_err: "spill_loop so cd es bp failed q s = (Inl e, q', s') \<Longrightarrow> e \<noteq> Backpressure"
  by (induction so cd es bp failed q s rule: spill_loop.induct)
    (auto split: if_splits option.splits prod.splits sum.splits)

subsection \<open>Properties\<close>

text \<open>
  C14. A spatial flush that succeeds or meets backpressure loses nothing and keeps the
  order: of each kind, the first staged entries are appended to the durable queue in
  staging order and the remaining ones are back in the staging buffer, in order.
\<close>

theorem spatial_flush_conserves:
  assumes "outbound_store so rows_of store_inv hidden SpatialInsertPending"
    and "outbound_store so rows_of store_inv hidden SpatialDeletePending" "store_inv s"
    and "dq_namespace (sp_durable_inserts p) = SpatialInsertPending" "dq_inv (rows_of s) (sp_durable_inserts p)"
    and "dq_namespace (sp_durable_deletes p) = SpatialDeletePending" "dq_inv (rows_of s) (sp_durable_deletes p)"
    and "\<not> pq_poisoned (sp_staging_inserts p)" "\<not> pq_poisoned (sp_staging_deletes p)"
    and "spatial_flush_staging so ci cdel (p, s) = (r, p', s')" "r = Inr () \<or> r = Inl Backpressure"
  shows "(\<exists>stored. pq_items (sp_staging_inserts p) = stored @ pq_items (sp_staging_inserts p') \<and>
            map snd (dq_contents (rows_of s') (sp_durable_inserts p'))
              = map snd (dq_contents (rows_of s) (sp_durable_inserts p)) @ map (\<lambda>e. the (cd_enc ci e)) stored) \<and>
         (\<exists>stored. pq_items (sp_staging_deletes p) = stored @ pq_items (sp_staging_deletes p') \<and>
            map snd (dq_contents (rows_of s') (sp_durable_deletes p'))
              = map snd (dq_contents (rows_of s) (sp_durable_deletes p)) @ map (\<lambda>e. the (cd_enc cdel e)) stored)"
proof -
  obtain bp fi qi s1 where l1: "spill_loop so ci (pq_items (sp_staging_inserts p)) False [] (sp_durable_inserts p) s
      = (Inr (bp, fi), qi, s1)"
    using assms(8,10,11)
    by (auto simp: spatial_flush_staging_def pq_drain_def Let_def dest: spill_loop_err split: prod.splits sum.splits)
  obtain bp' fd qd where l2: "spill_loop so cdel (pq_items (sp_staging_deletes p)) bp [] (sp_durable_deletes p) s1
      = (Inr (bp', fd), qd, s')"
    using assms(8-11) l1
    by (auto simp: spatial_flush_staging_def pq_drain_def Let_def dest: spill_loop_err split: prod.splits sum.splits)
  have p': "pq_items (sp_staging_inserts p') = fi" "pq_items (sp_staging_deletes p') = fd"
    "sp_durable_inserts p' = qi" "sp_durable_deletes p' = qd"
    using assms(8-10) l1 l2 by (auto simp: spatial_flush_staging_def pq_drain_def Let_def fold_requeue)
  obtain stored where st: "pq_items (sp_staging_inserts p) = stored @ fi"
    "spilled ci SpatialInsertPending (rows_of s) (sp_durable_inserts p) (rows_of s1) qi stored"
    "store_inv s1" "dq_namespace qi = SpatialInsertPending"
    using outbound_store.spill_loop_ok [OF assms(1,3,4,5) l1] by auto
  have d1: "rows_of s1 SpatialDeletePending = rows_of s SpatialDeletePending"
    using st(2) by (simp add: spilled_def)
  then have "dq_inv (rows_of s1) (sp_durable_deletes p)"
    using assms(6,7) queue_view_cong(2) by metis
  from outbound_store.spill_loop_ok [OF assms(2) st(3) assms(6) this l2]
  obtain stored2 where st2: "pq_items (sp_staging_deletes p) = stored2 @ fd"
    "spilled cdel SpatialDeletePending (rows_of s1) (sp_durable_deletes p) (rows_of s') qd stored2"
    by auto
  have "rows_of s' SpatialInsertPending = rows_of s1 SpatialInsertPending"
    using st2(2) by (simp add: spilled_def)
  then have "dq_contents (rows_of s') qi = dq_contents (rows_of s1) qi"
    using st(4) by (intro queue_view_cong) simp
  moreover have "dq_contents (rows_of s1) (sp_durable_deletes p) = dq_contents (rows_of s) (sp_durable_deletes p)"
    using d1 assms(6) by (intro queue_view_cong) simp
  ultimately show ?thesis
    using st(1,2) st2 by (simp add: p' spilled_def)
qed

text \<open>
  C15. A spatial flush that meets any other storage error loses entries: when the first
  staged insert cannot be written, the flush fails with the staging buffer already
  empty and nothing of it stored.
\<close>

theorem spatial_flush_loses:
  assumes "outbound_store so rows_of store_inv hidden SpatialInsertPending" "store_inv s"
    and "dq_namespace (sp_durable_inserts p) = SpatialInsertPending" "dq_inv (rows_of s) (sp_durable_inserts p)"
    and "\<not> pq_poisoned (sp_staging_inserts p)" "pq_items (sp_staging_inserts p) = entry # rest"
    and "cd_enc ci entry = Some payload"
    and "dq_enqueue so (sp_durable_inserts p) s payload = (Inl e, q', s')" "e \<noteq> Backpressure"
    and "spatial_flush_staging so ci cdel (p, s) = (r, p', s'')"
  shows "r = Inl e \<and> pq_items (sp_staging_inserts p') = [] \<and> rows_of s'' = rows_of s"
proof -
  have "spatial_flush_staging so ci cdel (p, s)
      = (Inl e, p\<lparr>sp_staging_inserts := (sp_staging_inserts p)\<lparr>pq_items := []\<rparr>, sp_durable_inserts := q'\<rparr>, s')"
    using assms(5-9) by (simp add: spatial_flush_staging_def pq_drain_def Let_def)
  moreover have "rows_of s' = rows_of s"
    using outbound_store.enqueue_cases [OF assms(1-4,8)] by blast
  ultimately show ?thesis
    using assms(10) by auto
qed

text \<open>
  C13. A full-text flush never loses or reorders an entry, whatever storage does: for
  success, backpressure, an encoding error or any storage error, and also when a write of
  the front entry had finished unnoticed before, the stored payloads followed by the
  staged entries not yet stored are the same sequence before and after, for both kinds;
  after a successful flush nothing is staged.
\<close>

theorem fts_flush_conserves:
  assumes "outbound_store so rows_of store_inv hidden FtsIndexPending"
    and "outbound_store so rows_of store_inv hidden FtsDeletePending" "store_inv s"
    and "dq_namespace (ft_durable_indexes f) = FtsIndexPending" "dq_inv (rows_of s) (ft_durable_indexes f)"
    and "dq_namespace (ft_durable_deletes f) = FtsDeletePending" "dq_inv (rows_of s) (ft_durable_deletes f)"
    and "staging_ok (rows_of s) ci (ft_durable_indexes f) (ft_staging_indexes f)"
    and "staging_ok (rows_of s) cdel (ft_durable_deletes f) (ft_staging_deletes f)"
    and "fts_flush_staging so ci cdel (f, s) = (r, f', s')"
  shows "to_deliver (rows_of s') ci (ft_durable_indexes f') (ft_staging_indexes f')
           = to_deliver (rows_of s) ci (ft_durable_indexes f) (ft_staging_indexes f) \<and>
         to_deliver (rows_of s') cdel (ft_durable_deletes f') (ft_staging_deletes f')
           = to_deliver (rows_of s) cdel (ft_durable_deletes f) (ft_staging_deletes f) \<and>
         staging_ok (rows_of s') ci (ft_durable_indexes f') (ft_staging_indexes f') \<and>
         staging_ok (rows_of s') cdel (ft_durable_deletes f') (ft_staging_deletes f') \<and>
         (r = Inr () \<longrightarrow> ft_staging_indexes f' = [] \<and> ft_staging_deletes f' = [])"
proof -
  obtain r1 si qi s1 where l1: "spill so ci (ft_staging_indexes f) (ft_durable_indexes f) s = (r1, si, qi, s1)"
    by (cases "spill so ci (ft_staging_indexes f) (ft_durable_indexes f) s")
  obtain r2 sd qd s2 where l2: "spill so cdel (ft_staging_deletes f) (ft_durable_deletes f) s1 = (r2, sd, qd, s2)"
    by (cases "spill so cdel (ft_staging_deletes f) (ft_durable_deletes f) s1")
  have f': "ft_staging_indexes f' = si" "ft_durable_indexes f' = qi" "ft_staging_deletes f' = sd"
    "ft_durable_deletes f' = qd" "s' = s2" and r: "r = Inr () \<longrightarrow> is_ok r1 \<and> is_ok r2"
    using assms(10) l1 l2
    by (auto simp: fts_flush_staging_def spill_locked_def is_ok_def split: sum.splits if_splits)
  note c1 = outbound_store.spill_conserves [OF assms(1,3,4,5,8) l1, unfolded delivered_same_def]
  have d: "rows_of s1 (dq_namespace (ft_durable_deletes f)) = rows_of s (dq_namespace (ft_durable_deletes f))"
    using c1 assms(6) by simp
  note dd = queue_view_cong [of "rows_of s1" "ft_durable_deletes f" "rows_of s", OF d]
  have "dq_inv (rows_of s1) (ft_durable_deletes f)" "staging_ok (rows_of s1) cdel (ft_durable_deletes f) (ft_staging_deletes f)"
    using assms(7,9) by (simp_all add: dd)
  note c2 = outbound_store.spill_conserves [OF assms(2) _ assms(6) this l2, unfolded delivered_same_def]
  have i: "rows_of s2 (dq_namespace qi) = rows_of s1 (dq_namespace qi)"
    using c1 c2 by simp
  note ii = queue_view_cong [of "rows_of s2" qi "rows_of s1", OF i]
  show ?thesis
    using c1 c2 r by (simp add: f' dd ii)
qed

subsection \<open>Witnesses\<close>

text \<open>Codecs for entries with empty texts, and a store whose cipher refuses to encrypt, so
  that every write fails.\<close>

lemma demo_rows_empty [simp]: "pagedb_rows map_of demo_nsb [] = (\<lambda>_ _. None)"
  by (simp add: pagedb_rows_def fun_eq_iff)

lemma mute_rows_empty [simp]: "enc_rows env (pagedb_rows map_of demo_nsb) [] = (\<lambda>_ _. None)"
  by (simp add: enc_rows_def fun_eq_iff)

definition demo_si_codec :: "pending_spatial_insert codec" where
  "demo_si_codec = \<lparr>cd_enc = (\<lambda>e. Some (u64_to_be_bytes (si_batch_id e))), cd_dec = (\<lambda>_. None)\<rparr>"

definition demo_sd_codec :: "pending_spatial_delete codec" where
  "demo_sd_codec = \<lparr>cd_enc = (\<lambda>e. Some (u64_to_be_bytes (sd_batch_id e))), cd_dec = (\<lambda>_. None)\<rparr>"

definition demo_insert :: "u64 \<Rightarrow> pending_spatial_insert" where
  "demo_insert i = \<lparr>si_batch_id = i, si_collection = ''c'', si_field = ''g'', si_doc_id = ''d'',
     si_geometry_bytes = [], si_seq = 0\<rparr>"

definition demo_spatial :: "usize \<Rightarrow> spatial_outbound" where
  "demo_spatial cap =
     \<lparr>sp_staging_inserts = \<lparr>pq_items = [demo_insert 1, demo_insert 2], pq_poisoned = False\<rparr>,
      sp_staging_deletes = pq_new,
      sp_durable_inserts = \<lparr>dq_namespace = SpatialInsertPending, dq_cap = cap, dq_next_id = 1\<rparr>,
      sp_durable_deletes = \<lparr>dq_namespace = SpatialDeletePending, dq_cap = cap, dq_next_id = 1\<rparr>,
      sp_ids = 3, sp_in_flight_inserts = [], sp_in_flight_deletes_map = []\<rparr>"

lemma demo_spatial_flush:
  "spatial_flush_staging demo_engine demo_si_codec demo_sd_codec (demo_spatial 1, [])
   = (Inl Backpressure,
      (demo_spatial 1)\<lparr>sp_staging_inserts := \<lparr>pq_items = [demo_insert 2], pq_poisoned = False\<rparr>,
        sp_durable_inserts := \<lparr>dq_namespace = SpatialInsertPending, dq_cap = 1, dq_next_id = 2\<rparr>\<rparr>,
      [(21 # u64_to_be_bytes 1, u64_to_be_bytes 1)])"
  by (simp add: spatial_flush_staging_def demo_spatial_def pq_drain_def pq_new_def pq_requeue_def demo_si_codec_def
      demo_insert_def dq_enqueue_def ensure_room_def dq_len_def reserve_key_def take_next_def demo_count_eq
      demo_put_eq u64_checked_add_def u64_sat_add_def Let_def)

theorem spatial_flush_conserves_witness:
  "\<exists>p' s'. spatial_flush_staging demo_engine demo_si_codec demo_sd_codec (demo_spatial 1, []) = (Inl Backpressure, p', s') \<and>
     (\<exists>stored. [demo_insert 1, demo_insert 2] = stored @ pq_items (sp_staging_inserts p'))"
proof -
  have i: "dq_inv (pagedb_rows map_of demo_nsb []) q" for q
    by (simp add: dq_inv_def)
  show ?thesis
    using spatial_flush_conserves [OF mem_outbound mem_outbound _ _ i _ i _ _ demo_spatial_flush] demo_spatial_flush
    by (auto simp: demo_spatial_def pq_new_def)
qed

definition mute_env :: crypto_env where
  "mute_env = demo_env\<lparr>ce_cipher := \<lparr>aead_encrypt = (\<lambda>_ _. None), aead_decrypt = (\<lambda>_ _. None)\<rparr>\<rparr>"

lemma mute_outbound:
  assumes "ns \<noteq> Meta"
  shows "outbound_store (encrypted_engine demo_engine mute_env) (enc_rows mute_env (pagedb_rows map_of demo_nsb))
    (enc_inv mute_env (pagedb_rows map_of demo_nsb) (\<lambda>_. True)) (enc_hidden (\<lambda>_ _. False)) ns"
proof -
  have "encrypted_over demo_engine (pagedb_rows map_of demo_nsb) (\<lambda>_. True) (\<lambda>_ _. False) mute_env"
    using outbound_store.axioms(1) [OF mem_outbound [of Meta]]
    by (simp add: encrypted_over_def encrypted_over_axioms_def aead_law_def mute_env_def)
  then show ?thesis
    using assms by (intro outbound_store.intro outbound_store_axioms.intro encrypted_over.is_encrypted_engine)
      (simp_all add: enc_hidden_def is_salt_def)
qed

theorem spatial_flush_loses_witness:
  "\<exists>p' s'. spatial_flush_staging (encrypted_engine demo_engine mute_env) demo_si_codec demo_sd_codec (demo_spatial 9, [])
       = (Inl Storage, p', s') \<and> pq_items (sp_staging_inserts (demo_spatial 9)) = [demo_insert 1, demo_insert 2] \<and>
     pq_items (sp_staging_inserts p') = [] \<and>
     enc_rows mute_env (pagedb_rows map_of demo_nsb) s' = enc_rows mute_env (pagedb_rows map_of demo_nsb) []"
proof -
  let ?so = "encrypted_engine demo_engine mute_env"
  let ?q = "sp_durable_inserts (demo_spatial 9)"
  have c: "so_count ?so [] SpatialInsertPending = Inr 0"
    by (simp add: enc_count_def demo_count_eq)
  have w: "so_put ?so [] SpatialInsertPending k v = (Inl Storage, [])" for k v
    by (simp add: enc_put_def encrypt_def mute_env_def is_salt_def Let_def)
  have e: "\<exists>q'. dq_enqueue ?so ?q [] v = (Inl Storage, q', [])" for v
    unfolding dq_enqueue_def ensure_room_def dq_len_def
    by (simp add: demo_spatial_def c w reserve_key_def take_next_def u64_checked_add_def u64_sat_add_def
        del: encrypted_engine_sel)
  have inv: "enc_inv mute_env (pagedb_rows map_of demo_nsb) (\<lambda>_. True) []"
    "dq_inv (enc_rows mute_env (pagedb_rows map_of demo_nsb) []) ?q"
    by (simp_all add: enc_inv_def dq_inv_def)
  obtain r p' s' where f: "spatial_flush_staging ?so demo_si_codec demo_sd_codec (demo_spatial 9, []) = (r, p', s')"
    by (cases "spatial_flush_staging ?so demo_si_codec demo_sd_codec (demo_spatial 9, [])")
  obtain q' where q': "dq_enqueue ?so ?q [] (u64_to_be_bytes 1) = (Inl Storage, q', [])"
    using e by blast
  have it: "pq_items (sp_staging_inserts (demo_spatial 9)) = [demo_insert 1, demo_insert 2]"
    "\<not> pq_poisoned (sp_staging_inserts (demo_spatial 9))" "dq_namespace ?q = SpatialInsertPending"
    "cd_enc demo_si_codec (demo_insert 1) = Some (u64_to_be_bytes 1)"
    by (simp_all add: demo_spatial_def demo_si_codec_def demo_insert_def)
  from spatial_flush_loses [OF mute_outbound inv(1) it(3) inv(2) it(2,1,4) q' _ f]
  show ?thesis using f it(1) by simp
qed

definition demo_fi_codec :: "pending_fts_index codec" where
  "demo_fi_codec = \<lparr>cd_enc = (\<lambda>e. Some (u64_to_be_bytes (fi_batch_id e))), cd_dec = (\<lambda>_. None)\<rparr>"

definition demo_fd_codec :: "pending_fts_delete codec" where
  "demo_fd_codec = \<lparr>cd_enc = (\<lambda>e. Some (u64_to_be_bytes (fd_batch_id e))), cd_dec = (\<lambda>_. None)\<rparr>"

definition demo_fts :: fts_outbound where
  "demo_fts =
     \<lparr>ft_staging_indexes = [\<lparr>se_payload = \<lparr>fi_batch_id = 1, fi_collection = ''c'', fi_doc_id = ''d'', fi_fields = [],
                              fi_seq = 0\<rparr>, se_key = None\<rparr>],
      ft_staging_deletes = [],
      ft_durable_indexes = \<lparr>dq_namespace = FtsIndexPending, dq_cap = 9, dq_next_id = 1\<rparr>,
      ft_durable_deletes = \<lparr>dq_namespace = FtsDeletePending, dq_cap = 9, dq_next_id = 1\<rparr>,
      ft_ids = 2, ft_in_flight_indexes = [], ft_in_flight_deletes_map = []\<rparr>"

theorem fts_flush_conserves_witness:
  "\<exists>r f' s'. fts_flush_staging demo_engine demo_fi_codec demo_fd_codec (demo_fts, []) = (r, f', s') \<and>
     to_deliver (pagedb_rows map_of demo_nsb s') demo_fi_codec (ft_durable_indexes f') (ft_staging_indexes f')
       = [Some (u64_to_be_bytes 1)]"
proof -
  obtain r f' s' where f: "fts_flush_staging demo_engine demo_fi_codec demo_fd_codec (demo_fts, []) = (r, f', s')"
    by (cases "fts_flush_staging demo_engine demo_fi_codec demo_fd_codec (demo_fts, [])")
  have i: "dq_inv (pagedb_rows map_of demo_nsb []) q" for q
    by (simp add: dq_inv_def)
  have "to_deliver (pagedb_rows map_of demo_nsb []) demo_fi_codec (ft_durable_indexes demo_fts) (ft_staging_indexes demo_fts)
      = [Some (u64_to_be_bytes 1)]"
    by (simp add: to_deliver_def demo_fts_def demo_fi_codec_def dq_contents_def entries_where_all)
  moreover have "staging_ok m cd q (ft_staging_indexes demo_fts)" for m cd q
    by (simp add: demo_fts_def)
  moreover have "staging_ok m cd q (ft_staging_deletes demo_fts)" for m cd q
    by (simp add: demo_fts_def)
  moreover have "dq_namespace (ft_durable_indexes demo_fts) = FtsIndexPending"
    "dq_namespace (ft_durable_deletes demo_fts) = FtsDeletePending"
    by (simp_all add: demo_fts_def)
  ultimately show ?thesis
    using fts_flush_conserves [OF mem_outbound mem_outbound _ _ i _ i _ _ f] f by fastforce
qed

end
