(* ===== verification/Text_Lib.thy ===== *)
theory Text_Lib
  imports Lite_Prelude
begin

text \<open>
  Text as the standard library handles it: UTF-8 validation, decimal formatting and parsing of
  \<open>i64\<close>, and \<open>str::trim\<close>. A string is the list of its UTF-8 bytes as characters. A signed
  64-bit integer is a word read by \<open>sint\<close>.
\<close>

subsection \<open>UTF-8\<close>

text \<open>Well-formed UTF-8, as \<open>std::str::from_utf8\<close> checks it.\<close>

definition utf8_cont :: "u8 \<Rightarrow> bool" where
  "utf8_cont b \<longleftrightarrow> 0x80 \<le> b \<and> b \<le> 0xBF"

definition utf8_second3 :: "u8 \<Rightarrow> u8 \<Rightarrow> bool" where
  "utf8_second3 a b \<longleftrightarrow>
     (if a = 0xE0 then 0xA0 \<le> b \<and> b \<le> 0xBF else if a = 0xED then 0x80 \<le> b \<and> b \<le> 0x9F
      else 0xE1 \<le> a \<and> a \<le> 0xEF \<and> utf8_cont b)"

definition utf8_second4 :: "u8 \<Rightarrow> u8 \<Rightarrow> bool" where
  "utf8_second4 a b \<longleftrightarrow>
     (if a = 0xF0 then 0x90 \<le> b \<and> b \<le> 0xBF else if a = 0xF4 then 0x80 \<le> b \<and> b \<le> 0x8F
      else 0xF1 \<le> a \<and> a \<le> 0xF3 \<and> utf8_cont b)"

fun valid_utf8 :: "bytes \<Rightarrow> bool" where
  "valid_utf8 [] = True"
| "valid_utf8 (a # bs) =
     (if a < 0x80 then valid_utf8 bs
      else case bs of
             [] \<Rightarrow> False
           | b # bs2 \<Rightarrow>
               if 0xC2 \<le> a \<and> a \<le> 0xDF then utf8_cont b \<and> valid_utf8 bs2
               else (case bs2 of
                       [] \<Rightarrow> False
                     | c # bs3 \<Rightarrow>
                         if a < 0xF0 then utf8_second3 a b \<and> utf8_cont c \<and> valid_utf8 bs3
                         else (case bs3 of
                                 [] \<Rightarrow> False
                               | d # bs4 \<Rightarrow> utf8_second4 a b \<and> utf8_cont c \<and> utf8_cont d \<and> valid_utf8 bs4)))"

lemma valid_utf8_ascii: "list_all (\<lambda>b. b < 0x80) bs \<Longrightarrow> valid_utf8 bs"
  by (induction bs) simp_all

subsection \<open>Decimal integers\<close>

type_synonym i64 = "64 word"

definition i64_max :: i64 where
  "i64_max = 0x7FFFFFFFFFFFFFFF"

primrec dec_digits :: "nat \<Rightarrow> nat \<Rightarrow> string" where
  "dec_digits 0 x = []"
| "dec_digits (Suc n) x = dec_digits n (x div 10) @ [char_of (48 + x mod 10)]"

text \<open>\<open>format!("{w:020}")\<close> pads with zeros after the sign. The magnitude has at most 19 digits,
  so the width is never exceeded.\<close>

definition fmt_020 :: "i64 \<Rightarrow> string" where
  "fmt_020 w =
     (if sint w < 0 then CHR ''-'' # dec_digits 19 (nat (- sint w))
      else dec_digits 20 (nat (sint w)))"

definition is_digit :: "char \<Rightarrow> bool" where
  "is_digit c \<longleftrightarrow> 48 \<le> (of_char c :: nat) \<and> (of_char c :: nat) \<le> 57"

fun dec_fold :: "nat \<Rightarrow> string \<Rightarrow> nat option" where
  "dec_fold acc [] = Some acc"
| "dec_fold acc (c # cs) =
     (if is_digit c then dec_fold (acc * 10 + (of_char c - 48)) cs else None)"

text \<open>\<open>str::parse::<i64>\<close>: an optional sign, at least one digit, and a value in range.\<close>

definition parse_i64 :: "string \<Rightarrow> i64 option" where
  "parse_i64 s =
     (if s = [] \<or> s = ''+'' \<or> s = ''-'' then None
      else if hd s = CHR ''-'' then
        (case dec_fold 0 (tl s) of
           Some n \<Rightarrow> if n \<le> 2 ^ 63 then Some (- of_nat n) else None
         | None \<Rightarrow> None)
      else
        (case dec_fold 0 (if hd s = CHR ''+'' then tl s else s) of
           Some n \<Rightarrow> if n < 2 ^ 63 then Some (of_nat n) else None
         | None \<Rightarrow> None))"

text \<open>The encodings of the characters with the Unicode property \<open>White_Space\<close>, and
  \<open>str::trim\<close>.\<close>

definition white_space :: "string list" where
  "white_space =
     map (map char_of)
       ([[9], [10], [11], [12], [13], [32], [0xC2, 0x85], [0xC2, 0xA0], [0xE1, 0x9A, 0x80]] @
        map (\<lambda>b. [0xE2, 0x80, b]) ([0x80 ..< 0x8B] @ [0xA8, 0xA9, 0xAF]) @
        [[0xE2, 0x81, 0x9F], [0xE3, 0x80, 0x80 :: nat]])"

function trim_by :: "string list \<Rightarrow> string \<Rightarrow> string" where
  "trim_by ws s =
     (case find (\<lambda>w. w \<noteq> [] \<and> prefix w s) ws of
        None \<Rightarrow> s
      | Some w \<Rightarrow> trim_by ws (drop (length w) s))"
  by pat_completeness auto
termination
  by (relation "measure (\<lambda>(_, s). length s)") (auto simp: find_Some_iff prefix_def)

declare trim_by.simps [simp del]

definition str_trim :: "string \<Rightarrow> string" where
  "str_trim s = rev (trim_by (map rev white_space) (rev (trim_by white_space s)))"

lemma length_dec_digits [simp]: "length (dec_digits n x) = n"
  by (induction n arbitrary: x) simp_all

lemma is_digit_char_of [simp]: "(d :: nat) < 10 \<Longrightarrow> is_digit (char_of (48 + d))"
  by (simp add: is_digit_def)

lemma dec_digits_digit: "c \<in> set (dec_digits n x) \<Longrightarrow> is_digit c"
  by (induction n arbitrary: x) auto

lemma div10_less: "(x :: nat) < 10 ^ Suc n \<Longrightarrow> x div 10 < 10 ^ n"
  by (simp add: less_mult_imp_div_less mult.commute)

lemma dec_fold_digits:
  "x < 10 ^ n \<Longrightarrow> dec_fold acc (dec_digits n x @ cs) = dec_fold (acc * 10 ^ n + x) cs"
proof (induction n arbitrary: x cs)
  case (Suc n)
  note div10_less [OF Suc.prems]
  moreover have "(acc * 10 ^ n + x div 10) * 10 + x mod 10 = acc * 10 ^ Suc n + x"
    by (simp add: algebra_simps)
  ultimately show ?case
    by (simp add: Suc.IH algebra_simps)
qed simp

lemma dec_digits_val: "x < 10 ^ n \<Longrightarrow> dec_fold 0 (dec_digits n x) = Some x"
  using dec_fold_digits [of x n 0 "[]"] by simp

lemma fmt_020_length [simp]: "length (fmt_020 w) = 20"
  by (simp add: fmt_020_def)

lemma sint_i64_range: "- (2 ^ 63) \<le> sint (w :: i64)" "sint (w :: i64) < 2 ^ 63"
  using sint_range_size [of w] by (simp_all add: word_size)

lemma parse_i64_fmt [simp, codec_simps]: "parse_i64 (fmt_020 w) = Some w"
proof (cases "sint w < 0")
  case True
  let ?n = "nat (- sint w)"
  have n: "?n \<le> 2 ^ 63"
    using sint_i64_range(1) [of w] by simp
  then have "dec_fold 0 (dec_digits 19 ?n) = Some ?n"
    by (intro dec_digits_val) simp
  moreover have "- of_nat ?n = w"
    using True by simp
  ultimately show ?thesis
    using True n length_dec_digits [of 19 ?n] by (auto simp: parse_i64_def fmt_020_def simp del: length_dec_digits)
next
  case False
  let ?n = "nat (sint w)"
  let ?d = "dec_digits 20 ?n"
  have n: "?n < 2 ^ 63"
    using sint_i64_range(2) [of w] False by simp
  then have v: "dec_fold 0 ?d = Some ?n"
    by (intro dec_digits_val) simp
  have ne: "?d \<noteq> []"
    using length_dec_digits [of 20 ?n] by (metis list.size(3) zero_neq_numeral)
  have "hd ?d \<noteq> CHR ''-''" "hd ?d \<noteq> CHR ''+''"
    using dec_digits_digit [OF hd_in_set [OF ne]] by (auto simp: is_digit_def)
  moreover have "?d \<noteq> ''+''" "?d \<noteq> ''-''"
    using calculation by auto
  moreover have "of_nat ?n = w"
    using False by simp
  ultimately show ?thesis
    using False n ne v by (simp add: parse_i64_def fmt_020_def)
qed

lemma fmt_020_inject [simp]: "fmt_020 a = fmt_020 b \<longleftrightarrow> a = b"
  using parse_i64_fmt by (metis option.inject)

lemma fmt_020_chars: "c \<in> set (fmt_020 w) \<Longrightarrow> is_digit c \<or> c = CHR ''-''"
  by (auto simp: fmt_020_def dest: dec_digits_digit split: if_splits)

lemma fmt_020_bytes: "b \<in> set (str_bytes (fmt_020 w)) \<Longrightarrow> 45 \<le> unat b \<and> unat b < 58"
  by (auto simp: str_bytes_def is_digit_def dest!: fmt_020_chars)

lemma fmt_020_no_nul [simp]: "0 \<notin> set (str_bytes (fmt_020 w))"
  using fmt_020_bytes [of 0 w] by auto

lemma fmt_020_utf8 [simp]: "valid_utf8 (str_bytes (fmt_020 w))"
  by (rule valid_utf8_ascii) (auto simp: list_all_iff word_less_nat_alt dest!: fmt_020_bytes)

subsubsection \<open>Order\<close>

lemma snoc_less_iff:
  fixes a b :: "'a::linorder"
  shows "length xs = length ys \<Longrightarrow> xs @ [a] < ys @ [b] \<longleftrightarrow> xs < ys \<or> xs = ys \<and> a < b"
  by (induction xs ys rule: list_induct2) auto

lemma append_less_same [simp]:
  fixes p :: "'a::linorder list"
  shows "p @ a < p @ b \<longleftrightarrow> a < b"
  by (induction p) auto

lemma dec_digits_less:
  "x < 10 ^ n \<Longrightarrow> y < 10 ^ n \<Longrightarrow> str_bytes (dec_digits n x) < str_bytes (dec_digits n y) \<longleftrightarrow> x < y"
proof (induction n arbitrary: x y)
  case (Suc n)
  note b = div10_less [OF Suc.prems(1)] div10_less [OF Suc.prems(2)]
  have eq: "dec_digits n (x div 10) = dec_digits n (y div 10) \<longleftrightarrow> x div 10 = y div 10"
    using dec_digits_val [OF b(1)] dec_digits_val [OF b(2)] by (metis option.inject)
  have last: "(of_char (char_of (48 + x mod 10)) :: u8) < of_char (char_of (48 + y mod 10))
      \<longleftrightarrow> x mod 10 < y mod 10"
    by (simp add: word_less_nat_alt)
  have "str_bytes (dec_digits (Suc n) x) < str_bytes (dec_digits (Suc n) y)
      \<longleftrightarrow> x div 10 < y div 10 \<or> x div 10 = y div 10 \<and> x mod 10 < y mod 10"
    using Suc.IH [OF b] eq last snoc_less_iff [of "str_bytes (dec_digits n (x div 10))" "str_bytes (dec_digits n (y div 10))"]
    by (simp add: str_bytes_def [of "[_]"])
  also have "\<dots> \<longleftrightarrow> x < y"
    using div_mult_mod_eq [of x 10] div_mult_mod_eq [of y 10]
      mod_less_divisor [of 10 x] mod_less_divisor [of 10 y] by linarith
  finally show ?case .
qed simp

lemma fmt_020_less_nonneg:
  "0 \<le> sint a \<Longrightarrow> 0 \<le> sint b \<Longrightarrow> str_bytes (fmt_020 a) < str_bytes (fmt_020 b) \<longleftrightarrow> sint a < sint b"
  using dec_digits_less [of "nat (sint a)" 20 "nat (sint b)"] sint_i64_range(2) [of a] sint_i64_range(2) [of b]
  by (auto simp: fmt_020_def)

lemma fmt_020_less_neg:
  "sint a < 0 \<Longrightarrow> sint b < 0 \<Longrightarrow> str_bytes (fmt_020 a) < str_bytes (fmt_020 b) \<longleftrightarrow> sint b < sint a"
  using dec_digits_less [of "nat (- sint a)" 19 "nat (- sint b)"] sint_i64_range(1) [of a] sint_i64_range(1) [of b]
  by (simp add: fmt_020_def str_bytes_def)

subsubsection \<open>Trimming\<close>

lemma trim_by_id: "(\<And>w. w \<in> set ws \<Longrightarrow> \<not> (w \<noteq> [] \<and> prefix w s)) \<Longrightarrow> trim_by ws s = s"
  by (subst trim_by.simps) (simp add: find_None_iff [THEN iffD2] split: option.split)

lemma white_space_ends:
  "list_all (\<lambda>w. w \<noteq> [] \<and> (of_char (hd w) < (45 :: nat) \<or> 57 < (of_char (hd w) :: nat)) \<and>
     (of_char (last w) < (45 :: nat) \<or> 57 < (of_char (last w) :: nat))) white_space"
  by (simp add: white_space_def upt_rec)

lemma str_trim_fmt [simp]: "str_trim (fmt_020 w) = fmt_020 w"
proof -
  have c: "45 \<le> (of_char c :: nat) \<and> (of_char c :: nat) \<le> 57" if "c \<in> set (fmt_020 w)" for c
    using fmt_020_chars [OF that] by (auto simp: is_digit_def)
  have 1: "trim_by white_space (fmt_020 w) = fmt_020 w"
  proof (rule trim_by_id)
    fix v assume v: "v \<in> set white_space"
    have "hd v \<in> set (fmt_020 w)" if "v \<noteq> []" "prefix v (fmt_020 w)"
      using that set_mono_prefix hd_in_set by blast
    then show "\<not> (v \<noteq> [] \<and> prefix v (fmt_020 w))"
      using c [of "hd v"] white_space_ends v unfolding list_all_iff by force
  qed
  have 2: "trim_by (map rev white_space) (rev (fmt_020 w)) = rev (fmt_020 w)"
  proof (rule trim_by_id)
    fix v assume "v \<in> set (map rev white_space)"
    then obtain u where u: "u \<in> set white_space" "v = rev u"
      by auto
    have "last u \<in> set (fmt_020 w)" if "v \<noteq> []" "prefix v (rev (fmt_020 w))"
      using that set_mono_prefix [of v "rev (fmt_020 w)"] last_in_set [of u] u(2) by auto
    then show "\<not> (v \<noteq> [] \<and> prefix v (rev (fmt_020 w)))"
      using c [of "last u"] white_space_ends u(1) unfolding list_all_iff by force
  qed
  show ?thesis
    by (simp add: str_trim_def 1 2)
qed

end
