(* ===== verification/Sync_Support.thy ===== *)
theory Sync_Support
  imports Outbound_Queue
begin

text \<open>
  Small parts of the sync layer: shape subscriptions (\<open>sync/shapes.rs\<close>), the compensation
  registry (\<open>sync/compensation.rs\<close>), the policy for refused array operations
  (\<open>sync/array/reject_policy.rs\<close>), refused row pushes (\<open>sync/client/row_push_reject.rs\<close>)
  and the replica identity (\<open>sync/array/replica_state.rs\<close>).

  Shape definitions, compensation hints, reject reasons and the hybrid logical clock belong
  to other crates: they are type variables, and functions of those crates are arguments.
\<close>

subsection \<open>Shapes\<close>

record 'd shape_subscription =
  sub_definition :: 'd
  sub_last_lsn :: u64
  sub_snapshot_loaded :: bool

type_synonym 'd shape_manager = "(string, 'd shape_subscription) hmap"

definition ShapeManager_new :: "'d shape_manager" where
  "ShapeManager_new = []"

text \<open>\<open>shape_id\<close> is the field of the definition, read through an argument.\<close>

definition subscribe :: "('d \<Rightarrow> string) \<Rightarrow> 'd \<Rightarrow> 'd shape_manager \<Rightarrow> string \<times> 'd shape_manager" where
  "subscribe shape_id_of definition m =
     (let shape_id = shape_id_of definition
      in (shape_id, hm_insert shape_id
            \<lparr>sub_definition = definition, sub_last_lsn = 0, sub_snapshot_loaded = False\<rparr> m))"

definition unsubscribe :: "string \<Rightarrow> 'd shape_manager \<Rightarrow> bool \<times> 'd shape_manager" where
  "unsubscribe shape_id m = (hm_get m shape_id \<noteq> None, hm_remove shape_id m)"

definition mark_snapshot_loaded :: "string \<Rightarrow> u64 \<Rightarrow> 'd shape_manager \<Rightarrow> 'd shape_manager" where
  "mark_snapshot_loaded shape_id lsn m =
     (case hm_get m shape_id of
        None \<Rightarrow> m
      | Some sub \<Rightarrow> hm_insert shape_id (sub\<lparr>sub_snapshot_loaded := True, sub_last_lsn := lsn\<rparr>) m)"

definition advance_lsn :: "string \<Rightarrow> u64 \<Rightarrow> 'd shape_manager \<Rightarrow> 'd shape_manager" where
  "advance_lsn shape_id lsn m =
     (case hm_get m shape_id of
        None \<Rightarrow> m
      | Some sub \<Rightarrow> if sub_last_lsn sub < lsn then hm_insert shape_id (sub\<lparr>sub_last_lsn := lsn\<rparr>) m else m)"

definition shape_get :: "'d shape_manager \<Rightarrow> string \<Rightarrow> 'd shape_subscription option" where
  "shape_get m shape_id = hm_get m shape_id"

definition active_shape_ids :: "'d shape_manager \<Rightarrow> string list" where
  "active_shape_ids m = map fst m"

definition active_definitions :: "'d shape_manager \<Rightarrow> 'd list" where
  "active_definitions m = map (sub_definition \<circ> snd) m"

definition shape_count :: "'d shape_manager \<Rightarrow> usize" where
  "shape_count m = length m"

definition is_subscribed :: "'d shape_manager \<Rightarrow> string \<Rightarrow> bool" where
  "is_subscribed m shape_id = hm_contains m shape_id"

subsection \<open>Compensation\<close>

record 'hint compensation_event =
  ce_mutation_id :: u64
  ce_collection :: string
  ce_document_id :: string
  ce_hint :: 'hint

text \<open>A handler is a name; \<open>cr_delivered\<close> is the ghost log of the calls made to handlers.
  The two mutexes have a poison flag each.\<close>

record ('h, 'hint) compensation_registry =
  cr_handler :: "'h option"
  cr_handler_poisoned :: bool
  cr_buffered :: "'hint compensation_event list"
  cr_buffered_poisoned :: bool
  cr_max_buffer :: usize
  cr_delivered :: "('h \<times> 'hint compensation_event) list"

definition CompensationRegistry_new :: "('h, 'hint) compensation_registry" where
  "CompensationRegistry_new =
     \<lparr>cr_handler = None, cr_handler_poisoned = False, cr_buffered = [], cr_buffered_poisoned = False,
      cr_max_buffer = 1000, cr_delivered = []\<rparr>"

text \<open>\<open>set_handler\<close> takes the two locks one after the other; the two parts are separate
  so that other calls can fall between them.\<close>

definition set_handler_drain ::
  "'h \<Rightarrow> ('h, 'hint) compensation_registry \<Rightarrow> ('h, 'hint) compensation_registry" where
  "set_handler_drain handler r =
     (if cr_buffered_poisoned r then r
      else r\<lparr>cr_delivered := cr_delivered r @ map (Pair handler) (cr_buffered r), cr_buffered := []\<rparr>)"

definition set_handler_install ::
  "'h \<Rightarrow> ('h, 'hint) compensation_registry \<Rightarrow> ('h, 'hint) compensation_registry" where
  "set_handler_install handler r =
     (if cr_handler_poisoned r then r else r\<lparr>cr_handler := Some handler\<rparr>)"

definition set_handler ::
  "'h \<Rightarrow> ('h, 'hint) compensation_registry \<Rightarrow> ('h, 'hint) compensation_registry" where
  "set_handler handler r = set_handler_install handler (set_handler_drain handler r)"

definition clear_handler ::
  "('h, 'hint) compensation_registry \<Rightarrow> ('h, 'hint) compensation_registry" where
  "clear_handler r = (if cr_handler_poisoned r then r else r\<lparr>cr_handler := None\<rparr>)"

definition dispatch ::
  "'hint compensation_event \<Rightarrow> ('h, 'hint) compensation_registry \<Rightarrow> ('h, 'hint) compensation_registry" where
  "dispatch event r =
     (case (if cr_handler_poisoned r then None else cr_handler r) of
        Some handler \<Rightarrow> r\<lparr>cr_delivered := cr_delivered r @ [(handler, event)]\<rparr>
      | None \<Rightarrow>
          if \<not> cr_buffered_poisoned r \<and> length (cr_buffered r) < cr_max_buffer r
          then r\<lparr>cr_buffered := cr_buffered r @ [event]\<rparr>
          else r)"

definition buffered_count :: "('h, 'hint) compensation_registry \<Rightarrow> usize" where
  "buffered_count r = (if cr_buffered_poisoned r then 0 else length (cr_buffered r))"

subsection \<open>Reject policy\<close>

text \<open>The reject classes are the ones of the wire crate; the class of a reason is an
  argument.\<close>

datatype array_reject_class = SchemaRequired | CatchUpClass | Permanent | Transient | Reauthenticate

datatype reject_disposition = ResendSchema | CatchUp | Drop | Park

definition reject_disposition_of :: "('reason \<Rightarrow> array_reject_class) \<Rightarrow> 'reason \<Rightarrow> reject_disposition" where
  "reject_disposition_of class_of reason =
     (case class_of reason of
        SchemaRequired \<Rightarrow> ResendSchema
      | CatchUpClass \<Rightarrow> CatchUp
      | Permanent \<Rightarrow> Drop
      | Transient \<Rightarrow> Park
      | Reauthenticate \<Rightarrow> Park)"

subsection \<open>Refused row pushes\<close>

datatype row_push_refusal = Malformed string | ApplyFailed string

record row_push_msg =
  rp_collection :: string
  rp_document_id :: string
  rp_sequence :: u64
  rp_peer_id :: u64

record row_push_reject_msg =
  rr_collection :: string
  rr_document_id :: string
  rr_sequence :: u64
  rr_peer_id :: u64
  rr_refusal :: row_push_refusal

definition ROW_PUSH_REJECT_CAP :: usize where
  "ROW_PUSH_REJECT_CAP = 1024"

text \<open>The error is given by its text and by whether its details are of the
  serialization kind.\<close>

definition row_push_reject :: "row_push_msg \<Rightarrow> string \<times> bool \<Rightarrow> row_push_reject_msg" where
  "row_push_reject msg error =
     (let refusal = (if snd error then Malformed (fst error) else ApplyFailed (fst error))
      in \<lparr>rr_collection = rp_collection msg, rr_document_id = rp_document_id msg,
          rr_sequence = rp_sequence msg, rr_peer_id = rp_peer_id msg, rr_refusal = refusal\<rparr>)"

definition queue_row_push_reject ::
  "row_push_msg \<Rightarrow> string \<times> bool \<Rightarrow> row_push_reject_msg list \<Rightarrow> row_push_reject_msg list" where
  "queue_row_push_reject msg error queue =
     (let reject = row_push_reject msg error
      in if ROW_PUSH_REJECT_CAP \<le> length queue then queue else queue @ [reject])"

definition drain_row_push_rejects ::
  "row_push_reject_msg list \<Rightarrow> row_push_reject_msg list \<times> row_push_reject_msg list" where
  "drain_row_push_rejects queue = (queue, [])"

definition requeue_row_push_rejects ::
  "row_push_reject_msg list \<Rightarrow> row_push_reject_msg list \<Rightarrow> row_push_reject_msg list" where
  "requeue_row_push_rejects unsent queue =
     (let queue = unsent @ queue
      in if ROW_PUSH_REJECT_CAP < length queue then take ROW_PUSH_REJECT_CAP queue else queue)"

subsection \<open>Replica identity\<close>

definition REPLICA_ID_KEY :: bytes where
  "REPLICA_ID_KEY = str_bytes ''array.replica_id''"

record 'g replica_state =
  rs_replica_id :: u64
  rs_hlc_gen :: 'g

text \<open>\<open>generate\<close> is the identifier the external generator yields, \<open>hlc_new\<close> its clock
  constructor; \<open>hlc_next\<close> and \<open>hlc_observe\<close> advance the clock or fail.\<close>

definition load_or_init ::
  "'s storage_ops \<Rightarrow> u64 \<Rightarrow> (u64 \<Rightarrow> 'g) \<Rightarrow> 's \<Rightarrow> 'g replica_state lite_result \<times> 's" where
  "load_or_init so generate hlc_new s =
     (case so_get so s Meta REPLICA_ID_KEY of
        Inl e \<Rightarrow> (Inl e, s)
      | Inr (Some stored) \<Rightarrow>
          if length stored \<noteq> 8 then (Inl Storage, s)
          else (let id = u64_from_be_bytes stored
                in (Inr \<lparr>rs_replica_id = id, rs_hlc_gen = hlc_new id\<rparr>, s))
      | Inr None \<Rightarrow>
          (case so_put so s Meta REPLICA_ID_KEY (u64_to_be_bytes generate) of
             (Inl e, s') \<Rightarrow> (Inl e, s')
           | (Inr _, s') \<Rightarrow> (Inr \<lparr>rs_replica_id = generate, rs_hlc_gen = hlc_new generate\<rparr>, s')))"

definition next_hlc ::
  "('g \<Rightarrow> ('ae, 'hlc) result \<times> 'g) \<Rightarrow> 'g replica_state \<Rightarrow> 'hlc lite_result \<times> 'g replica_state" where
  "next_hlc hlc_next r =
     (case hlc_next (rs_hlc_gen r) of (res, g) \<Rightarrow> (map_err (\<lambda>_. Storage) res, r\<lparr>rs_hlc_gen := g\<rparr>))"

definition observe_hlc ::
  "('hlc \<Rightarrow> 'g \<Rightarrow> ('ae, unit) result \<times> 'g) \<Rightarrow> 'hlc \<Rightarrow> 'g replica_state \<Rightarrow> unit lite_result \<times> 'g replica_state" where
  "observe_hlc hlc_observe remote r =
     (case hlc_observe remote (rs_hlc_gen r) of (res, g) \<Rightarrow> (map_err (\<lambda>_. Storage) res, r\<lparr>rs_hlc_gen := g\<rparr>))"

subsection \<open>Runs of the compensation registry\<close>

datatype ('h, 'hint) comp_call =
    CallSet 'h
  | CallClear
  | CallDispatch "'hint compensation_event"

fun comp_step ::
  "('h, 'hint) comp_call \<Rightarrow> ('h, 'hint) compensation_registry \<Rightarrow> ('h, 'hint) compensation_registry" where
  "comp_step (CallSet h) r = set_handler h r"
| "comp_step CallClear r = clear_handler r"
| "comp_step (CallDispatch e) r = dispatch e r"

fun dispatched :: "('h, 'hint) comp_call list \<Rightarrow> 'hint compensation_event list" where
  "dispatched [] = []"
| "dispatched (CallDispatch e # cs) = e # dispatched cs"
| "dispatched (_ # cs) = dispatched cs"

definition comp_seen :: "('h, 'hint) compensation_registry \<Rightarrow> 'hint compensation_event list" where
  "comp_seen r = map snd (cr_delivered r) @ cr_buffered r"

definition comp_inv :: "('h, 'hint) compensation_registry \<Rightarrow> bool" where
  "comp_inv r \<longleftrightarrow>
     \<not> cr_handler_poisoned r \<and> \<not> cr_buffered_poisoned r \<and> length (cr_buffered r) \<le> cr_max_buffer r \<and>
     (cr_handler r \<noteq> None \<longrightarrow> cr_buffered r = [])"

lemmas comp_defs = set_handler_def set_handler_drain_def set_handler_install_def clear_handler_def
  dispatch_def

lemma comp_step_inv: "comp_inv r \<Longrightarrow> comp_inv (comp_step c r)"
  by (cases c) (auto simp: comp_inv_def comp_defs split: option.splits)

lemma comp_step_max [simp]: "cr_max_buffer (comp_step c r) = cr_max_buffer r"
  by (cases c) (auto simp: comp_defs split: option.splits)

lemma comp_step_seen:
  assumes "comp_inv r"
  shows "comp_seen (comp_step c r) = comp_seen r @ dispatched [c] \<or>
         comp_seen (comp_step c r) = comp_seen r \<and> cr_max_buffer r \<le> length (cr_buffered r)"
proof (cases c)
  case (CallDispatch e)
  then show ?thesis
    using assms by (cases "cr_handler r") (auto simp: comp_inv_def comp_seen_def dispatch_def)
qed (use assms in \<open>auto simp: comp_inv_def comp_seen_def comp_defs comp_def\<close>)

lemma dispatched_append: "dispatched (xs @ ys) = dispatched xs @ dispatched ys"
  by (induction xs rule: dispatched.induct) auto

lemma comp_run:
  assumes "comp_inv r"
  shows "comp_inv (fold comp_step cs r) \<and>
    (\<exists>ds. comp_seen (fold comp_step cs r) = comp_seen r @ ds \<and> subseq ds (dispatched cs) \<and>
          (length (comp_seen r) + length (dispatched cs) \<le> cr_max_buffer r \<longrightarrow> ds = dispatched cs))"
  using assms
proof (induction cs arbitrary: r)
  case (Cons c cs)
  have d: "dispatched (c # cs) = dispatched [c] @ dispatched cs"
    using dispatched_append [of "[c]" cs] by simp
  obtain ds where i: "comp_inv (fold comp_step cs (comp_step c r))"
    and s: "comp_seen (fold comp_step cs (comp_step c r)) = comp_seen (comp_step c r) @ ds"
      "subseq ds (dispatched cs)"
    and b: "length (comp_seen (comp_step c r)) + length (dispatched cs) \<le> cr_max_buffer r \<longrightarrow> ds = dispatched cs"
    using Cons.IH [OF comp_step_inv [OF Cons.prems]] by auto
  have l: "length (cr_buffered r) \<le> length (comp_seen r)"
    by (simp add: comp_seen_def)
  from comp_step_seen [OF Cons.prems, of c] show ?case
  proof
    assume 1: "comp_seen (comp_step c r) = comp_seen r @ dispatched [c]"
    then show ?thesis
      using i s b by (intro conjI exI [of _ "dispatched [c] @ ds"]) (auto simp: d intro: list_emb_append_mono)
  next
    assume 2: "comp_seen (comp_step c r) = comp_seen r \<and> cr_max_buffer r \<le> length (cr_buffered r)"
    have "subseq ds (dispatched (c # cs))"
      unfolding d using s(2) by (rule subseq_drop_many)
    moreover have "ds = dispatched (c # cs)"
      if fits: "length (comp_seen r) + length (dispatched (c # cs)) \<le> cr_max_buffer r"
    proof -
      have "length (dispatched [c]) + length (dispatched cs) = 0"
        using fits 2 l unfolding d length_append by linarith
      then show ?thesis using s(2) by (simp add: d)
    qed
    ultimately show ?thesis
      using i s 2 by auto
  qed
qed simp

subsection \<open>Properties\<close>

text \<open>
  C21. Compensation events are not lost or reordered: over any sequence of registrations,
  deregistrations and dispatches, each of them one step, the events given to handlers followed by the buffered
  ones are, in order, events that were dispatched; the buffer never exceeds 1000; and as
  long as no more than 1000 events were dispatched, every one of them is there exactly in
  dispatch order. With a handler installed, nothing stays buffered.
\<close>

theorem compensation_no_loss:
  assumes "r = fold comp_step cs CompensationRegistry_new"
  shows "subseq (map snd (cr_delivered r) @ cr_buffered r) (dispatched cs) \<and>
         length (cr_buffered r) \<le> 1000 \<and>
         (length (dispatched cs) \<le> 1000 \<longrightarrow> map snd (cr_delivered r) @ cr_buffered r = dispatched cs) \<and>
         (cr_handler r \<noteq> None \<longrightarrow> cr_buffered r = [])"
proof -
  have i: "comp_inv (CompensationRegistry_new :: ('a, 'b) compensation_registry)"
    by (simp add: comp_inv_def CompensationRegistry_new_def)
  have "cr_max_buffer (fold comp_step cs q) = cr_max_buffer q" for q :: "('a, 'b) compensation_registry"
    by (induction cs arbitrary: q) simp_all
  then have m: "cr_max_buffer r = 1000"
    by (simp add: assms CompensationRegistry_new_def)
  show ?thesis
    using comp_run [OF i, of cs] m unfolding assms
    by (auto simp: comp_inv_def comp_seen_def CompensationRegistry_new_def)
qed

text \<open>Registration is not atomic: events dispatched between the two locks of \<open>set_handler\<close> stay
  buffered although the handler is installed right after, and every later event overtakes them.\<close>

lemma register_race_strands:
  assumes "cr_handler r = None" "\<not> cr_handler_poisoned r" "\<not> cr_buffered_poisoned r" "length es \<le> cr_max_buffer r"
  shows "let r' = fold dispatch later (set_handler_install h (fold dispatch es (set_handler_drain h r)))
     in cr_handler r' = Some h \<and> cr_buffered r' = es \<and>
        cr_delivered r' = cr_delivered r @ map (Pair h) (cr_buffered r) @ map (Pair h) later"
proof -
  have buffer: "fold dispatch es q = q\<lparr>cr_buffered := cr_buffered q @ es\<rparr>"
    if "cr_handler q = None" "\<not> cr_buffered_poisoned q" "length (cr_buffered q) + length es \<le> cr_max_buffer q"
    for es and q :: "('a, 'b) compensation_registry"
    using that by (induction es arbitrary: q) (simp_all add: dispatch_def)
  have deliver: "fold dispatch ds q = q\<lparr>cr_delivered := cr_delivered q @ map (Pair h) ds\<rparr>"
    if "cr_handler q = Some h" "\<not> cr_handler_poisoned q" for ds and q :: "('a, 'b) compensation_registry"
    using that by (induction ds arbitrary: q) (simp_all add: dispatch_def)
  show ?thesis
    using assms by (simp add: Let_def set_handler_drain_def set_handler_install_def buffer deliver)
qed

text \<open>Refused row pushes that a failed send gives back keep their place ahead of newer
  ones, the queue never exceeds its cap, and nothing is dropped while the two together
  fit.
\<close>

theorem row_push_requeue:
  assumes "drain_row_push_rejects q = (sent @ unsent, q')"
  shows "length (requeue_row_push_rejects unsent (newer @ q')) \<le> ROW_PUSH_REJECT_CAP \<and>
         (length unsent + length newer \<le> ROW_PUSH_REJECT_CAP \<longrightarrow>
            sent @ requeue_row_push_rejects unsent (newer @ q') = q @ newer) \<and>
         prefix (requeue_row_push_rejects unsent (newer @ q')) (unsent @ newer)"
  using assms take_is_prefix [of ROW_PUSH_REJECT_CAP "unsent @ newer"]
  by (auto simp: drain_row_push_rejects_def requeue_row_push_rejects_def Let_def simp del: take_append)

text \<open>The replica identity is stable: once \<open>load_or_init\<close> has succeeded on a store that
  keeps the storage contract, every later load returns the same identity, whatever a new
  generator would have produced, and does not write.
\<close>

theorem replica_id_stable:
  assumes "kv_store so rows_of store_inv" "store_inv s"
    and "load_or_init so gen hlc_new s = (Inr r, s')"
    and "load_or_init so gen2 hlc_new s' = (Inr r2, s'')"
  shows "rs_replica_id r2 = rs_replica_id r \<and> s'' = s'"
proof (cases "rows_of s Meta REPLICA_ID_KEY")
  case (Some v)
  then have "so_get so s Meta REPLICA_ID_KEY = Inr (Some v) \<or> (\<exists>e. so_get so s Meta REPLICA_ID_KEY = Inl e)"
    using kv_store.get_law [OF assms(1,2)] by (cases "so_get so s Meta REPLICA_ID_KEY") auto
  then show ?thesis
    using assms(3,4) by (auto simp: load_or_init_def Let_def split: if_splits)
next
  case None
  have g: "so_get so s Meta REPLICA_ID_KEY = Inr None"
    using kv_store.get_law [OF assms(1,2)] None assms(3)
    by (cases "so_get so s Meta REPLICA_ID_KEY") (auto simp: load_or_init_def)
  then have p: "so_put so s Meta REPLICA_ID_KEY (u64_to_be_bytes gen) = (Inr (), s')" and r: "rs_replica_id r = gen"
    using assms(3) by (auto simp: load_or_init_def split: prod.splits sum.splits)
  have "rows_of s' Meta REPLICA_ID_KEY = Some (u64_to_be_bytes gen)"
    using kv_store.put_ok [OF assms(1,2) p] by simp
  then have "so_get so s' Meta REPLICA_ID_KEY = Inr (Some (u64_to_be_bytes gen))"
    using kv_store.get_law [OF assms(1) kv_store.put_inv [OF assms(1,2) p]] assms(4)
    by (cases "so_get so s' Meta REPLICA_ID_KEY") (auto simp: load_or_init_def)
  then show ?thesis
    using assms(4) r by (auto simp: load_or_init_def Let_def)
qed

subsection \<open>Witnesses\<close>

theorem compensation_no_loss_witness:
  "\<exists>r. r = fold comp_step
         [CallDispatch (\<lparr>ce_mutation_id = 1, ce_collection = ''c'', ce_document_id = ''d'', ce_hint = ()\<rparr>), CallSet True]
         CompensationRegistry_new \<and>
       map snd (cr_delivered r) @ cr_buffered r
         = [\<lparr>ce_mutation_id = 1, ce_collection = ''c'', ce_document_id = ''d'', ce_hint = ()\<rparr>]"
  using compensation_no_loss [OF refl, of "[CallDispatch (\<lparr>ce_mutation_id = 1, ce_collection = ''c'',
      ce_document_id = ''d'', ce_hint = ()\<rparr>), CallSet True]"]
  by (simp del: fold_simps)

definition demo_reject :: "u64 \<Rightarrow> row_push_reject_msg" where
  "demo_reject n = row_push_reject \<lparr>rp_collection = ''c'', rp_document_id = ''d'', rp_sequence = n, rp_peer_id = 1\<rparr>
     (''bad bytes'', True)"

theorem row_push_requeue_witness:
  "drain_row_push_rejects [demo_reject 1, demo_reject 2] = ([demo_reject 1] @ [demo_reject 2], []) \<and>
   requeue_row_push_rejects [demo_reject 2] [demo_reject 3] = [demo_reject 2, demo_reject 3]"
  using row_push_requeue [of "[demo_reject 1, demo_reject 2]" "[demo_reject 1]" "[demo_reject 2]" "[]" "[demo_reject 3]"]
  by (simp add: drain_row_push_rejects_def ROW_PUSH_REJECT_CAP_def)

theorem replica_id_stable_witness:
  "\<exists>r s' r2 s''. load_or_init demo_engine 7 id [] = (Inr r, s') \<and>
     load_or_init demo_engine 9 id s' = (Inr r2, s'') \<and> rs_replica_id r2 = 7 \<and> s'' = s'"
proof -
  let ?s = "[(0 # REPLICA_ID_KEY, u64_to_be_bytes 7)]"
  have 1: "load_or_init demo_engine 7 id [] = (Inr \<lparr>rs_replica_id = 7, rs_hlc_gen = 7\<rparr>, ?s)"
    by (simp add: load_or_init_def get_rows_def put_rows_def commit_txn_def mem_pagedb_def prefix_key_def Let_def)
  have 2: "load_or_init demo_engine 9 id ?s = (Inr \<lparr>rs_replica_id = 7, rs_hlc_gen = 7\<rparr>, ?s)"
    by (simp add: load_or_init_def get_rows_def mem_pagedb_def prefix_key_def Let_def)
  from replica_id_stable [OF storage_engine.axioms(1) [OF outbound_store.axioms(1) [OF mem_q.outbound_store_axioms]] _ 1 2] show ?thesis
    using 1 2 by auto
qed

end
