(* ===== verification/Array_Store.thy ===== *)
theory Array_Store
  imports Text_Lib Sync_Support Engine_Queues Stream_Seq
begin

text \<open>
  Durable state of array sync: the queue of outbound array ops (\<open>sync/array/pending.rs\<close>), the
  op log (\<open>op_log_store.rs\<close>), the schema registry (\<open>schema_registry.rs\<close>) and the emitter
  that writes a local op to both (\<open>outbound.rs\<close>).

  The hybrid logical clock, the op codec and the schema document belong to the external
  \<open>nodedb_array\<close> crate and are records of functions. \<open>hlc_law\<close> is what the code relies on:
  18-byte encodings that order as the clock values do.
\<close>

subsection \<open>External clock, op and environment\<close>

record 'k hlc_api =
  hlc_bytes :: "'k \<Rightarrow> bytes"
  hlc_of_bytes :: "bytes \<Rightarrow> 'k"
  hlc_zero :: 'k
  hlc_physical_ms :: "'k \<Rightarrow> u64"

definition hlc_law :: "'k::linorder hlc_api \<Rightarrow> bool" where
  "hlc_law api \<longleftrightarrow>
     (\<forall>h. length (hlc_bytes api h) = 18 \<and> hlc_of_bytes api (hlc_bytes api h) = h) \<and>
     (\<forall>a b. hlc_bytes api a < hlc_bytes api b \<longleftrightarrow> a < b)"

datatype array_op_kind = OpPut | OpDelete | OpErase

record ('k, 'c, 'v) array_op =
  ao_array :: string
  ao_hlc :: 'k
  ao_schema_hlc :: 'k
  ao_valid_from_ms :: u64
  ao_valid_until_ms :: u64
  ao_system_from_ms :: u64
  ao_kind :: array_op_kind
  ao_coord :: "'c list"
  ao_attrs :: "'v list option"

record stored_op =
  st_seq :: u64
  st_op :: bytes

record 'k pending_array_op =
  pa_array :: string
  pa_hlc :: 'k
  pa_op_payload :: bytes
  pa_seq :: u64

record ('k, 'c, 'v) array_env =
  ae_hlc :: "'k hlc_api"
  ae_stored :: "stored_op codec"
  ae_op :: "('k, 'c, 'v) array_op codec"

abbreviation hkey :: "('k, 'c, 'v) array_env \<Rightarrow> 'k \<Rightarrow> bytes" where
  "hkey env h \<equiv> hlc_bytes (ae_hlc env) h"

subsection \<open>The pending queue\<close>

definition decode_stored :: "('k, 'c, 'v) array_env \<Rightarrow> bytes \<Rightarrow> stored_op lite_result" where
  "decode_stored env val = (case cd_dec (ae_stored env) val of None \<Rightarrow> Inl Storage | Some st \<Rightarrow> Inr st)"

definition encode_stored :: "('k, 'c, 'v) array_env \<Rightarrow> stored_op \<Rightarrow> bytes lite_result" where
  "encode_stored env st = (case cd_enc (ae_stored env) st of None \<Rightarrow> Inl Serialization | Some b \<Rightarrow> Inr b)"

definition decode_payload :: "('k, 'c, 'v) array_env \<Rightarrow> bytes \<Rightarrow> ('k, 'c, 'v) array_op lite_result" where
  "decode_payload env payload =
     (case cd_dec (ae_op env) payload of None \<Rightarrow> Inl Storage | Some op \<Rightarrow> Inr op)"

definition key_after :: "('k, 'c, 'v) array_env \<Rightarrow> 'k \<Rightarrow> bytes" where
  "key_after env hlc = hkey env hlc @ [0]"

record array_pending =
  ap_cap :: usize

definition ap_DEFAULT_CAP :: usize where
  "ap_DEFAULT_CAP = 100000"

definition ap_new :: array_pending where
  "ap_new = \<lparr>ap_cap = ap_DEFAULT_CAP\<rparr>"

definition ap_with_cap :: "usize \<Rightarrow> array_pending" where
  "ap_with_cap cap = \<lparr>ap_cap = cap\<rparr>"

definition ap_len :: "'s storage_ops \<Rightarrow> 's \<Rightarrow> u64 lite_result" where
  "ap_len so s = so_count so s ArrayDelta"

definition ap_is_empty :: "'s storage_ops \<Rightarrow> 's \<Rightarrow> bool lite_result" where
  "ap_is_empty so s = rbind (ap_len so s) (\<lambda>n. Inr (n = 0))"

definition ap_enqueue ::
  "'s storage_ops \<Rightarrow> ('k, 'c, 'v) array_env \<Rightarrow> array_pending \<Rightarrow> 's \<Rightarrow> ('k, 'c, 'v) array_op \<Rightarrow>
   unit lite_result \<times> 's" where
  "ap_enqueue so env q s op =
     (case ap_len so s of
        Inl e \<Rightarrow> (Inl e, s)
      | Inr current \<Rightarrow>
          if current \<ge> of_nat (ap_cap q) then (Inl Backpressure, s)
          else (case cd_enc (ae_op env) op of
                  None \<Rightarrow> (Inl Storage, s)
                | Some payload \<Rightarrow>
                    (case encode_stored env \<lparr>st_seq = 0, st_op = payload\<rparr> of
                       Inl e \<Rightarrow> (Inl e, s)
                     | Inr val \<Rightarrow> so_put so s ArrayDelta (hkey env (ao_hlc op)) val)))"

definition scanned_op :: "('k, 'c, 'v) array_env \<Rightarrow> kv_pair \<Rightarrow> 'k pending_array_op lite_result" where
  "scanned_op env = (\<lambda>(key, val).
     rbind (decode_stored env val) (\<lambda>st.
     rbind (decode_payload env (st_op st)) (\<lambda>op.
       Inr \<lparr>pa_array = ao_array op, pa_hlc = ao_hlc op, pa_op_payload = st_op st, pa_seq = st_seq st\<rparr>)))"

definition scan_after ::
  "'s storage_ops \<Rightarrow> ('k, 'c, 'v) array_env \<Rightarrow> 's \<Rightarrow> 'k option \<Rightarrow> usize \<Rightarrow> 'k pending_array_op list lite_result" where
  "scan_after so env s after_hlc limit =
     (let start = (case after_hlc of None \<Rightarrow> [] | Some h \<Rightarrow> key_after env h)
      in rbind (so_scan_range so s ArrayDelta start limit) (collect_results (scanned_op env)))"

definition set_seq ::
  "'s storage_ops \<Rightarrow> ('k, 'c, 'v) array_env \<Rightarrow> 's \<Rightarrow> 'k \<Rightarrow> u64 \<Rightarrow> bool lite_result \<times> 's" where
  "set_seq so env s hlc seq =
     (case so_get so s ArrayDelta (hkey env hlc) of
        Inl e \<Rightarrow> (Inl e, s)
      | Inr None \<Rightarrow> (Inr False, s)
      | Inr (Some val) \<Rightarrow>
          (case decode_stored env val of
             Inl e \<Rightarrow> (Inl e, s)
           | Inr st \<Rightarrow>
               (case encode_stored env (st\<lparr>st_seq := seq\<rparr>) of
                  Inl e \<Rightarrow> (Inl e, s)
                | Inr val' \<Rightarrow>
                    (case so_put so s ArrayDelta (hkey env hlc) val' of
                       (Inl e, s') \<Rightarrow> (Inl e, s')
                     | (Inr _, s') \<Rightarrow> (Inr True, s')))))"

fun retire_keys ::
  "'s storage_ops \<Rightarrow> ('k, 'c, 'v) array_env \<Rightarrow> 's \<Rightarrow> 'k list \<Rightarrow> bytes list lite_result" where
  "retire_keys so env s [] = Inr []"
| "retire_keys so env s (h # hs) =
     rbind (so_get so s ArrayDelta (hkey env h)) (\<lambda>found.
     rbind (retire_keys so env s hs) (\<lambda>ks.
       Inr (if found \<noteq> None then hkey env h # ks else ks)))"

definition delete_all ::
  "'s storage_ops \<Rightarrow> 's \<Rightarrow> namespace \<Rightarrow> bytes list \<Rightarrow> u64 lite_result \<times> 's" where
  "delete_all so s ns ks =
     (if ks = [] then (Inr 0, s)
      else case so_batch_write so s (map (Delete ns) ks) of
             (Inl e, s') \<Rightarrow> (Inl e, s')
           | (Inr _, s') \<Rightarrow> (Inr (of_nat (length ks)), s'))"

definition retire ::
  "'s storage_ops \<Rightarrow> ('k, 'c, 'v) array_env \<Rightarrow> 's \<Rightarrow> 'k list \<Rightarrow> u64 lite_result \<times> 's" where
  "retire so env s hlcs =
     (case retire_keys so env s hlcs of
        Inl e \<Rightarrow> (Inl e, s)
      | Inr ks \<Rightarrow> delete_all so s ArrayDelta ks)"

definition ap_drain_batch ::
  "'s storage_ops \<Rightarrow> ('k, 'c, 'v) array_env \<Rightarrow> 's \<Rightarrow> usize \<Rightarrow> ('k, 'c, 'v) array_op list lite_result" where
  "ap_drain_batch so env s limit =
     rbind (so_scan_range so s ArrayDelta [] limit)
       (collect_results (\<lambda>(key, val). rbind (decode_stored env val) (\<lambda>st. decode_payload env (st_op st))))"

definition ack_through ::
  "'s storage_ops \<Rightarrow> ('k, 'c, 'v) array_env \<Rightarrow> 's \<Rightarrow> 'k \<Rightarrow> u64 lite_result \<times> 's" where
  "ack_through so env s ack_hlc =
     (case so_scan_range so s ArrayDelta [] usize_max of
        Inl e \<Rightarrow> (Inl e, s)
      | Inr pairs \<Rightarrow>
          delete_all so s ArrayDelta
            (map fst (takeWhile (\<lambda>(key, _). length key = 18 \<and> key \<le> hkey env ack_hlc) pairs)))"

definition ap_remove ::
  "'s storage_ops \<Rightarrow> ('k, 'c, 'v) array_env \<Rightarrow> 's \<Rightarrow> 'k \<Rightarrow> bool lite_result \<times> 's" where
  "ap_remove so env s hlc =
     (case so_get so s ArrayDelta (hkey env hlc) of
        Inl e \<Rightarrow> (Inl e, s)
      | Inr None \<Rightarrow> (Inr False, s)
      | Inr (Some _) \<Rightarrow>
          (case so_delete so s ArrayDelta (hkey env hlc) of
             (Inl e, s') \<Rightarrow> (Inl e, s')
           | (Inr _, s') \<Rightarrow> (Inr True, s')))"

subsection \<open>The op log\<close>

datatype array_error = SegmentCorruption | OpCodec

definition make_array_prefix :: "string \<Rightarrow> (array_error, bytes) result" where
  "make_array_prefix array =
     (let name = str_bytes array
      in if name = [] then Inl SegmentCorruption
         else if 255 < length name then Inl SegmentCorruption
         else Inr (of_nat (length name) # name))"

definition make_key :: "('k, 'c, 'v) array_env \<Rightarrow> string \<Rightarrow> 'k \<Rightarrow> (array_error, bytes) result" where
  "make_key env array hlc =
     (let name = str_bytes array
      in if name = [] then Inl SegmentCorruption
         else if 255 < length name then Inl SegmentCorruption
         else Inr (of_nat (length name) # name @ hkey env hlc))"

text \<open>The loop of \<open>next_prefix\<close> runs from the last byte to the first.\<close>

fun next_prefix_rev :: "bytes \<Rightarrow> bytes option" where
  "next_prefix_rev [] = None"
| "next_prefix_rev (b # bs) =
     (if b < 0xFF then Some ((b + 1) # bs) else map_option (\<lambda>r. 0 # r) (next_prefix_rev bs))"

definition next_prefix :: "bytes \<Rightarrow> bytes option" where
  "next_prefix pre = map_option rev (next_prefix_rev (rev pre))"

definition split_key :: "('k, 'c, 'v) array_env \<Rightarrow> bytes \<Rightarrow> (string \<times> 'k) option" where
  "split_key env key =
     (case key of
        [] \<Rightarrow> None
      | b # rest \<Rightarrow>
          (let name_len = unat b; name_end = 1 + name_len
           in if length key < name_end + 18 then None
              else let name = take name_len rest
                   in if \<not> valid_utf8 name then None
                      else Some (bytes_str name, hlc_of_bytes (ae_hlc env) (take 18 (drop name_len rest)))))"

definition decode_op :: "('k, 'c, 'v) array_env \<Rightarrow> bytes \<Rightarrow> (array_error, ('k, 'c, 'v) array_op) result" where
  "decode_op env val = (case cd_dec (ae_op env) val of None \<Rightarrow> Inl OpCodec | Some op \<Rightarrow> Inr op)"

definition lite_err_to_array :: "lite_error \<Rightarrow> array_error" where
  "lite_err_to_array e = SegmentCorruption"

definition log_append ::
  "'s storage_ops \<Rightarrow> ('k, 'c, 'v) array_env \<Rightarrow> 's \<Rightarrow> ('k, 'c, 'v) array_op \<Rightarrow> (array_error, unit) result \<times> 's" where
  "log_append so env s op =
     (case make_key env (ao_array op) (ao_hlc op) of
        Inl e \<Rightarrow> (Inl e, s)
      | Inr key \<Rightarrow>
          (case cd_enc (ae_op env) op of
             None \<Rightarrow> (Inl OpCodec, s)
           | Some val \<Rightarrow>
               (case so_put so s ArrayOpLog key val of (r, s') \<Rightarrow> (map_err lite_err_to_array r, s'))))"

definition log_scan_from ::
  "'s storage_ops \<Rightarrow> ('k::linorder, 'c, 'v) array_env \<Rightarrow> 's \<Rightarrow> 'k \<Rightarrow>
   (array_error, (array_error, ('k, 'c, 'v) array_op) result list) result" where
  "log_scan_from so env s from_hlc =
     rbind (map_err lite_err_to_array (so_scan_range so s ArrayOpLog [] usize_max)) (\<lambda>pairs.
       Inr (List.map_filter (\<lambda>(key, val).
              case split_key env key of
                None \<Rightarrow> None
              | Some (_, hlc) \<Rightarrow> if hlc < from_hlc then None else Some (decode_op env val)) pairs))"

definition log_scan_range ::
  "'s storage_ops \<Rightarrow> ('k::linorder, 'c, 'v) array_env \<Rightarrow> 's \<Rightarrow> string \<Rightarrow> 'k \<Rightarrow> 'k \<Rightarrow>
   (array_error, (array_error, ('k, 'c, 'v) array_op) result list) result" where
  "log_scan_range so env s array from_hlc to_hlc =
     rbind (make_key env array from_hlc) (\<lambda>start.
       if from_hlc > to_hlc then Inr []
       else rbind (make_key env array to_hlc) (\<lambda>to_key.
            rbind (map_err lite_err_to_array
                     (so_scan_range_bounded so s ArrayOpLog (Some start) (next_prefix to_key) None)) (\<lambda>pairs.
            rbind (make_array_prefix array) (\<lambda>pre.
              Inr (List.map_filter (\<lambda>(key, val).
                     case split_key env key of
                       None \<Rightarrow> None
                     | Some (_, hlc) \<Rightarrow>
                         if hlc < from_hlc \<or> hlc > to_hlc then None else Some (decode_op env val))
                   (takeWhile (\<lambda>(key, _). prefix pre key) pairs))))))"

definition log_len :: "'s storage_ops \<Rightarrow> 's \<Rightarrow> (array_error, u64) result" where
  "log_len so s = map_err lite_err_to_array (so_count so s ArrayOpLog)"

definition log_drop_below ::
  "'s storage_ops \<Rightarrow> ('k::linorder, 'c, 'v) array_env \<Rightarrow> 's \<Rightarrow> 'k \<Rightarrow> (array_error, u64) result \<times> 's" where
  "log_drop_below so env s hlc =
     (case so_scan_range so s ArrayOpLog [] usize_max of
        Inl e \<Rightarrow> (Inl (lite_err_to_array e), s)
      | Inr pairs \<Rightarrow>
          (case delete_all so s ArrayOpLog
                  (List.map_filter (\<lambda>(key, _).
                     case split_key env key of
                       None \<Rightarrow> None
                     | Some (_, entry_hlc) \<Rightarrow> if entry_hlc < hlc then Some key else None) pairs) of
             (r, s') \<Rightarrow> (map_err lite_err_to_array r, s')))"

subsection \<open>The schema registry\<close>

text \<open>The schema document API: \<open>sd_replace\<close> and \<open>sd_import\<close> report success and return
  the document and the clock generator, which they advance.\<close>

record ('d, 'sch, 'g, 'k) schema_api =
  sd_new :: "u64 \<Rightarrow> 'd"
  sd_from_schema :: "u64 \<Rightarrow> 'sch \<Rightarrow> 'g \<Rightarrow> 'd option \<times> 'g"
  sd_replace :: "'sch \<Rightarrow> 'd \<Rightarrow> 'g \<Rightarrow> bool \<times> 'd \<times> 'g"
  sd_import :: "bytes \<Rightarrow> 'k \<Rightarrow> 'd \<Rightarrow> 'g \<Rightarrow> bool \<times> 'd \<times> 'g"
  sd_export :: "'d \<Rightarrow> bytes option"
  sd_hlc :: "'d \<Rightarrow> 'k"

record persisted_schema =
  psd_replica_id :: u64
  psd_schema_hlc_bytes :: bytes
  psd_loro_snapshot :: bytes

definition SCHEMA_KEY_PREFIX :: string where
  "SCHEMA_KEY_PREFIX = ''array.schema_doc:''"

definition schema_key :: "string \<Rightarrow> bytes" where
  "schema_key name = str_bytes (SCHEMA_KEY_PREFIX @ name)"

record 'd schema_registry =
  sr_docs :: "(string, 'd) hmap"
  sr_poisoned :: bool

text \<open>The registry shares the storage and the replica state with other components; a
  registry operation works on the three together.\<close>

type_synonym ('d, 'g, 's) registry_state = "'d schema_registry \<times> 'g replica_state \<times> 's"

definition SchemaRegistry_new :: "'d schema_registry" where
  "SchemaRegistry_new = \<lparr>sr_docs = [], sr_poisoned = False\<rparr>"

definition schema_persist ::
  "'s storage_ops \<Rightarrow> 'k hlc_api \<Rightarrow> persisted_schema codec \<Rightarrow> string \<Rightarrow> 'k \<Rightarrow> bytes \<Rightarrow> 'g replica_state \<Rightarrow> 's \<Rightarrow>
   unit lite_result \<times> 's" where
  "schema_persist so hapi pcd name hlc snapshot rep s =
     (case cd_enc pcd \<lparr>psd_replica_id = rs_replica_id rep, psd_schema_hlc_bytes = hlc_bytes hapi hlc,
                       psd_loro_snapshot = snapshot\<rparr> of
        None \<Rightarrow> (Inl Serialization, s)
      | Some b \<Rightarrow> so_put so s Meta (schema_key name) b)"

text \<open>The tail of \<open>put_schema\<close> and \<open>import_snapshot\<close>: read the version, export, persist.\<close>

definition export_and_persist ::
  "'s storage_ops \<Rightarrow> 'k hlc_api \<Rightarrow> persisted_schema codec \<Rightarrow> ('d, 'sch, 'g, 'k) schema_api \<Rightarrow> string \<Rightarrow> 'd \<Rightarrow>
   'g replica_state \<Rightarrow> 's \<Rightarrow> 'k lite_result \<times> 's" where
  "export_and_persist so hapi pcd api name doc rep s =
     (case sd_export api doc of
        None \<Rightarrow> (Inl Storage, s)
      | Some snapshot \<Rightarrow>
          (case schema_persist so hapi pcd name (sd_hlc api doc) snapshot rep s of
             (Inl e, s') \<Rightarrow> (Inl e, s')
           | (Inr _, s') \<Rightarrow> (Inr (sd_hlc api doc), s')))"

definition put_schema ::
  "'s storage_ops \<Rightarrow> 'k hlc_api \<Rightarrow> persisted_schema codec \<Rightarrow> ('d, 'sch, 'g, 'k) schema_api \<Rightarrow> string \<Rightarrow> 'sch \<Rightarrow>
   ('d, 'g, 's) registry_state \<Rightarrow> 'k lite_result \<times> ('d, 'g, 's) registry_state" where
  "put_schema so hapi pcd api name schema = (\<lambda>(reg, rep, s).
     if sr_poisoned reg then (Inl LockPoisoned, reg, rep, s)
     else case hm_get (sr_docs reg) name of
            Some existing \<Rightarrow>
              (case sd_replace api schema existing (rs_hlc_gen rep) of
                 (ok, doc, g) \<Rightarrow>
                   (let reg = reg\<lparr>sr_docs := hm_insert name doc (sr_docs reg)\<rparr>;
                        rep = rep\<lparr>rs_hlc_gen := g\<rparr>
                    in if \<not> ok then (Inl Storage, reg, rep, s)
                       else case export_and_persist so hapi pcd api name doc rep s of
                              (r, s') \<Rightarrow> (r, reg, rep, s')))
          | None \<Rightarrow>
              (case sd_from_schema api (rs_replica_id rep) schema (rs_hlc_gen rep) of
                 (None, g) \<Rightarrow> (Inl Storage, reg, rep\<lparr>rs_hlc_gen := g\<rparr>, s)
               | (Some doc, g) \<Rightarrow>
                   (let reg = reg\<lparr>sr_docs := hm_insert name doc (sr_docs reg)\<rparr>;
                        rep = rep\<lparr>rs_hlc_gen := g\<rparr>
                    in case export_and_persist so hapi pcd api name doc rep s of
                         (r, s') \<Rightarrow> (r, reg, rep, s'))))"

definition schema_hlc :: "('d, 'sch, 'g, 'k) schema_api \<Rightarrow> 'd schema_registry \<Rightarrow> string \<Rightarrow> 'k option" where
  "schema_hlc api reg name =
     (if sr_poisoned reg then None else map_option (sd_hlc api) (hm_get (sr_docs reg) name))"

definition import_snapshot ::
  "'s storage_ops \<Rightarrow> 'k hlc_api \<Rightarrow> persisted_schema codec \<Rightarrow> ('d, 'sch, 'g, 'k) schema_api \<Rightarrow> string \<Rightarrow> bytes \<Rightarrow>
   'k \<Rightarrow> ('d, 'g, 's) registry_state \<Rightarrow> unit lite_result \<times> ('d, 'g, 's) registry_state" where
  "import_snapshot so hapi pcd api name snapshot_bytes remote_hlc = (\<lambda>(reg, rep, s).
     if sr_poisoned reg then (Inl LockPoisoned, reg, rep, s)
     else let doc0 = hm_get_or (sd_new api (rs_replica_id rep)) (sr_docs reg) name
          in case sd_import api snapshot_bytes remote_hlc doc0 (rs_hlc_gen rep) of
               (ok, doc, g) \<Rightarrow>
                 (let reg = reg\<lparr>sr_docs := hm_insert name doc (sr_docs reg)\<rparr>;
                      rep = rep\<lparr>rs_hlc_gen := g\<rparr>
                  in if \<not> ok then (Inl Storage, reg, rep, s)
                     else case export_and_persist so hapi pcd api name doc rep s of
                            (Inl e, s') \<Rightarrow> (Inl e, reg, rep, s')
                          | (Inr _, s') \<Rightarrow> (Inr (), reg, rep, s')))"

definition list_arrays :: "'d schema_registry \<Rightarrow> string list" where
  "list_arrays reg = (if sr_poisoned reg then [] else map fst (sr_docs reg))"

definition export_snapshot ::
  "('d, 'sch, 'g, 'k) schema_api \<Rightarrow> 'd schema_registry \<Rightarrow> string \<Rightarrow> bytes option lite_result" where
  "export_snapshot api reg name =
     (if sr_poisoned reg then Inl LockPoisoned
      else case hm_get (sr_docs reg) name of
             None \<Rightarrow> Inr None
           | Some doc \<Rightarrow> (case sd_export api doc of None \<Rightarrow> Inl Storage | Some b \<Rightarrow> Inr (Some b)))"

definition export_versioned ::
  "('d, 'sch, 'g, 'k) schema_api \<Rightarrow> 'd schema_registry \<Rightarrow> string \<Rightarrow> ('k \<times> bytes) option lite_result" where
  "export_versioned api reg name =
     (if sr_poisoned reg then Inl LockPoisoned
      else case hm_get (sr_docs reg) name of
             None \<Rightarrow> Inr None
           | Some doc \<Rightarrow>
               (case sd_export api doc of None \<Rightarrow> Inl Storage | Some b \<Rightarrow> Inr (Some (sd_hlc api doc, b))))"

fun schema_load_loop ::
  "'k hlc_api \<Rightarrow> persisted_schema codec \<Rightarrow> ('d, 'sch, 'g, 'k) schema_api \<Rightarrow> kv_pair list \<Rightarrow>
   (string, 'd) hmap \<Rightarrow> 'g replica_state \<Rightarrow> (string, 'd) hmap lite_result \<times> 'g replica_state" where
  "schema_load_loop hapi pcd api [] docs rep = (Inr docs, rep)"
| "schema_load_loop hapi pcd api ((key, val) # pairs) docs rep =
     (let name_bytes = drop (length SCHEMA_KEY_PREFIX) key
      in if \<not> valid_utf8 name_bytes then (Inl Storage, rep)
         else case cd_dec pcd val of
                None \<Rightarrow> (Inl Storage, rep)
              | Some persisted \<Rightarrow>
                  if length (psd_schema_hlc_bytes persisted) \<noteq> 18 then (Inl Storage, rep)
                  else case sd_import api (psd_loro_snapshot persisted)
                              (hlc_of_bytes hapi (psd_schema_hlc_bytes persisted))
                              (sd_new api (rs_replica_id rep)) (rs_hlc_gen rep) of
                         (ok, doc, g) \<Rightarrow>
                           if \<not> ok then (Inl Storage, rep\<lparr>rs_hlc_gen := g\<rparr>)
                           else schema_load_loop hapi pcd api pairs
                                  (hm_insert (bytes_str name_bytes) doc docs) (rep\<lparr>rs_hlc_gen := g\<rparr>))"

definition schema_load ::
  "'s storage_ops \<Rightarrow> 'k hlc_api \<Rightarrow> persisted_schema codec \<Rightarrow> ('d, 'sch, 'g, 'k) schema_api \<Rightarrow> 's \<Rightarrow>
   'g replica_state \<Rightarrow> 'd schema_registry lite_result \<times> 'g replica_state" where
  "schema_load so hapi pcd api s rep =
     (case so_scan_prefix so s Meta (str_bytes SCHEMA_KEY_PREFIX) of
        Inl e \<Rightarrow> (Inl e, rep)
      | Inr pairs \<Rightarrow>
          (case schema_load_loop hapi pcd api pairs [] rep of
             (Inl e, rep') \<Rightarrow> (Inl e, rep')
           | (Inr docs, rep') \<Rightarrow> (Inr \<lparr>sr_docs = docs, sr_poisoned = False\<rparr>, rep')))"

subsection \<open>The emitter\<close>

definition require_schema_hlc ::
  "('d, 'sch, 'g, 'k) schema_api \<Rightarrow> 'd schema_registry \<Rightarrow> string \<Rightarrow> 'k lite_result" where
  "require_schema_hlc api reg array =
     (case schema_hlc api reg array of None \<Rightarrow> Inl Storage | Some h \<Rightarrow> Inr h)"

definition emit_record ::
  "'s storage_ops \<Rightarrow> ('k, 'c, 'v) array_env \<Rightarrow> array_pending \<Rightarrow> ('k, 'c, 'v) array_op \<Rightarrow> 's \<Rightarrow>
   unit lite_result \<times> 's" where
  "emit_record so env q op s =
     (case log_append so env s op of
        (Inl e, s') \<Rightarrow> (Inl Storage, s')
      | (Inr _, s') \<Rightarrow> ap_enqueue so env q s' op)"

definition emit_op ::
  "'s storage_ops \<Rightarrow> ('k, 'c, 'v) array_env \<Rightarrow> ('d, 'sch, 'g, 'k) schema_api \<Rightarrow>
   ('g \<Rightarrow> ('ae, 'k) result \<times> 'g) \<Rightarrow> array_pending \<Rightarrow> 'd schema_registry \<Rightarrow> array_op_kind \<Rightarrow> 'v list option \<Rightarrow>
   string \<Rightarrow> 'c list \<Rightarrow> u64 \<Rightarrow> u64 \<Rightarrow> 'g replica_state \<times> 's \<Rightarrow> 'k lite_result \<times> 'g replica_state \<times> 's" where
  "emit_op so env api hlc_next q reg kind attrs array coord valid_from valid_until = (\<lambda>(rep, s).
     (case require_schema_hlc api reg array of
        Inl e \<Rightarrow> (Inl e, rep, s)
      | Inr sh \<Rightarrow>
          (case next_hlc hlc_next rep of
             (Inl e, rep') \<Rightarrow> (Inl e, rep', s)
           | (Inr hlc, rep') \<Rightarrow>
               (let op = \<lparr>ao_array = array, ao_hlc = hlc, ao_schema_hlc = sh, ao_valid_from_ms = valid_from,
                          ao_valid_until_ms = valid_until,
                          ao_system_from_ms = hlc_physical_ms (ae_hlc env) hlc, ao_kind = kind,
                          ao_coord = coord, ao_attrs = attrs\<rparr>
                in case emit_record so env q op s of
                     (Inl e, s') \<Rightarrow> (Inl e, rep', s')
                   | (Inr _, s') \<Rightarrow> (Inr hlc, rep', s')))))"

definition emit_put ::
  "'s storage_ops \<Rightarrow> ('k, 'c, 'v) array_env \<Rightarrow> ('d, 'sch, 'g, 'k) schema_api \<Rightarrow>
   ('g \<Rightarrow> ('ae, 'k) result \<times> 'g) \<Rightarrow> array_pending \<Rightarrow> 'd schema_registry \<Rightarrow> string \<Rightarrow> 'c list \<Rightarrow> 'v list \<Rightarrow> u64 \<Rightarrow> u64 \<Rightarrow>
   'g replica_state \<times> 's \<Rightarrow> 'k lite_result \<times> 'g replica_state \<times> 's" where
  "emit_put so env api hlc_next q reg array coord attrs =
     emit_op so env api hlc_next q reg OpPut (Some attrs) array coord"

definition emit_delete ::
  "'s storage_ops \<Rightarrow> ('k, 'c, 'v) array_env \<Rightarrow> ('d, 'sch, 'g, 'k) schema_api \<Rightarrow>
   ('g \<Rightarrow> ('ae, 'k) result \<times> 'g) \<Rightarrow> array_pending \<Rightarrow> 'd schema_registry \<Rightarrow> string \<Rightarrow> 'c list \<Rightarrow> u64 \<Rightarrow> u64 \<Rightarrow>
   'g replica_state \<times> 's \<Rightarrow> 'k lite_result \<times> 'g replica_state \<times> 's" where
  "emit_delete so env api hlc_next q reg = emit_op so env api hlc_next q reg OpDelete None"

definition emit_erase ::
  "'s storage_ops \<Rightarrow> ('k, 'c, 'v) array_env \<Rightarrow> ('d, 'sch, 'g, 'k) schema_api \<Rightarrow>
   ('g \<Rightarrow> ('ae, 'k) result \<times> 'g) \<Rightarrow> array_pending \<Rightarrow> 'd schema_registry \<Rightarrow> string \<Rightarrow> 'c list \<Rightarrow> u64 \<Rightarrow> u64 \<Rightarrow>
   'g replica_state \<times> 's \<Rightarrow> 'k lite_result \<times> 'g replica_state \<times> 's" where
  "emit_erase so env api hlc_next q reg = emit_op so env api hlc_next q reg OpErase None"

subsection \<open>The pending queue refines a map from clock values to ops\<close>

definition ap_ok :: "('k, 'c, 'v) array_env \<Rightarrow> rows \<Rightarrow> bool" where
  "ap_ok env m \<longleftrightarrow>
     (\<forall>k v. m ArrayDelta k = Some v \<longrightarrow> (\<exists>p. scanned_op env (k, v) = Inr p \<and> k = hkey env (pa_hlc p)))"

definition ap_view :: "('k, 'c, 'v) array_env \<Rightarrow> rows \<Rightarrow> 'k \<rightharpoonup> 'k pending_array_op" where
  "ap_view env m h =
     (case m ArrayDelta (hkey env h) of
        None \<Rightarrow> None
      | Some v \<Rightarrow> (case scanned_op env (hkey env h, v) of Inl _ \<Rightarrow> None | Inr p \<Rightarrow> Some p))"

definition array_env_law :: "('k::linorder, 'c, 'v) array_env \<Rightarrow> bool" where
  "array_env_law env \<longleftrightarrow> hlc_law (ae_hlc env) \<and> codec_law (ae_stored env) \<and> codec_law (ae_op env)"

datatype ('k, 'c, 'v) queue_call =
    QEnqueue "('k, 'c, 'v) array_op"
  | QSetSeq 'k u64
  | QRetire "'k list"
  | QRemove 'k
  | QAckThrough 'k

fun ap_call ::
  "'s storage_ops \<Rightarrow> ('k, 'c, 'v) array_env \<Rightarrow> array_pending \<Rightarrow> ('k, 'c, 'v) queue_call \<Rightarrow> 's \<Rightarrow> bool \<times> 's" where
  "ap_call so env q (QEnqueue op) s = (case ap_enqueue so env q s op of (r, s') \<Rightarrow> (is_ok r, s'))"
| "ap_call so env q (QSetSeq h n) s = (case set_seq so env s h n of (r, s') \<Rightarrow> (is_ok r, s'))"
| "ap_call so env q (QRetire hs) s = (case retire so env s hs of (r, s') \<Rightarrow> (is_ok r, s'))"
| "ap_call so env q (QRemove h) s = (case ap_remove so env s h of (r, s') \<Rightarrow> (is_ok r, s'))"
| "ap_call so env q (QAckThrough h) s = (case ack_through so env s h of (r, s') \<Rightarrow> (is_ok r, s'))"

text \<open>The specification: a map from clock values to queued ops. A failed call changes
  nothing.\<close>

fun aq_call ::
  "('k::linorder, 'c, 'v) array_env \<Rightarrow> ('k, 'c, 'v) queue_call \<Rightarrow> ('k \<rightharpoonup> 'k pending_array_op) \<Rightarrow>
   ('k \<rightharpoonup> 'k pending_array_op)" where
  "aq_call env (QEnqueue op) w =
     w(ao_hlc op \<mapsto> \<lparr>pa_array = ao_array op, pa_hlc = ao_hlc op,
                      pa_op_payload = the (cd_enc (ae_op env) op), pa_seq = 0\<rparr>)"
| "aq_call env (QSetSeq h n) w = w(h := map_option (\<lambda>p. p\<lparr>pa_seq := n\<rparr>) (w h))"
| "aq_call env (QRetire hs) w = (\<lambda>h. if h \<in> set hs then None else w h)"
| "aq_call env (QRemove h) w = w(h := None)"
| "aq_call env (QAckThrough a) w = (\<lambda>h. if h \<le> a then None else w h)"

fun ap_run ::
  "'s storage_ops \<Rightarrow> ('k, 'c, 'v) array_env \<Rightarrow> array_pending \<Rightarrow> ('k, 'c, 'v) queue_call list \<Rightarrow> 's \<Rightarrow>
   ('k, 'c, 'v) queue_call list \<times> 's" where
  "ap_run so env q [] s = ([], s)"
| "ap_run so env q (c # cs) s =
     (case ap_call so env q c s of
        (ok, s') \<Rightarrow> (case ap_run so env q cs s' of (done_calls, s'') \<Rightarrow> (if ok then c # done_calls else done_calls, s'')))"

lemma hlc_lawD:
  assumes "hlc_law api"
  shows "length (hlc_bytes api h) = 18" "hlc_of_bytes api (hlc_bytes api h) = h"
    "hlc_bytes api a < hlc_bytes api b \<longleftrightarrow> a < b" "hlc_bytes api a \<le> hlc_bytes api b \<longleftrightarrow> a \<le> b"
    "hlc_bytes api a = hlc_bytes api b \<longleftrightarrow> a = b"
  using assms unfolding hlc_law_def by (blast, blast, blast, metis linorder_not_less, metis)

lemma key_after_le: "hlc_law (ae_hlc env) \<Longrightarrow> key_after env a \<le> hkey env h \<longleftrightarrow> a < h"
  by (simp add: key_after_def snoc_zero_le_iff hlc_lawD)

lemma scanned_op_enc:
  assumes "array_env_law env" "cd_enc (ae_stored env) st = Some v" "cd_dec (ae_op env) (st_op st) = Some op"
  shows "scanned_op env (k, v) = Inr \<lparr>pa_array = ao_array op, pa_hlc = ao_hlc op, pa_op_payload = st_op st, pa_seq = st_seq st\<rparr>"
  using assms by (simp add: scanned_op_def decode_stored_def decode_payload_def array_env_law_def codec_law_def)

lemma ap_ok_scanned:
  "ap_ok env m \<Longrightarrow> hlc_law (ae_hlc env) \<Longrightarrow> m ArrayDelta (hkey env h) = Some v \<Longrightarrow>
   \<exists>p. scanned_op env (hkey env h, v) = Inr p \<and> pa_hlc p = h"
  unfolding ap_ok_def by (metis hlc_lawD(5))

lemma ap_view_put:
  assumes "ap_ok env m" "hlc_law (ae_hlc env)" "scanned_op env (hkey env h, v) = Inr p" "pa_hlc p = h"
  shows "ap_view env (rows_apply m (Put ArrayDelta (hkey env h) v)) = (ap_view env m)(h \<mapsto> p)"
    and "ap_ok env (rows_apply m (Put ArrayDelta (hkey env h) v))"
  using assms by (auto simp: ap_view_def ap_ok_def fun_eq_iff hlc_lawD)

lemma ap_view_deletes:
  assumes "ap_ok env m" "m' ArrayDelta = (\<lambda>k. if k \<in> K then None else m ArrayDelta k)"
  shows "ap_view env m' = (\<lambda>h. if hkey env h \<in> K then None else ap_view env m h)" "ap_ok env m'"
  using assms by (auto simp: ap_view_def ap_ok_def fun_eq_iff split: if_splits)

lemma takeWhile_le_sorted:
  fixes c :: "'a::linorder"
  shows "sorted_wrt (<) (map fst ys) \<Longrightarrow> takeWhile (\<lambda>kv. fst kv \<le> c) ys = filter (\<lambda>kv. fst kv \<le> c) ys"
  by (induction ys) (auto intro!: filter_False [symmetric])

definition ap_inv :: "('k, 'c, 'v) array_env \<Rightarrow> usize \<Rightarrow> rows \<Rightarrow> bool" where
  "ap_inv env cap m \<longleftrightarrow> ap_ok env m \<and> card (dom (m ArrayDelta)) \<le> cap"

locale array_store = storage_engine +
  assumes delta_visible: "\<not> hidden ArrayDelta k"
    and log_visible: "\<not> hidden ArrayOpLog k"
    and schema_visible: "prefix (str_bytes SCHEMA_KEY_PREFIX) k \<Longrightarrow> \<not> hidden Meta k"
begin

lemma delete_all_rows:
  assumes "store_inv s" "delete_all so s ns ks = (r, s')"
  shows "store_inv s'"
    "rows_of s' ns' = (if is_ok r \<and> ns' = ns then (\<lambda>k. if k \<in> set ks then None else rows_of s ns k) else rows_of s ns')"
proof -
  have "store_inv s' \<and> rows_of s' ns' = (if is_ok r \<and> ns' = ns then (\<lambda>k. if k \<in> set ks then None else rows_of s ns k) else rows_of s ns')"
  proof (cases "ks = []")
    case False
    obtain b s2 where b: "so_batch_write so s (map (Delete ns) ks) = (b, s2)"
      by fastforce
    show ?thesis
      using assms False b batch_inv [OF assms(1) b] batch_atomic [OF assms(1) b]
      by (auto simp: delete_all_def rows_apply_all_deletes fun_eq_iff split: sum.splits)
  qed (use assms in \<open>auto simp: delete_all_def\<close>)
  then show "store_inv s'"
    "rows_of s' ns' = (if is_ok r \<and> ns' = ns then (\<lambda>k. if k \<in> set ks then None else rows_of s ns k) else rows_of s ns')"
    by auto
qed

lemma retire_keys_set:
  assumes "store_inv s" "retire_keys so env s hs = Inr ks"
  shows "set ks = {k \<in> hkey env ` set hs. rows_of s ArrayDelta k \<noteq> None}"
  using assms(2)
proof (induction hs arbitrary: ks)
  case (Cons h hs)
  obtain found ks' where f: "so_get so s ArrayDelta (hkey env h) = Inr found" "retire_keys so env s hs = Inr ks'"
    "ks = (if found \<noteq> None then hkey env h # ks' else ks')"
    using Cons.prems by auto
  have "found = rows_of s ArrayDelta (hkey env h)"
    by (rule get_law [OF assms(1) f(1)])
  then show ?case
    using f(3) Cons.IH [OF f(2)] by auto
qed simp

lemma finite_delta: "store_inv s \<Longrightarrow> finite (dom (rows_of s ArrayDelta))"
  by (rule finite_rows)

lemma ap_deleted:
  assumes "store_inv s" "ap_inv env cap (rows_of s)" "delete_all so s ArrayDelta ks = (r, s')"
  shows "store_inv s' \<and> ap_inv env cap (rows_of s') \<and>
    ap_view env (rows_of s') =
      (\<lambda>h. if is_ok r \<and> hkey env h \<in> set ks then None else ap_view env (rows_of s) h)"
proof (cases "is_ok r")
  case True
  then have d: "rows_of s' ArrayDelta = (\<lambda>k. if k \<in> set ks then None else rows_of s ArrayDelta k)"
    using delete_all_rows(2) [OF assms(1,3), of ArrayDelta] by simp
  then have "dom (rows_of s' ArrayDelta) \<subseteq> dom (rows_of s ArrayDelta)"
    by (auto split: if_splits)
  then have "card (dom (rows_of s' ArrayDelta)) \<le> cap"
    using card_mono [OF finite_delta [OF assms(1)]] assms(2) unfolding ap_inv_def by (metis le_trans)
  then show ?thesis
    using ap_view_deletes [of env "rows_of s" "rows_of s'" "set ks", OF _ d] assms(2) delete_all_rows(1) [OF assms(1,3)] True
    by (simp add: ap_inv_def)
next
  case False
  then have "rows_of s' ArrayDelta = rows_of s ArrayDelta"
    using delete_all_rows(2) [OF assms(1,3), of ArrayDelta] by simp
  then show ?thesis
    using assms(2) delete_all_rows(1) [OF assms(1,3)] False by (simp add: ap_inv_def ap_ok_def ap_view_def [abs_def])
qed

lemma ap_same:
  assumes "rows_of s' = rows_of s"
  shows "ap_inv env cap (rows_of s') = ap_inv env cap (rows_of s)" "ap_view env (rows_of s') = ap_view env (rows_of s)"
  by (simp_all add: assms)

text \<open>A put under the op's own key: the one way a queue row is written.\<close>

lemma ap_written:
  assumes "store_inv s" "ap_inv env cap (rows_of s)" "array_env_law env"
    and "so_put so s ArrayDelta (hkey env h) v = (r, s')" "scanned_op env (hkey env h, v) = Inr p" "pa_hlc p = h"
    and "card (insert (hkey env h) (dom (rows_of s ArrayDelta))) \<le> cap"
  shows "store_inv s' \<and> ap_inv env cap (rows_of s') \<and>
    ap_view env (rows_of s') = (if is_ok r then (ap_view env (rows_of s))(h \<mapsto> p) else ap_view env (rows_of s))"
proof (cases r)
  case (Inl e)
  then show ?thesis
    using put_err [OF assms(1)] put_inv [OF assms(1,4)] assms(2,4) by auto
next
  case (Inr u)
  have r: "rows_of s' = rows_apply (rows_of s) (Put ArrayDelta (hkey env h) v)"
    using put_ok [OF assms(1)] assms(4) Inr by simp
  show ?thesis
    using ap_view_put [of env "rows_of s" h v p] assms(2,3,5,6,7) put_inv [OF assms(1,4)] Inr
    unfolding r ap_inv_def array_env_law_def by simp
qed

lemma enqueue_refines:
  assumes "store_inv s" "ap_inv env (ap_cap q) (rows_of s)" "array_env_law env" "ap_cap q < usize_max"
    and "ap_enqueue so env q s op = (r, s')"
  shows "store_inv s' \<and> ap_inv env (ap_cap q) (rows_of s') \<and>
    ap_view env (rows_of s') =
      (if is_ok r then aq_call env (QEnqueue op) (ap_view env (rows_of s)) else ap_view env (rows_of s))"
proof (cases "\<exists>n payload v. ap_len so s = Inr n \<and> \<not> n \<ge> of_nat (ap_cap q) \<and> cd_enc (ae_op env) op = Some payload
    \<and> cd_enc (ae_stored env) \<lparr>st_seq = 0, st_op = payload\<rparr> = Some v")
  case False
  then have "s' = s \<and> \<not> is_ok r"
    using assms(5) by (auto simp: ap_enqueue_def encode_stored_def split: sum.splits if_splits option.splits)
  then show ?thesis using assms by auto
next
  case True
  then obtain n payload v where g: "ap_len so s = Inr n" "\<not> n \<ge> of_nat (ap_cap q)"
    "cd_enc (ae_op env) op = Some payload" "cd_enc (ae_stored env) \<lparr>st_seq = 0, st_op = payload\<rparr> = Some v"
    by blast
  have p: "so_put so s ArrayDelta (hkey env (ao_hlc op)) v = (r, s')"
    using assms(5) g by (simp add: ap_enqueue_def encode_stored_def)
  have n: "n = of_nat (card (dom (rows_of s ArrayDelta)))"
    using count_law [OF assms(1)] g(1) by (simp add: ap_len_def)
  have u: "unat (of_nat x :: u64) = x" if "x < usize_max" for x
    using that by (simp add: usize_max_def unat_of_nat take_bit_eq_mod)
  have "card (dom (rows_of s ArrayDelta)) < usize_max"
    using assms(2,4) by (simp add: ap_inv_def)
  then have "card (dom (rows_of s ArrayDelta)) < ap_cap q"
    using g(2) u u [OF assms(4)] unfolding n by (simp add: not_le word_less_nat_alt)
  then have c: "card (insert (hkey env (ao_hlc op)) (dom (rows_of s ArrayDelta))) \<le> ap_cap q"
    using finite_delta [OF assms(1)] by (simp add: card_insert_if)
  have "cd_dec (ae_op env) payload = Some op"
    using assms(3) g(3) by (simp add: array_env_law_def codec_law_def)
  from scanned_op_enc [OF assms(3) g(4), of op] this
  show ?thesis
    using ap_written [OF assms(1-3) p _ _ c] g(3) by simp
qed

lemma set_seq_refines:
  assumes "store_inv s" "ap_inv env cap (rows_of s)" "array_env_law env"
    and "set_seq so env s h n = (r, s')"
  shows "store_inv s' \<and> ap_inv env cap (rows_of s') \<and>
    ap_view env (rows_of s') =
      (if is_ok r then aq_call env (QSetSeq h n) (ap_view env (rows_of s)) else ap_view env (rows_of s))"
proof (cases "so_get so s ArrayDelta (hkey env h)")
  case (Inl e)
  then show ?thesis using assms by (auto simp: set_seq_def)
next
  case (Inr found)
  then have found: "found = rows_of s ArrayDelta (hkey env h)"
    by (rule get_law [OF assms(1)])
  show ?thesis
  proof (cases found)
    case None
    then have "ap_view env (rows_of s) h = None"
      using found by (simp add: ap_view_def)
    then show ?thesis
      using assms Inr None by (auto simp: set_seq_def fun_upd_idem)
  next
    case (Some v)
    then obtain p where p: "scanned_op env (hkey env h, v) = Inr p" "pa_hlc p = h"
      using ap_ok_scanned [of env "rows_of s" h v] assms(2,3) found by (auto simp: ap_inv_def array_env_law_def)
    then obtain st op where st: "cd_dec (ae_stored env) v = Some st" "cd_dec (ae_op env) (st_op st) = Some op"
      "p = \<lparr>pa_array = ao_array op, pa_hlc = ao_hlc op, pa_op_payload = st_op st, pa_seq = st_seq st\<rparr>"
      by (auto simp: scanned_op_def decode_stored_def decode_payload_def split: option.splits)
    have w: "ap_view env (rows_of s) h = Some p"
      using p(1) Some found by (simp add: ap_view_def)
    show ?thesis
    proof (cases "cd_enc (ae_stored env) (st\<lparr>st_seq := n\<rparr>)")
      case None
      then show ?thesis
        using assms Inr Some st(1) by (auto simp: set_seq_def decode_stored_def encode_stored_def)
    next
      case enc: (Some v')
      obtain r' where put: "so_put so s ArrayDelta (hkey env h) v' = (r', s')" "is_ok r' = is_ok r"
        using assms(4) Inr Some st(1) enc
        by (auto simp: set_seq_def decode_stored_def encode_stored_def split: prod.splits sum.splits)
      have sc: "scanned_op env (hkey env h, v') = Inr (p\<lparr>pa_seq := n\<rparr>)"
        using scanned_op_enc [OF assms(3) enc, of op] st by simp
      have c: "card (insert (hkey env h) (dom (rows_of s ArrayDelta))) \<le> cap"
        using assms(2) Some found by (simp add: ap_inv_def insert_absorb domI)
      show ?thesis
        using ap_written [OF assms(1-3) put(1) sc _ c] p(2) put(2) w by simp
    qed
  qed
qed

lemma ack_through_keys:
  assumes "store_inv s" "ap_inv env cap (rows_of s)" "array_env_law env" "cap < usize_max"
    and "so_scan_range so s ArrayDelta [] usize_max = Inr pairs"
  shows "hkey env h \<in> set (map fst (takeWhile (\<lambda>(key, _). length key = 18 \<and> key \<le> hkey env a) pairs))
     \<longleftrightarrow> h \<le> a \<and> rows_of s ArrayDelta (hkey env h) \<noteq> None"
proof -
  note fin = finite_delta [OF assms(1)]
  let ?es = "entries_where (\<lambda>_. True) (rows_of s ArrayDelta)"
  have "length ?es \<le> usize_max"
    using entries_where_length_le [OF fin, of "\<lambda>_. True"] assms(2,4) unfolding ap_inv_def by linarith
  moreover have "pairs = take usize_max ?es"
    using scan_range_law [OF assms(1) _ assms(5)] delta_visible by simp
  ultimately have pairs: "pairs = ?es" by simp
  have len: "length k = 18" if "(k, v) \<in> set ?es" for k v
    using that assms(2,3) unfolding ap_inv_def ap_ok_def array_env_law_def
    by (auto simp: entries_where_set [OF fin]) (metis hlc_lawD(1))
  have "takeWhile (\<lambda>(key, _). length key = 18 \<and> key \<le> hkey env a) ?es = takeWhile (\<lambda>kv. fst kv \<le> hkey env a) ?es"
    using len by (intro takeWhile_cong) auto
  also have "\<dots> = filter (\<lambda>kv. fst kv \<le> hkey env a) ?es"
    by (rule takeWhile_le_sorted [OF entries_where_sorted])
  finally have "set (map fst (takeWhile (\<lambda>(key, _). length key = 18 \<and> key \<le> hkey env a) pairs))
      = {k. rows_of s ArrayDelta k \<noteq> None \<and> k \<le> hkey env a}"
    by (force simp: pairs entries_where_set [OF fin])
  then show ?thesis
    using assms(3) by (simp add: array_env_law_def hlc_lawD conj_commute)
qed

lemma retire_refines:
  assumes "store_inv s" "ap_inv env cap (rows_of s)" "array_env_law env"
    and "retire so env s hs = (r, s')"
  shows "store_inv s' \<and> ap_inv env cap (rows_of s') \<and>
    ap_view env (rows_of s') =
      (if is_ok r then aq_call env (QRetire hs) (ap_view env (rows_of s)) else ap_view env (rows_of s))"
proof (cases "retire_keys so env s hs")
  case (Inl e)
  then show ?thesis using assms by (auto simp: retire_def)
next
  case (Inr ks)
  then have d: "delete_all so s ArrayDelta ks = (r, s')"
    using assms(4) by (simp add: retire_def)
  have "(if hkey env h \<in> set ks then None else ap_view env (rows_of s) h)
      = (if h \<in> set hs then None else ap_view env (rows_of s) h)" for h
    using retire_keys_set [OF assms(1) Inr] assms(3)
    by (auto simp: ap_view_def array_env_law_def hlc_lawD split: option.splits)
  then show ?thesis
    using ap_deleted [OF assms(1,2) d] by (cases "is_ok r") simp_all
qed

lemma remove_refines:
  assumes "store_inv s" "ap_inv env cap (rows_of s)" "array_env_law env"
    and "ap_remove so env s h = (r, s')"
  shows "store_inv s' \<and> ap_inv env cap (rows_of s') \<and>
    ap_view env (rows_of s') =
      (if is_ok r then aq_call env (QRemove h) (ap_view env (rows_of s)) else ap_view env (rows_of s))"
proof (cases "so_get so s ArrayDelta (hkey env h)")
  case (Inl e)
  then show ?thesis using assms by (auto simp: ap_remove_def)
next
  case (Inr found)
  then have found: "found = rows_of s ArrayDelta (hkey env h)"
    by (rule get_law [OF assms(1)])
  show ?thesis
  proof (cases found)
    case None
    then have "ap_view env (rows_of s) h = None"
      using found by (simp add: ap_view_def)
    moreover have "s' = s"
      using assms(4) Inr None by (simp add: ap_remove_def)
    ultimately show ?thesis
      using assms(1,2) by (simp add: fun_upd_idem)
  next
    case (Some v)
    then obtain r' where d: "so_delete so s ArrayDelta (hkey env h) = (r', s')" "is_ok r = is_ok r'"
      using assms(4) Inr unfolding ap_remove_def by (cases "so_delete so s ArrayDelta (hkey env h)") (auto split: sum.splits)
    define K where "K = {k. is_ok r \<and> k = hkey env h}"
    have dd: "rows_of s' ArrayDelta = (\<lambda>k. if k \<in> K then None else rows_of s ArrayDelta k)"
    proof (cases r')
      case (Inl e)
      then show ?thesis using delete_err [OF assms(1) d(1) [unfolded Inl]] d(2) by (simp add: K_def)
    next
      case (Inr u)
      then show ?thesis using delete_ok [OF assms(1) d(1) [unfolded Inr]] d(2) by (auto simp: K_def)
    qed
    then have "dom (rows_of s' ArrayDelta) \<subseteq> dom (rows_of s ArrayDelta)"
      by (auto split: if_splits)
    then have "card (dom (rows_of s' ArrayDelta)) \<le> cap"
      using card_mono [OF finite_delta [OF assms(1)]] assms(2) unfolding ap_inv_def by (metis le_trans)
    then have "ap_inv env cap (rows_of s') \<and>
        ap_view env (rows_of s') = (\<lambda>x. if hkey env x \<in> K then None else ap_view env (rows_of s) x)"
      using ap_view_deletes [of env "rows_of s" "rows_of s'" K, OF _ dd] assms(2) by (simp add: ap_inv_def)
    moreover have "hkey env x = hkey env h \<longleftrightarrow> x = h" for x
      using assms(3) hlc_lawD(5) unfolding array_env_law_def by blast
    ultimately show ?thesis
      using delete_inv [OF assms(1) d(1)] by (cases "is_ok r") (simp_all add: K_def fun_upd_def)
  qed
qed

lemma ack_through_refines:
  assumes "store_inv s" "ap_inv env cap (rows_of s)" "array_env_law env" "cap < usize_max"
    and "ack_through so env s a = (r, s')"
  shows "store_inv s' \<and> ap_inv env cap (rows_of s') \<and>
    ap_view env (rows_of s') =
      (if is_ok r then aq_call env (QAckThrough a) (ap_view env (rows_of s)) else ap_view env (rows_of s))"
proof (cases "so_scan_range so s ArrayDelta [] usize_max")
  case (Inl e)
  then show ?thesis using assms by (auto simp: ack_through_def)
next
  case (Inr pairs)
  define ks where "ks = map fst (takeWhile (\<lambda>(key, _). length key = 18 \<and> key \<le> hkey env a) pairs)"
  have d: "delete_all so s ArrayDelta ks = (r, s')"
    using assms(5) Inr by (simp add: ack_through_def ks_def)
  have "hkey env h \<in> set ks \<longleftrightarrow> h \<le> a \<and> rows_of s ArrayDelta (hkey env h) \<noteq> None" for h
    unfolding ks_def by (rule ack_through_keys [OF assms(1-4) Inr])
  then have "(if hkey env h \<in> set ks then None else ap_view env (rows_of s) h)
      = (if h \<le> a then None else ap_view env (rows_of s) h)" for h
    by (auto simp: ap_view_def)
  then show ?thesis
    using ap_deleted [OF assms(1,2) d] by (cases "is_ok r") simp_all
qed

lemma call_refines:
  assumes "store_inv s" "ap_inv env (ap_cap q) (rows_of s)" "array_env_law env" "ap_cap q < usize_max"
    and "ap_call so env q c s = (ok, s')"
  shows "store_inv s' \<and> ap_inv env (ap_cap q) (rows_of s') \<and>
    ap_view env (rows_of s') = (if ok then aq_call env c (ap_view env (rows_of s)) else ap_view env (rows_of s))"
proof (cases c)
  case (QEnqueue op)
  then obtain r where r: "ap_enqueue so env q s op = (r, s')" "ok = is_ok r"
    using assms(5) by (auto split: prod.splits)
  show ?thesis unfolding r(2) QEnqueue by (rule enqueue_refines [OF assms(1-4) r(1)])
next
  case (QSetSeq h n)
  then obtain r where r: "set_seq so env s h n = (r, s')" "ok = is_ok r"
    using assms(5) by (auto split: prod.splits)
  show ?thesis unfolding r(2) QSetSeq by (rule set_seq_refines [OF assms(1-3) r(1)])
next
  case (QRetire hs)
  then obtain r where r: "retire so env s hs = (r, s')" "ok = is_ok r"
    using assms(5) by (auto split: prod.splits)
  show ?thesis unfolding r(2) QRetire by (rule retire_refines [OF assms(1-3) r(1)])
next
  case (QRemove h)
  then obtain r where r: "ap_remove so env s h = (r, s')" "ok = is_ok r"
    using assms(5) by (auto split: prod.splits)
  show ?thesis unfolding r(2) QRemove by (rule remove_refines [OF assms(1-3) r(1)])
next
  case (QAckThrough a)
  then obtain r where r: "ack_through so env s a = (r, s')" "ok = is_ok r"
    using assms(5) by (auto split: prod.splits)
  show ?thesis unfolding r(2) QAckThrough by (rule ack_through_refines [OF assms(1-4) r(1)])
qed

lemma run_refines:
  assumes "array_env_law env" "ap_cap q < usize_max"
  shows "store_inv s \<Longrightarrow> ap_inv env (ap_cap q) (rows_of s) \<Longrightarrow> ap_run so env q cs s = (ds, s') \<Longrightarrow>
    store_inv s' \<and> ap_inv env (ap_cap q) (rows_of s') \<and>
    ap_view env (rows_of s') = fold (aq_call env) ds (ap_view env (rows_of s))"
proof (induction cs arbitrary: s ds)
  case (Cons c cs)
  obtain ok s1 ds1 where c: "ap_call so env q c s = (ok, s1)" "ap_run so env q cs s1 = (ds1, s')"
    "ds = (if ok then c # ds1 else ds1)"
    using Cons.prems(3) by (auto split: prod.splits)
  show ?case
    using call_refines [OF Cons.prems(1,2) assms c(1)] Cons.IH [OF _ _ c(2)] c(3) by auto
qed simp

lemma scan_after_view:
  assumes "store_inv s" "ap_ok env (rows_of s)" "array_env_law env" "scan_after so env s after_hlc limit = Inr ops"
  shows "ops = map snd (take limit (entries_where (\<lambda>h. case after_hlc of None \<Rightarrow> True | Some a \<Rightarrow> a < h)
           (ap_view env (rows_of s))))"
proof -
  note fin = finite_delta [OF assms(1)]
  have law: "hlc_law (ae_hlc env)"
    using assms(3) by (simp add: array_env_law_def)
  let ?m = "rows_of s ArrayDelta"
  let ?start = "case after_hlc of None \<Rightarrow> [] | Some h \<Rightarrow> key_after env h"
  let ?P = "\<lambda>h. case after_hlc of None \<Rightarrow> True | Some a \<Rightarrow> a < h"
  obtain pairs where p: "so_scan_range so s ArrayDelta ?start limit = Inr pairs"
    "collect_results (scanned_op env) pairs = Inr ops"
    using assms(4) by (auto simp: scan_after_def Let_def)
  have "(\<lambda>h. ?start \<le> hkey env h) = ?P"
    using key_after_le [OF law] by (auto simp: fun_eq_iff split: option.splits)
  moreover have "entries_where (\<lambda>k. ?start \<le> k) ?m
      = map (\<lambda>(h, v). (hkey env h, v)) (entries_where (\<lambda>h. ?start \<le> hkey env h) (\<lambda>h. ?m (hkey env h)))"
    using assms(2) law by (intro entries_where_image [OF fin]) (auto simp: hlc_lawD ap_ok_def)
  ultimately have pairs: "pairs = take limit (map (\<lambda>(h, v). (hkey env h, v)) (entries_where ?P (\<lambda>h. ?m (hkey env h))))"
    using scan_range_law [OF assms(1) _ p(1)] delta_visible by simp
  have sc: "scanned_op env (hkey env h, v) = Inr (the (ap_view env (rows_of s) h))" if "?m (hkey env h) = Some v" for h v
    using ap_ok_scanned [OF assms(2) law that] that by (auto simp: ap_view_def)
  have dom: "dom (\<lambda>h. ?m (hkey env h)) = dom (ap_view env (rows_of s))"
    using ap_ok_scanned [OF assms(2) law] by (fastforce simp: dom_def ap_view_def split: option.splits sum.splits)
  have fin': "finite (dom (\<lambda>h. ?m (hkey env h)))"
    using finite_vimageI [OF fin, of "hkey env"] law by (simp add: vimage_def dom_def inj_def hlc_lawD)
  have "collect_results (scanned_op env) pairs
      = Inr (map (\<lambda>(h, v). the (ap_view env (rows_of s) h)) (take limit (entries_where ?P (\<lambda>h. ?m (hkey env h)))))"
    unfolding pairs take_map
    by (subst collect_results_all_ok [where g = "\<lambda>(k, v). the (ap_view env (rows_of s) (hlc_of_bytes (ae_hlc env) k))"])
      (auto dest!: in_set_takeD simp: entries_where_set [OF fin'] hlc_lawD [OF law] sc)
  then show ?thesis
    using p(2) by (simp add: entries_where_def dom take_map comp_def)
qed

end

subsection \<open>Range reads of the op log\<close>

definition log_ok :: "('k, 'c, 'v) array_env \<Rightarrow> rows \<Rightarrow> bool" where
  "log_ok env m \<longleftrightarrow>
     (\<forall>k v. m ArrayOpLog k = Some v \<longrightarrow>
        (\<exists>op. cd_dec (ae_op env) v = Some op \<and> make_key env (ao_array op) (ao_hlc op) = Inr k \<and>
              valid_utf8 (str_bytes (ao_array op))))"

definition log_view :: "('k, 'c, 'v) array_env \<Rightarrow> rows \<Rightarrow> string \<Rightarrow> 'k \<rightharpoonup> ('k, 'c, 'v) array_op" where
  "log_view env m array h =
     (case make_key env array h of
        Inl _ \<Rightarrow> None
      | Inr k \<Rightarrow> (case m ArrayOpLog k of None \<Rightarrow> None | Some v \<Rightarrow> cd_dec (ae_op env) v))"

lemma snoc_less_same_length:
  fixes a b :: "'a::linorder list"
  shows "length a = length b \<Longrightarrow> a @ [x] < b @ [y] \<longleftrightarrow> a < b \<or> a = b \<and> x < y"
  by (induction a b rule: list_induct2) auto

lemma next_prefix_snoc:
  "next_prefix (p @ [b]) = (if b < 0xFF then Some (p @ [b + 1]) else map_option (\<lambda>r. r @ [0]) (next_prefix p))"
  by (auto simp: next_prefix_def option.map_comp comp_def)

lemma length_next_prefix: "next_prefix p = Some q \<Longrightarrow> length q = length p"
proof (induction p arbitrary: q rule: rev_induct)
  case (snoc b p)
  then show ?case by (auto simp: next_prefix_snoc split: if_splits)
qed (simp add: next_prefix_def)

lemma u8_less_succ: "b < (0xFF :: u8) \<Longrightarrow> c < b + 1 \<longleftrightarrow> c \<le> b"
  by (simp add: word_less_nat_alt word_le_nat_alt unat_word_ariths less_Suc_eq_le)

text \<open>\<open>next_prefix\<close> is the successor among byte strings of the same length.\<close>

lemma next_prefix_successor:
  "length k = length p \<Longrightarrow> k \<le> p \<longleftrightarrow> (case next_prefix p of None \<Rightarrow> True | Some q \<Rightarrow> k < q)"
proof (induction p arbitrary: k rule: rev_induct)
  case (snoc b p)
  obtain k' c where k: "k = k' @ [c]"
    using snoc.prems by (cases k rule: rev_cases) auto
  then have len: "length k' = length p"
    using snoc.prems by simp
  have le: "k \<le> p @ [b] \<longleftrightarrow> k' < p \<or> k' = p \<and> c \<le> b"
    using snoc_less_same_length [of p k' b c] len by (auto simp: k not_less [symmetric])
  show ?case
  proof (cases "b < 0xFF")
    case True
    then show ?thesis
      unfolding le using len by (auto simp: next_prefix_snoc k snoc_less_same_length u8_less_succ)
  next
    case False
    then have "\<not> unat b < 255"
      by (simp add: word_less_nat_alt)
    then have "unat b = 255"
      using unat_u8_lt [of b] by linarith
    then have "b = 0xFF"
      by (simp add: word_unat_eq_iff)
    moreover have "c \<le> 0xFF"
      by (simp add: word_le_nat_alt) (use unat_u8_lt [of c] in linarith)
    ultimately have "k \<le> p @ [b] \<longleftrightarrow> k' \<le> p"
      unfolding le by auto
    then show ?thesis
      using False snoc.IH [OF len] len length_next_prefix [of p]
      by (auto simp: next_prefix_snoc k snoc_less_same_length split: option.splits)
  qed
qed (simp add: next_prefix_def)

lemma make_keyD:
  assumes "make_key env array h = Inr k"
  shows "k = of_nat (length array) # str_bytes array @ hkey env h" "array \<noteq> []" "length array \<le> 255"
    "make_key env array h' = Inr (of_nat (length array) # str_bytes array @ hkey env h')"
    "make_array_prefix array = Inr (of_nat (length array) # str_bytes array)"
  using assms by (auto simp: make_key_def make_array_prefix_def Let_def str_bytes_def split: if_splits)

lemma split_make_key:
  assumes "make_key env array h = Inr k" "valid_utf8 (str_bytes array)" "hlc_law (ae_hlc env)"
  shows "split_key env k = Some (array, h)"
proof -
  have "unat (of_nat (length array) :: u8) = length array"
    using make_keyD(3) [OF assms(1)] by (simp add: unat_of_nat take_bit_eq_mod)
  then show ?thesis
    unfolding make_keyD(1) [OF assms(1)] using assms(2,3) by (simp add: split_key_def Let_def hlc_lawD)
qed

lemma same_prefix_order:
  fixes p :: "'a::linorder list"
  shows "p @ x < p @ y \<longleftrightarrow> x < y" "p @ x \<le> p @ y \<longleftrightarrow> x \<le> y"
  by (induction p) auto

context array_store
begin

lemma log_range_rows:
  assumes "store_inv s" "log_ok env (rows_of s)" "hlc_law (ae_hlc env)" "card (dom (rows_of s ArrayOpLog)) \<le> usize_max"
    and keys: "make_key env array from_hlc = Inr start" "make_key env array to_hlc = Inr to_key"
      "make_array_prefix array = Inr pre"
    and "so_scan_range_bounded so s ArrayOpLog (Some start) (next_prefix to_key) None = Inr pairs"
  shows "takeWhile (\<lambda>(key, _). prefix pre key) pairs
    = map (\<lambda>(h, v). (pre @ hkey env h, v))
        (entries_where (\<lambda>h. from_hlc \<le> h \<and> h \<le> to_hlc) (\<lambda>h. rows_of s ArrayOpLog (pre @ hkey env h)))"
proof -
  let ?m = "rows_of s ArrayOpLog"
  let ?R = "\<lambda>k. start \<le> k \<and> (case next_prefix to_key of None \<Rightarrow> True | Some b \<Rightarrow> k < b)"
  note fin = finite_rows [OF assms(1), of ArrayOpLog]
  have pre: "start = pre @ hkey env from_hlc" "to_key = pre @ hkey env to_hlc"
    using make_keyD [OF keys(1)] make_keyD [OF keys(2)] keys(3) by simp_all
  have pairs: "pairs = entries_where ?R ?m"
    using scan_range_bounded_law [OF assms(1) _ assms(8) assms(4)] log_visible by simp
  have "takeWhile (\<lambda>(key, _). prefix pre key) pairs = takeWhile (\<lambda>kv. prefix pre (fst kv)) pairs"
    by (simp add: case_prod_beta')
  also have "\<dots> = filter (\<lambda>kv. prefix pre (fst kv)) pairs"
    unfolding pairs
    by (rule takeWhile_prefix_block [OF entries_where_sorted])
      (auto simp: entries_where_set [OF fin] pre intro: order.trans [OF prefix_le [of pre "pre @ hkey env from_hlc"]])
  also have "\<dots> = entries_where (\<lambda>k. ?R k \<and> prefix pre k) ?m"
    unfolding pairs by (rule entries_where_filter [OF fin, symmetric])
  also have "\<dots> = map (\<lambda>(h, v). (pre @ hkey env h, v))
      (entries_where (\<lambda>h. ?R (pre @ hkey env h) \<and> prefix pre (pre @ hkey env h)) (\<lambda>h. ?m (pre @ hkey env h)))"
  proof (rule entries_where_image [OF fin])
    show "x < y \<Longrightarrow> pre @ hkey env x < pre @ hkey env y" for x y
      using assms(3) by (simp add: same_prefix_order hlc_lawD)
    fix k assume k: "?R k \<and> prefix pre k" "k \<in> dom ?m"
    then obtain v where "?m k = Some v" by blast
    then obtain op where op: "make_key env (ao_array op) (ao_hlc op) = Inr k" "cd_dec (ae_op env) v = Some op"
      using assms(2) unfolding log_ok_def by blast
    have u: "length (ao_array op) = length array"
      using k(1) make_keyD [OF op(1)] make_keyD [OF keys(1)] keys(3)
      by (auto simp: word_of_nat_eq_iff take_bit_eq_mod)
    then have "str_bytes (ao_array op) = str_bytes array"
      using k(1) make_keyD(1) [OF op(1)] make_keyD(5) [OF keys(1)] keys(3)
      by (auto simp: prefix_def append_eq_append_conv)
    then show "\<exists>h. k = pre @ hkey env h"
      using u make_keyD(1) [OF op(1)] make_keyD(5) [OF keys(1)] keys(3) by auto
  qed
  also have "(\<lambda>h. ?R (pre @ hkey env h) \<and> prefix pre (pre @ hkey env h)) = (\<lambda>h. from_hlc \<le> h \<and> h \<le> to_hlc)"
    using assms(3) next_prefix_successor [of "pre @ hkey env _" to_key]
    by (auto simp: pre same_prefix_order hlc_lawD fun_eq_iff)
  finally show ?thesis .
qed

end

subsection \<open>The registry and its snapshots\<close>

text \<open>
  What the registry relies on of a schema document: a snapshot that a document exported can be
  imported into a new document, under the version it was exported with, and the import may raise
  the version but never lowers it. Nothing is assumed of the bytes the new document exports.
\<close>

definition schema_law :: "('d, 'sch, 'g, 'k::linorder) schema_api \<Rightarrow> bool" where
  "schema_law api \<longleftrightarrow>
     (\<forall>rid d b g. sd_export api d = Some b \<longrightarrow>
        (\<exists>d' g'. sd_import api b (sd_hlc api d) (sd_new api rid) g = (True, d', g') \<and>
                 sd_hlc api d \<le> sd_hlc api d'))"

text \<open>A document that is the import of the given version and snapshot into a new document.\<close>

definition imported :: "('d, 'sch, 'g, 'k::linorder) schema_api \<Rightarrow> u64 \<Rightarrow> 'k \<Rightarrow> bytes \<Rightarrow> 'd \<Rightarrow> bool" where
  "imported api rid h b d \<longleftrightarrow>
     (\<exists>g g'. sd_import api b h (sd_new api rid) g = (True, d, g')) \<and> h \<le> sd_hlc api d"

definition restored ::
  "('d, 'sch, 'g, 'k::linorder) schema_api \<Rightarrow> u64 \<Rightarrow> ('k \<times> bytes) option lite_result \<Rightarrow> 'd option \<Rightarrow> bool" where
  "restored api rid exported found =
     (case exported of
        Inl e \<Rightarrow> False
      | Inr None \<Rightarrow> found = None
      | Inr (Some (h, b)) \<Rightarrow> (\<exists>d. found = Some d \<and> imported api rid h b d))"

definition doc_view :: "('d, 'sch, 'g, 'k) schema_api \<Rightarrow> (string, 'd) hmap \<Rightarrow> string \<rightharpoonup> 'k \<times> bytes option" where
  "doc_view api docs name = map_option (\<lambda>d. (sd_hlc api d, sd_export api d)) (hm_get docs name)"

definition row_view ::
  "'k hlc_api \<Rightarrow> persisted_schema codec \<Rightarrow> bytes option \<Rightarrow> ('k \<times> bytes option) option" where
  "row_view hapi pcd row =
     (case row of
        None \<Rightarrow> None
      | Some v \<Rightarrow> map_option (\<lambda>p. (hlc_of_bytes hapi (psd_schema_hlc_bytes p), Some (psd_loro_snapshot p))) (cd_dec pcd v))"

text \<open>A row the registry wrote for a document.\<close>

definition schema_row_ok ::
  "'k hlc_api \<Rightarrow> persisted_schema codec \<Rightarrow> ('d, 'sch, 'g, 'k) schema_api \<Rightarrow> kv_pair \<Rightarrow> bool" where
  "schema_row_ok hapi pcd api = (\<lambda>(k, v).
     \<exists>name p d. k = schema_key name \<and> valid_utf8 (str_bytes name) \<and> cd_dec pcd v = Some p \<and>
       psd_schema_hlc_bytes p = hlc_bytes hapi (sd_hlc api d) \<and> sd_export api d = Some (psd_loro_snapshot p))"

definition registry_synced ::
  "'k hlc_api \<Rightarrow> persisted_schema codec \<Rightarrow> ('d, 'sch, 'g, 'k) schema_api \<Rightarrow> 'd schema_registry \<Rightarrow> rows \<Rightarrow> bool" where
  "registry_synced hapi pcd api reg m \<longleftrightarrow>
     \<not> sr_poisoned reg \<and>
     (\<forall>k v. prefix (str_bytes SCHEMA_KEY_PREFIX) k \<longrightarrow> m Meta k = Some v \<longrightarrow> schema_row_ok hapi pcd api (k, v)) \<and>
     (\<forall>name. doc_view api (sr_docs reg) name = row_view hapi pcd (m Meta (schema_key name)))"

datatype ('k, 'sch) schema_call =
    SPut string 'sch
  | SImport string bytes 'k

fun schema_name :: "('k, 'sch) schema_call \<Rightarrow> string" where
  "schema_name (SPut name sch) = name"
| "schema_name (SImport name b h) = name"

fun do_schema_call ::
  "'s storage_ops \<Rightarrow> 'k hlc_api \<Rightarrow> persisted_schema codec \<Rightarrow> ('d, 'sch, 'g, 'k) schema_api \<Rightarrow>
   ('k, 'sch) schema_call \<Rightarrow> ('d, 'g, 's) registry_state \<Rightarrow> bool \<times> ('d, 'g, 's) registry_state" where
  "do_schema_call so hapi pcd api (SPut name sch) st = (case put_schema so hapi pcd api name sch st of (r, st') \<Rightarrow> (is_ok r, st'))"
| "do_schema_call so hapi pcd api (SImport name b h) st =
     (case import_snapshot so hapi pcd api name b h st of (r, st') \<Rightarrow> (is_ok r, st'))"

text \<open>Calls that all succeed.\<close>

inductive schema_steps ::
  "'s storage_ops \<Rightarrow> 'k hlc_api \<Rightarrow> persisted_schema codec \<Rightarrow> ('d, 'sch, 'g, 'k) schema_api \<Rightarrow>
   ('k, 'sch) schema_call list \<Rightarrow> ('d, 'g, 's) registry_state \<Rightarrow> ('d, 'g, 's) registry_state \<Rightarrow> bool"
  for so hapi pcd api where
  no_call: "schema_steps so hapi pcd api [] st st"
| one_call: "do_schema_call so hapi pcd api c st = (True, st1) \<Longrightarrow> schema_steps so hapi pcd api cs st1 st2 \<Longrightarrow>
    schema_steps so hapi pcd api (c # cs) st st2"

lemma schema_key_inject [simp]: "schema_key a = schema_key b \<longleftrightarrow> a = b"
  by (simp add: schema_key_def)

lemma schema_key_prefix [simp]: "prefix (str_bytes SCHEMA_KEY_PREFIX) (schema_key name)"
  by (simp add: schema_key_def)

lemma drop_schema_key [simp]: "drop (length SCHEMA_KEY_PREFIX) (schema_key name) = str_bytes name"
  by (simp add: schema_key_def)

lemma schema_load_loop_view:
  assumes "hlc_law hapi" "schema_law api"
  shows "distinct (map fst pairs) \<Longrightarrow> list_all (schema_row_ok hapi pcd api) pairs \<Longrightarrow>
    \<exists>docs' rep'. schema_load_loop hapi pcd api pairs docs rep = (Inr docs', rep') \<and>
      (\<forall>n. case map_of pairs (schema_key n) of
             None \<Rightarrow> hm_get docs' n = hm_get docs n
           | Some v \<Rightarrow> \<exists>h b d. row_view hapi pcd (Some v) = Some (h, Some b) \<and> hm_get docs' n = Some d \<and>
                          imported api (rs_replica_id rep) h b d)"
proof (induction pairs arbitrary: docs rep)
  case (Cons kv pairs)
  obtain k v where kv: "kv = (k, v)" by fastforce
  then obtain name p d where row: "k = schema_key name" "valid_utf8 (str_bytes name)" "cd_dec pcd v = Some p"
    "psd_schema_hlc_bytes p = hlc_bytes hapi (sd_hlc api d)" "sd_export api d = Some (psd_loro_snapshot p)"
    using Cons.prems(2) by (auto simp: schema_row_ok_def)
  obtain d' g' where imp: "sd_import api (psd_loro_snapshot p) (sd_hlc api d) (sd_new api (rs_replica_id rep)) (rs_hlc_gen rep) = (True, d', g')"
    "sd_hlc api d \<le> sd_hlc api d'"
    using assms(2) row(5) unfolding schema_law_def by blast
  have step: "schema_load_loop hapi pcd api (kv # pairs) docs rep
      = schema_load_loop hapi pcd api pairs (hm_insert name d' docs) (rep\<lparr>rs_hlc_gen := g'\<rparr>)"
    using row imp(1) assms(1) by (simp add: kv hlc_lawD Let_def)
  have rid: "rs_replica_id (rep\<lparr>rs_hlc_gen := g'\<rparr>) = rs_replica_id rep"
    by simp
  obtain docs' rep' where l: "schema_load_loop hapi pcd api pairs (hm_insert name d' docs) (rep\<lparr>rs_hlc_gen := g'\<rparr>) = (Inr docs', rep')"
    and view: "\<And>n. case map_of pairs (schema_key n) of
             None \<Rightarrow> hm_get docs' n = hm_get (hm_insert name d' docs) n
           | Some v \<Rightarrow> \<exists>h b d. row_view hapi pcd (Some v) = Some (h, Some b) \<and> hm_get docs' n = Some d \<and>
                          imported api (rs_replica_id rep) h b d"
    using Cons.IH [of "hm_insert name d' docs" "rep\<lparr>rs_hlc_gen := g'\<rparr>", unfolded rid] Cons.prems by auto
  have rv: "row_view hapi pcd (Some v) = Some (sd_hlc api d, Some (psd_loro_snapshot p))"
    using row(3,4) assms(1) by (simp add: row_view_def hlc_lawD)
  have new: "imported api (rs_replica_id rep) (sd_hlc api d) (psd_loro_snapshot p) d'"
    using imp unfolding imported_def by blast
  have "case map_of (kv # pairs) (schema_key n) of
             None \<Rightarrow> hm_get docs' n = hm_get docs n
           | Some w \<Rightarrow> \<exists>h b d. row_view hapi pcd (Some w) = Some (h, Some b) \<and> hm_get docs' n = Some d \<and>
                          imported api (rs_replica_id rep) h b d" for n
  proof (cases "n = name")
    case True
    then have "map_of pairs (schema_key n) = None"
      using Cons.prems(1) row(1) by (auto simp: kv map_of_eq_None_iff)
    then show ?thesis
      using view [of n] new True rv by (simp add: kv row(1))
  next
    case False
    then show ?thesis
      using view [of n] by (simp add: kv row(1) split: option.splits)
  qed
  then show ?case
    using step l by auto
qed simp

lemma export_versioned_view:
  "export_versioned api reg name =
     (if sr_poisoned reg then Inl LockPoisoned
      else case doc_view api (sr_docs reg) name of
             None \<Rightarrow> Inr None
           | Some (h, snap) \<Rightarrow> (case snap of None \<Rightarrow> Inl Storage | Some b \<Rightarrow> Inr (Some (h, b))))"
  by (simp add: export_versioned_def doc_view_def split: option.splits)

context array_store
begin

lemma persisted_synced:
  assumes "store_inv s" "hlc_law hapi" "codec_law pcd" "valid_utf8 (str_bytes name)"
    and "registry_synced hapi pcd api reg (rows_of s)"
    and "export_and_persist so hapi pcd api name doc rep s = (Inr h, s')"
  shows "store_inv s' \<and>
    registry_synced hapi pcd api (reg\<lparr>sr_docs := hm_insert name doc (sr_docs reg)\<rparr>) (rows_of s')"
proof -
  obtain snap v where e: "sd_export api doc = Some snap"
    "cd_enc pcd \<lparr>psd_replica_id = rs_replica_id rep, psd_schema_hlc_bytes = hlc_bytes hapi (sd_hlc api doc),
       psd_loro_snapshot = snap\<rparr> = Some v"
    "so_put so s Meta (schema_key name) v = (Inr (), s')"
    using assms(6) by (auto simp: export_and_persist_def schema_persist_def split: option.splits sum.splits prod.splits)
  have rows: "rows_of s' = rows_apply (rows_of s) (Put Meta (schema_key name) v)"
    by (rule put_ok [OF assms(1) e(3)])
  have dec: "cd_dec pcd v = Some \<lparr>psd_replica_id = rs_replica_id rep, psd_schema_hlc_bytes = hlc_bytes hapi (sd_hlc api doc),
       psd_loro_snapshot = snap\<rparr>"
    using assms(3) e(2) unfolding codec_law_def by blast
  have "schema_row_ok hapi pcd api (schema_key name, v)"
    unfolding schema_row_ok_def using assms(4) dec e(1) by force
  moreover have "row_view hapi pcd (Some v) = Some (sd_hlc api doc, sd_export api doc)"
    using dec e(1) assms(2) by (simp add: row_view_def hlc_lawD)
  ultimately show ?thesis
    using assms(5) put_inv [OF assms(1) e(3)] unfolding registry_synced_def rows by (auto simp: doc_view_def)
qed

lemma schema_call_synced:
  assumes "store_inv s" "hlc_law hapi" "codec_law pcd" "valid_utf8 (str_bytes (schema_name c))"
    and "registry_synced hapi pcd api reg (rows_of s)"
    and "do_schema_call so hapi pcd api c (reg, rep, s) = (True, reg', rep', s')"
  shows "store_inv s' \<and> registry_synced hapi pcd api reg' (rows_of s')"
proof -
  have "\<exists>doc rep2 h. reg' = reg\<lparr>sr_docs := hm_insert (schema_name c) doc (sr_docs reg)\<rparr> \<and>
      export_and_persist so hapi pcd api (schema_name c) doc rep2 s = (Inr h, s')"
  proof (cases c)
    case (SPut name sch)
    then show ?thesis
      using assms(6) by (auto simp: put_schema_def Let_def is_ok_iff split: if_splits option.splits prod.splits)
  next
    case (SImport name b h)
    then show ?thesis
      using assms(6) by (auto simp: import_snapshot_def Let_def is_ok_iff split: if_splits option.splits prod.splits sum.splits)
  qed
  then show ?thesis
    using persisted_synced [OF assms(1-5)] by blast
qed

lemma schema_steps_synced:
  assumes "hlc_law hapi" "codec_law pcd"
  shows "schema_steps so hapi pcd api cs (reg, rep, s) (reg', rep', s') \<Longrightarrow> store_inv s \<Longrightarrow>
    registry_synced hapi pcd api reg (rows_of s) \<Longrightarrow> list_all (\<lambda>c. valid_utf8 (str_bytes (schema_name c))) cs \<Longrightarrow>
    store_inv s' \<and> registry_synced hapi pcd api reg' (rows_of s')"
proof (induction cs "(reg, rep, s)" "(reg', rep', s')" arbitrary: reg rep s rule: schema_steps.induct)
  case (one_call c st1 cs)
  obtain reg1 rep1 s1 where st1: "st1 = (reg1, rep1, s1)" by (cases st1)
  show ?case
    using schema_call_synced [OF one_call.prems(1) assms _ one_call.prems(2) one_call.hyps(1) [unfolded st1]]
      one_call.hyps(3) [OF st1] one_call.prems(3) by simp
qed auto

lemma load_synced:
  assumes "store_inv s" "hlc_law hapi" "schema_law api" "registry_synced hapi pcd api reg (rows_of s)"
    and "so_scan_prefix so s Meta (str_bytes SCHEMA_KEY_PREFIX) = Inr pairs"
  shows "\<exists>reg2 rep2. schema_load so hapi pcd api s rep = (Inr reg2, rep2) \<and>
    (\<forall>name. restored api (rs_replica_id rep) (export_versioned api reg name) (hm_get (sr_docs reg2) name))"
proof -
  let ?pre = "prefix (str_bytes SCHEMA_KEY_PREFIX)"
  note fin = finite_rows [OF assms(1), of Meta]
  have pairs: "pairs = entries_where ?pre (rows_of s Meta)"
    by (rule scan_prefix_law [OF assms(1) schema_visible assms(5)])
  have "list_all (schema_row_ok hapi pcd api) pairs"
    using assms(4) by (auto simp: pairs list_all_iff entries_where_set [OF fin] registry_synced_def)
  with schema_load_loop_view [OF assms(2,3), of pairs pcd "[]" rep] obtain docs' rep'
    where l: "schema_load_loop hapi pcd api pairs [] rep = (Inr docs', rep')"
    and view: "\<And>n. case map_of pairs (schema_key n) of
             None \<Rightarrow> hm_get docs' n = hm_get [] n
           | Some v \<Rightarrow> \<exists>h b d. row_view hapi pcd (Some v) = Some (h, Some b) \<and> hm_get docs' n = Some d \<and>
                          imported api (rs_replica_id rep) h b d"
    using entries_where_distinct pairs by blast
  have m: "map_of pairs (schema_key n) = rows_of s Meta (schema_key n)" for n
  proof (cases "rows_of s Meta (schema_key n)")
    case None
    then show ?thesis
      using entries_where_set [OF fin, of ?pre] by (auto simp: pairs map_of_eq_None_iff)
  next
    case (Some v)
    then show ?thesis
      using entries_where_set [OF fin, of ?pre] entries_where_distinct [of ?pre "rows_of s Meta"]
      by (simp add: pairs)
  qed
  have "restored api (rs_replica_id rep) (export_versioned api reg n) (hm_get docs' n)" for n
  proof (cases "rows_of s Meta (schema_key n)")
    case None
    then show ?thesis
      using view [of n] assms(4) by (simp add: m export_versioned_view registry_synced_def row_view_def restored_def)
  next
    case (Some v)
    then show ?thesis
      using view [of n] assms(4) by (auto simp: m export_versioned_view registry_synced_def restored_def)
  qed
  then show ?thesis
    using assms(5) l by (simp add: schema_load_def)
qed

end

text \<open>A failed import of a snapshot for an unknown array leaves the array registered, with
  the version of the document the failed import produced: local writes to it are
  accepted and its schema is announced.\<close>

lemma failed_import_registers:
  assumes "\<not> sr_poisoned reg" "hm_get (sr_docs reg) name = None"
    and "sd_import api b h (sd_new api (rs_replica_id rep)) (rs_hlc_gen rep) = (False, doc, g)"
  shows "\<exists>reg' rep'. import_snapshot so hapi pcd api name b h (reg, rep, s) = (Inl Storage, reg', rep', s) \<and>
    name \<in> set (list_arrays reg') \<and> require_schema_hlc api reg' name = Inr (sd_hlc api doc)"
  using assms
  by (auto simp: import_snapshot_def Let_def hm_get_or_def list_arrays_def require_schema_hlc_def schema_hlc_def
      dom_update image_iff)

subsection \<open>The stores over the backends\<close>

interpretation mem_array: array_store "pagedb_engine mem_pagedb demo_nsb" "pagedb_rows map_of demo_nsb"
  "\<lambda>_. True" "\<lambda>_ _. False"
  by unfold_locales simp_all

lemma salt_not_schema: "prefix (str_bytes SCHEMA_KEY_PREFIX) k \<Longrightarrow> k \<noteq> SALT_KEY"
  by (auto simp: SCHEMA_KEY_PREFIX_def SALT_KEY_def str_bytes_def)

interpretation enc_array: array_store "encrypted_engine (pagedb_engine mem_pagedb demo_nsb) demo_env"
  "enc_rows demo_env (pagedb_rows map_of demo_nsb)"
  "enc_inv demo_env (pagedb_rows map_of demo_nsb) (\<lambda>_. True)" "enc_hidden (\<lambda>_ _. False)"
  by unfold_locales (auto simp: enc_hidden_def is_salt_def dest: salt_not_schema)

subsection \<open>Properties\<close>

text \<open>
  C22. The durable array queue refines a map from clock values to queued ops: over any
  sequence of enqueues, sequence updates, retirements, removals and acknowledgements,
  with storage failures in between, its rows are those of the map after the calls that
  succeeded, the cap is never exceeded, and a scan returns the first \<open>limit\<close> ops after
  the cursor in clock order.
\<close>

theorem array_pending_refines:
  assumes "array_store so rows_of store_inv hidden" "array_env_law env" "ap_cap q < usize_max"
    and "store_inv s" "ap_inv env (ap_cap q) (rows_of s)" "ap_run so env q calls s = (succeeded, s')"
  shows "ap_view env (rows_of s') = fold (aq_call env) succeeded (ap_view env (rows_of s)) \<and>
    card (dom (rows_of s' ArrayDelta)) \<le> ap_cap q \<and>
    (\<forall>after_hlc limit ops. scan_after so env s' after_hlc limit = Inr ops \<longrightarrow>
       ops = map snd (take limit (entries_where (\<lambda>h. case after_hlc of None \<Rightarrow> True | Some a \<Rightarrow> a < h)
               (fold (aq_call env) succeeded (ap_view env (rows_of s))))))"
proof -
  have r: "store_inv s' \<and> ap_inv env (ap_cap q) (rows_of s') \<and>
      ap_view env (rows_of s') = fold (aq_call env) succeeded (ap_view env (rows_of s))"
    by (rule array_store.run_refines [OF assms(1-6)])
  then have "ops = map snd (take limit (entries_where (\<lambda>h. case after_hlc of None \<Rightarrow> True | Some a \<Rightarrow> a < h)
      (fold (aq_call env) succeeded (ap_view env (rows_of s)))))"
    if "scan_after so env s' after_hlc limit = Inr ops" for after_hlc limit ops
    using array_store.scan_after_view [OF assms(1) _ _ assms(2) that] by (simp add: ap_inv_def)
  then show ?thesis
    using r by (simp add: ap_inv_def)
qed

text \<open>
  C23. A range read of the op log returns exactly the logged ops of the array with a clock
  value between the bounds, in clock order, decoded: no op of another array, none
  outside the bounds, none missing.
\<close>

theorem oplog_range_exact:
  assumes "array_store so rows_of store_inv hidden" "store_inv s" "log_ok env (rows_of s)" "hlc_law (ae_hlc env)"
    and "card (dom (rows_of s ArrayOpLog)) \<le> usize_max" "valid_utf8 (str_bytes array)"
    and "log_scan_range so env s array from_hlc to_hlc = Inr found"
  shows "found = map (\<lambda>(h, op). Inr op)
    (entries_where (\<lambda>h. from_hlc \<le> h \<and> h \<le> to_hlc) (log_view env (rows_of s) array))"
proof -
  obtain start where start: "make_key env array from_hlc = Inr start"
    using assms(7) by (auto simp: log_scan_range_def)
  note mk = make_keyD [OF start]
  define pre where "pre = of_nat (length array) # str_bytes array"
  have key: "make_key env array h = Inr (pre @ hkey env h)" for h
    using mk(4) by (simp add: pre_def)
  show ?thesis
  proof (cases "from_hlc \<le> to_hlc")
    case False
    then have "(\<lambda>h. from_hlc \<le> h \<and> h \<le> to_hlc) = (\<lambda>_. False)"
      by (auto intro: order.trans)
    then show ?thesis
      using assms(7) start False by (simp add: log_scan_range_def entries_where_def not_le)
  next
    case True
    let ?m = "\<lambda>h. rows_of s ArrayOpLog (pre @ hkey env h)"
    obtain pairs where p: "so_scan_range_bounded so s ArrayOpLog (Some start) (next_prefix (pre @ hkey env to_hlc)) None = Inr pairs"
      and found: "found = List.map_filter (\<lambda>(key, val).
          case split_key env key of None \<Rightarrow> None
          | Some (_, hlc) \<Rightarrow> if hlc < from_hlc \<or> hlc > to_hlc then None else Some (decode_op env val))
        (takeWhile (\<lambda>(key, _). prefix pre key) pairs)"
      using assms(7) start True mk(5) [folded pre_def] by (auto simp: log_scan_range_def key not_less [symmetric])
    have split: "split_key env (pre @ hkey env h) = Some (array, h)" for h
      by (rule split_make_key [OF key assms(6,4)])
    have "finite (dom ?m)"
      using finite_vimageI [OF kv_store.finite_rows [OF storage_engine.axioms(1) [OF array_store.axioms(1) [OF assms(1)]] assms(2)],
          of "\<lambda>h. pre @ hkey env h" ArrayOpLog] assms(4)
      by (simp add: vimage_def dom_def inj_def hlc_lawD)
    note set = entries_where_set [OF this]
    have op: "decode_op env v = Inr (the (log_view env (rows_of s) array h)) \<and> log_view env (rows_of s) array h \<noteq> None"
      if m: "?m h = Some v" for h v
    proof -
      obtain op where "cd_dec (ae_op env) v = Some op"
        using m assms(3) unfolding log_ok_def by blast
      then show ?thesis
        using m by (simp add: log_view_def key decode_op_def)
    qed
    have dom: "dom ?m = dom (log_view env (rows_of s) array)"
      using op by (auto simp: log_view_def key split: option.splits)
    have "found = map (\<lambda>(h, v). Inr (the (log_view env (rows_of s) array h)))
        (entries_where (\<lambda>h. from_hlc \<le> h \<and> h \<le> to_hlc) ?m)"
      unfolding found array_store.log_range_rows [OF assms(1-5) start key mk(5) [folded pre_def] p] List.map_filter_def
      using op by (auto simp: split filter_map comp_def case_prod_beta' set intro!: map_cong filter_cong
          simp flip: not_less)
    then show ?thesis
      by (simp add: entries_where_def dom)
  qed
qed

text \<open>
  C24. Schemas survive a restart: after any sequence of successful local schema changes and remote
  imports from an empty registry, loading the registry from storage succeeds. The loaded registry
  knows exactly the arrays the running one knew, and the document of each is the import, into a
  new document, of the version and snapshot the running registry exports for it, so its version is
  not below the one before the restart.
\<close>

theorem schema_survives_restart:
  assumes "array_store so rows_of store_inv hidden" "hlc_law hapi" "codec_law pcd" "schema_law api"
    and "store_inv s" "\<And>k. prefix (str_bytes SCHEMA_KEY_PREFIX) k \<Longrightarrow> rows_of s Meta k = None"
    and "list_all (\<lambda>c. valid_utf8 (str_bytes (schema_name c))) calls"
    and "schema_steps so hapi pcd api calls (SchemaRegistry_new, rep, s) (reg, rep', s')"
    and "so_scan_prefix so s' Meta (str_bytes SCHEMA_KEY_PREFIX) = Inr pairs"
  shows "\<exists>reg2 rep2. schema_load so hapi pcd api s' rep'' = (Inr reg2, rep2) \<and>
    (\<forall>name. restored api (rs_replica_id rep'') (export_versioned api reg name) (hm_get (sr_docs reg2) name))"
proof -
  have "registry_synced hapi pcd api SchemaRegistry_new (rows_of s)"
    using assms(6) by (auto simp: registry_synced_def SchemaRegistry_new_def doc_view_def row_view_def)
  then have "store_inv s'" "registry_synced hapi pcd api reg (rows_of s')"
    using array_store.schema_steps_synced [OF assms(1-3,8,5) _ assms(7)] by blast+
  then show ?thesis
    by (rule array_store.load_synced [OF assms(1) _ assms(2,4) _ assms(9)])
qed

subsection \<open>Demonstration instances\<close>

definition demo_hlc :: "u64 hlc_api" where
  "demo_hlc = \<lparr>hlc_bytes = (\<lambda>h. replicate 10 0 @ u64_to_be_bytes h),
     hlc_of_bytes = (\<lambda>b. u64_from_be_bytes (drop 10 b)), hlc_zero = 0, hlc_physical_ms = id\<rparr>"

lemma demo_hlc_law: "hlc_law demo_hlc"
  by (simp add: hlc_law_def demo_hlc_def same_prefix_order)

definition demo_stored_codec :: "stored_op codec" where
  "demo_stored_codec =
     \<lparr>cd_enc = (\<lambda>st. Some (u64_to_be_bytes (st_seq st) @ st_op st)),
      cd_dec = (\<lambda>v. if length v < 8 then None else Some \<lparr>st_seq = u64_from_be_bytes (take 8 v), st_op = drop 8 v\<rparr>)\<rparr>"

definition demo_op :: "string \<Rightarrow> u64 \<Rightarrow> (u64, unit, unit) array_op" where
  "demo_op array h =
     \<lparr>ao_array = array, ao_hlc = h, ao_schema_hlc = 0, ao_valid_from_ms = 0, ao_valid_until_ms = 0,
      ao_system_from_ms = h, ao_kind = OpErase, ao_coord = [], ao_attrs = None\<rparr>"

definition demo_op_codec :: "(u64, unit, unit) array_op codec" where
  "demo_op_codec =
     \<lparr>cd_enc = (\<lambda>op. if op = demo_op (ao_array op) (ao_hlc op)
        then Some (u64_to_be_bytes (ao_hlc op) @ str_bytes (ao_array op)) else None),
      cd_dec = (\<lambda>v. if length v < 8 then None else Some (demo_op (bytes_str (drop 8 v)) (u64_from_be_bytes (take 8 v))))\<rparr>"

definition demo_aenv :: "(u64, unit, unit) array_env" where
  "demo_aenv = \<lparr>ae_hlc = demo_hlc, ae_stored = demo_stored_codec, ae_op = demo_op_codec\<rparr>"

lemma demo_aenv_law: "array_env_law demo_aenv"
  by (auto simp: array_env_law_def demo_aenv_def demo_hlc_law codec_law_def demo_stored_codec_def demo_op_codec_def
      split: if_splits)

lemma demo_op_enc [simp]: "cd_enc demo_op_codec (demo_op array h) = Some (u64_to_be_bytes h @ str_bytes array)"
  by (simp add: demo_op_codec_def demo_op_def)

lemma demo_op_sel [simp]: "ao_array (demo_op array h) = array" "ao_hlc (demo_op array h) = h"
  by (simp_all add: demo_op_def)

definition demo_schema_api :: "(u64 \<times> bytes, bytes, u64, u64) schema_api" where
  "demo_schema_api =
     \<lparr>sd_new = (\<lambda>_. (0, [])), sd_from_schema = (\<lambda>_ sch g. (Some (g, sch), g + 1)),
      sd_replace = (\<lambda>sch _ g. (True, (g, sch), g + 1)), sd_import = (\<lambda>b h _ g. (True, (max h g, b), g + 1)),
      sd_export = (\<lambda>d. Some (snd d)), sd_hlc = fst\<rparr>"

lemma demo_schema_law: "schema_law demo_schema_api"
  by (simp add: schema_law_def demo_schema_api_def)

definition demo_persisted_codec :: "persisted_schema codec" where
  "demo_persisted_codec =
     \<lparr>cd_enc = (\<lambda>p. if length (psd_schema_hlc_bytes p) = 18
        then Some (u64_to_be_bytes (psd_replica_id p) @ psd_schema_hlc_bytes p @ psd_loro_snapshot p) else None),
      cd_dec = (\<lambda>v. if length v < 26 then None
        else Some \<lparr>psd_replica_id = u64_from_be_bytes (take 8 v), psd_schema_hlc_bytes = take 18 (drop 8 v),
                   psd_loro_snapshot = drop 26 v\<rparr>)\<rparr>"

lemma demo_persisted_law: "codec_law demo_persisted_codec"
  by (auto simp: codec_law_def demo_persisted_codec_def split: if_splits)

lemma demo_scan_bounded_eq:
  "sorted_wrt (<) (map fst s) \<Longrightarrow>
   scan_range_bounded_rows mem_pagedb demo_nsb s ns (Some a) (Some b) None
   = Inr (strip_rows (take usize_max (filter (\<lambda>kv. demo_nsb ns # a \<le> fst kv \<and> fst kv < demo_nsb ns # b) s)))"
  by (simp add: scan_range_bounded_rows_def mem_pagedb_def prefix_key_def mem_scan_sorted Let_def)

subsection \<open>Witnesses\<close>

theorem array_pending_refines_witness:
  "\<exists>s'. ap_run demo_engine demo_aenv (ap_with_cap 10) [QEnqueue (demo_op ''a'' 7), QSetSeq 7 3] [] =
      ([QEnqueue (demo_op ''a'' 7), QSetSeq 7 3], s') \<and>
    map_option pa_seq (ap_view demo_aenv (pagedb_rows map_of demo_nsb s') 7) = Some 3"
proof -
  let ?cs = "[QEnqueue (demo_op ''a'' 7), QSetSeq 7 3]"
  obtain s' where r: "ap_run demo_engine demo_aenv (ap_with_cap 10) ?cs [] = (?cs, s')"
    by (simp add: ap_enqueue_def ap_len_def ap_with_cap_def demo_store_eqs encode_stored_def set_seq_def decode_stored_def
        demo_aenv_def demo_stored_codec_def)
  have "ap_inv demo_aenv 10 (pagedb_rows map_of demo_nsb [])"
    by (simp add: ap_inv_def ap_ok_def pagedb_rows_def dom_def)
  then have "ap_view demo_aenv (pagedb_rows map_of demo_nsb s')
      = fold (aq_call demo_aenv) ?cs (ap_view demo_aenv (pagedb_rows map_of demo_nsb []))"
    using array_pending_refines [OF mem_array.array_store_axioms demo_aenv_law _ _ _ r]
    by (simp add: ap_with_cap_def usize_max_def)
  then show ?thesis
    using r by simp
qed

theorem oplog_range_exact_witness:
  "\<exists>found. log_scan_range demo_engine demo_aenv
      [(15 # 1 # str_bytes ''a'' @ hlc_bytes demo_hlc 7, u64_to_be_bytes 7 @ str_bytes ''a'')] ''a'' 5 9 = Inr found \<and>
    found = map (\<lambda>(h, op). Inr op) (entries_where (\<lambda>h. 5 \<le> h \<and> h \<le> 9) (log_view demo_aenv
      (pagedb_rows map_of demo_nsb
        [(15 # 1 # str_bytes ''a'' @ hlc_bytes demo_hlc 7, u64_to_be_bytes 7 @ str_bytes ''a'')]) ''a''))"
proof -
  let ?s = "[(15 # 1 # str_bytes ''a'' @ hlc_bytes demo_hlc 7, u64_to_be_bytes 7 @ str_bytes ''a'')]"
  have rows: "pagedb_rows map_of demo_nsb ?s ArrayOpLog k
      = (if k = 1 # str_bytes ''a'' @ hlc_bytes demo_hlc 7 then Some (u64_to_be_bytes 7 @ str_bytes ''a'') else None)" for k
    by (simp add: pagedb_rows_def)
  have key: "make_key demo_aenv ''a'' h = Inr (1 # str_bytes ''a'' @ hlc_bytes demo_hlc h)" for h
    by (simp add: make_key_def Let_def demo_aenv_def str_bytes_def)
  have utf8: "valid_utf8 (str_bytes ''a'')"
    by (simp add: str_bytes_def)
  have ok: "log_ok demo_aenv (pagedb_rows map_of demo_nsb ?s)"
  proof -
    have "cd_dec (ae_op demo_aenv) (u64_to_be_bytes 7 @ str_bytes ''a'') = Some (demo_op ''a'' 7)"
      by (simp add: demo_aenv_def demo_op_codec_def)
    then show ?thesis
      unfolding log_ok_def rows by (auto simp: key utf8 split: if_splits)
  qed
  have "dom (pagedb_rows map_of demo_nsb ?s ArrayOpLog) \<subseteq> {1 # str_bytes ''a'' @ hlc_bytes demo_hlc 7}"
    unfolding dom_def rows by (auto split: if_splits)
  then have "card (dom (pagedb_rows map_of demo_nsb ?s ArrayOpLog)) \<le> card {1 # str_bytes ''a'' @ hlc_bytes demo_hlc 7}"
    by (intro card_mono) simp_all
  then have card: "card (dom (pagedb_rows map_of demo_nsb ?s ArrayOpLog)) \<le> usize_max"
    by (simp add: usize_max_def)
  obtain b where b: "next_prefix (1 # str_bytes ''a'' @ hlc_bytes demo_hlc 9) = Some b"
    by (simp add: next_prefix_def str_bytes_def demo_hlc_def u64_to_be_bytes_def nat_be_numeral)
  have pre: "make_array_prefix ''a'' = Inr (1 # str_bytes ''a'')"
    by (simp add: make_array_prefix_def Let_def str_bytes_def)
  obtain found where f: "log_scan_range demo_engine demo_aenv ?s ''a'' 5 9 = Inr found"
    by (simp add: log_scan_range_def key b pre demo_scan_bounded_eq)
  show ?thesis
    using oplog_range_exact [OF mem_array.array_store_axioms _ ok _ card utf8 f] f
    by (simp add: demo_aenv_def demo_hlc_law)
qed

theorem schema_survives_restart_witness:
  "\<exists>s' reg reg2 rep2.
     schema_steps demo_engine demo_hlc demo_persisted_codec demo_schema_api [SPut ''a'' [1, 2]]
       (SchemaRegistry_new, \<lparr>rs_replica_id = 4, rs_hlc_gen = 5\<rparr>, []) (reg, \<lparr>rs_replica_id = 4, rs_hlc_gen = 6\<rparr>, s') \<and>
     schema_load demo_engine demo_hlc demo_persisted_codec demo_schema_api s' \<lparr>rs_replica_id = 4, rs_hlc_gen = 0\<rparr> = (Inr reg2, rep2) \<and>
     (\<exists>d. hm_get (sr_docs reg2) ''a'' = Some d \<and> imported demo_schema_api 4 5 [1, 2] d)"
proof -
  let ?rep = "\<lparr>rs_replica_id = 4, rs_hlc_gen = 5\<rparr> :: u64 replica_state"
  let ?reg = "\<lparr>sr_docs = [(''a'', (5, [1, 2]))], sr_poisoned = False\<rparr> :: (u64 \<times> bytes) schema_registry"
  obtain s' where call: "do_schema_call demo_engine demo_hlc demo_persisted_codec demo_schema_api (SPut ''a'' [1, 2])
      (SchemaRegistry_new, ?rep, []) = (True, ?reg, ?rep\<lparr>rs_hlc_gen := 6\<rparr>, s')"
    and s': "sorted_wrt (<) (map fst s')"
    by (simp add: put_schema_def SchemaRegistry_new_def demo_schema_api_def export_and_persist_def schema_persist_def
        demo_persisted_codec_def demo_hlc_def demo_put_eq Let_def)
  have steps: "schema_steps demo_engine demo_hlc demo_persisted_codec demo_schema_api [SPut ''a'' [1, 2]]
      (SchemaRegistry_new, ?rep, []) (?reg, ?rep\<lparr>rs_hlc_gen := 6\<rparr>, s')"
    using call by (blast intro: schema_steps.intros)
  obtain pairs where p: "so_scan_prefix demo_engine s' Meta (str_bytes SCHEMA_KEY_PREFIX) = Inr pairs"
    using s' by (simp add: scan_prefix_rows_def mem_pagedb_def Let_def)
  have none: "pagedb_rows map_of demo_nsb [] Meta k = None" for k
    by (simp add: pagedb_rows_def)
  have utf8: "list_all (\<lambda>c. valid_utf8 (str_bytes (schema_name c))) [SPut ''a'' [1, 2 :: u8]]"
    by (simp add: str_bytes_def)
  have ex: "export_versioned demo_schema_api ?reg ''a'' = Inr (Some (5, [1, 2]))"
    by (simp add: export_versioned_def demo_schema_api_def)
  obtain reg2 rep2 where l:
    "schema_load demo_engine demo_hlc demo_persisted_codec demo_schema_api s' \<lparr>rs_replica_id = 4, rs_hlc_gen = 0\<rparr> = (Inr reg2, rep2)"
    "restored demo_schema_api 4 (export_versioned demo_schema_api ?reg ''a'') (hm_get (sr_docs reg2) ''a'')"
    using schema_survives_restart [OF mem_array.array_store_axioms demo_hlc_law demo_persisted_law demo_schema_law _ none utf8 steps p,
        of "\<lparr>rs_replica_id = 4, rs_hlc_gen = 0\<rparr>"] by auto
  have "\<exists>d. hm_get (sr_docs reg2) ''a'' = Some d \<and> imported demo_schema_api 4 5 [1, 2] d"
    using l(2) unfolding ex by (simp add: restored_def)
  then show ?thesis
    using steps l(1) by (auto intro: exI [of _ s'])
qed

end
