(* ===== verification/Array_Push.thy ===== *)
theory Array_Push
  imports Array_Store
begin

unbundle bit_operations_syntax

text \<open>
  The array push path: the per-session window (\<open>sync/client/array_push.rs\<close>), the push tick
  (\<open>transport/push/array.rs\<close>), the delegate's queue access
  (\<open>nodedb/sync_delegate/array.rs\<close>) and the reject and pong handlers
  (\<open>transport/dispatch_array.rs\<close>).

  Origin sends no frame for an applied op. The client infers that an op was applied from a
  pong that comes back with no reject for the op before it. \<open>session_step\<close> runs the
  window's methods, each under its lock, against ordered channels to and from Origin.
\<close>

subsection \<open>The window\<close>

definition ARRAY_PUSH_WINDOW :: usize where
  "ARRAY_PUSH_WINDOW = 256"

definition ARRAY_BARRIER_TIMEOUT :: duration where
  "ARRAY_BARRIER_TIMEOUT = from_secs 30"

definition MAX_SCHEMA_ANNOUNCES :: u32 where
  "MAX_SCHEMA_ANNOUNCES = 3"

definition BARRIER_TOKEN_TAG :: u64 where
  "BARRIER_TOKEN_TAG = push_bit 63 1"

datatype 'k tick_plan = Wait | Drain "'k option"

datatype announce_step_result = Ready | Send | GiveUp

record 'k window_outcome =
  wo_confirmed :: "'k list"
  wo_parked_unattributed :: usize

record 'k array_push_window =
  aw_announced :: "(string, 'k) hmap"
  aw_announce_count :: "(string, u32) hmap"
  aw_reannounce :: "string set"
  aw_parked_arrays :: "string set"
  aw_parked_ops :: "bytes set"
  aw_cursor :: "'k option"
  aw_rewind :: bool
  aw_in_flight :: "'k list"
  aw_rejected :: "bytes set"
  aw_unattributed :: bool
  aw_barrier :: "(u64 \<times> instant) option"
  aw_next_token :: u64

definition window_default :: "'k array_push_window" where
  "window_default =
     \<lparr>aw_announced = [], aw_announce_count = [], aw_reannounce = {}, aw_parked_arrays = {}, aw_parked_ops = {},
      aw_cursor = None, aw_rewind = False, aw_in_flight = [], aw_rejected = {}, aw_unattributed = False,
      aw_barrier = None, aw_next_token = 0\<rparr>"

definition window_reset :: "'k array_push_window \<Rightarrow> 'k array_push_window" where
  "window_reset w = window_default\<lparr>aw_next_token := aw_next_token w\<rparr>"

definition abandon_window :: "'k array_push_window \<Rightarrow> 'k array_push_window" where
  "abandon_window w =
     w\<lparr>aw_in_flight := [], aw_rejected := {}, aw_unattributed := False, aw_barrier := None,
       aw_cursor := None, aw_rewind := False\<rparr>"

definition begin_tick :: "instant \<Rightarrow> 'k array_push_window \<Rightarrow> 'k tick_plan \<times> 'k array_push_window" where
  "begin_tick now w =
     (case aw_barrier w of
        Some (token, sent_at) \<Rightarrow>
          if now - sent_at < ARRAY_BARRIER_TIMEOUT then (Wait, w)
          else (let w = abandon_window w in (Drain (aw_cursor w), w))
      | None \<Rightarrow> (Drain (aw_cursor w), w))"

definition is_held :: "'k hlc_api \<Rightarrow> 'k array_push_window \<Rightarrow> 'k pending_array_op \<Rightarrow> bool" where
  "is_held api w op \<longleftrightarrow> pa_array op \<in> aw_parked_arrays w \<or> hlc_bytes api (pa_hlc op) \<in> aw_parked_ops w"

definition window_advance :: "'k::linorder \<Rightarrow> 'k array_push_window \<Rightarrow> 'k array_push_window" where
  "window_advance hlc w =
     (if (case aw_cursor w of None \<Rightarrow> True | Some cursor \<Rightarrow> hlc > cursor) then w\<lparr>aw_cursor := Some hlc\<rparr> else w)"

definition announce_step :: "string \<Rightarrow> 'k array_push_window \<Rightarrow> announce_step_result \<times> 'k array_push_window" where
  "announce_step array w =
     (if array \<in> aw_parked_arrays w then (GiveUp, w)
      else if hm_contains (aw_announced w) array \<and> array \<notin> aw_reannounce w then (Ready, w)
      else if hm_get_or 0 (aw_announce_count w) array \<ge> MAX_SCHEMA_ANNOUNCES
           then (GiveUp, w\<lparr>aw_parked_arrays := insert array (aw_parked_arrays w)\<rparr>)
      else (Send, w))"

definition record_announced :: "string \<Rightarrow> 'k \<Rightarrow> 'k array_push_window \<Rightarrow> 'k array_push_window" where
  "record_announced array sh w =
     w\<lparr>aw_announced := hm_insert array sh (aw_announced w),
       aw_reannounce := aw_reannounce w - {array},
       aw_announce_count := hm_insert array (hm_get_or 0 (aw_announce_count w) array + 1) (aw_announce_count w)\<rparr>"

definition park_array :: "string \<Rightarrow> 'k array_push_window \<Rightarrow> 'k array_push_window" where
  "park_array array w = w\<lparr>aw_parked_arrays := insert array (aw_parked_arrays w)\<rparr>"

definition request_rewind :: "'k array_push_window \<Rightarrow> 'k array_push_window" where
  "request_rewind w = w\<lparr>aw_rewind := True\<rparr>"

definition record_sent :: "'k \<Rightarrow> 'k array_push_window \<Rightarrow> 'k array_push_window" where
  "record_sent hlc w = w\<lparr>aw_in_flight := aw_in_flight w @ [hlc]\<rparr>"

definition has_in_flight :: "'k array_push_window \<Rightarrow> bool" where
  "has_in_flight w \<longleftrightarrow> aw_in_flight w \<noteq> []"

definition barrier_token :: "u64 \<Rightarrow> u64" where
  "barrier_token n = BARRIER_TOKEN_TAG OR (n AND NOT BARRIER_TOKEN_TAG)"

definition open_barrier :: "instant \<Rightarrow> 'k array_push_window \<Rightarrow> u64 \<times> 'k array_push_window" where
  "open_barrier now w =
     (let token = barrier_token (aw_next_token w)
      in (token, w\<lparr>aw_next_token := aw_next_token w + 1, aw_barrier := Some (token, now)\<rparr>))"

definition finish_idle_tick :: "'k array_push_window \<Rightarrow> 'k array_push_window" where
  "finish_idle_tick w =
     (if aw_barrier w = None \<and> aw_rewind w then w\<lparr>aw_cursor := None, aw_rewind := False\<rparr> else w)"

record 'reason array_reject_msg =
  rj_array :: string
  rj_op_hlc_bytes :: bytes
  rj_reason :: 'reason

definition record_reject ::
  "'k hlc_api \<Rightarrow> ('reason \<Rightarrow> array_reject_class) \<Rightarrow> 'reason array_reject_msg \<Rightarrow> 'k array_push_window \<Rightarrow>
   'k array_push_window" where
  "record_reject api class_of msg w =
     (let disposition = reject_disposition_of class_of (rj_reason msg); key = rj_op_hlc_bytes msg
      in if disposition = CatchUp then w
         else if key = hlc_bytes api (hlc_zero api)
              then (if has_in_flight w then w\<lparr>aw_unattributed := True\<rparr> else w)
         else if (case hm_get (aw_announced w) (rj_array msg) of
                    None \<Rightarrow> False | Some sh \<Rightarrow> hlc_bytes api sh = key)
              then w\<lparr>aw_parked_arrays := insert (rj_array msg) (aw_parked_arrays w)\<rparr>
         else let w = w\<lparr>aw_rejected := insert key (aw_rejected w)\<rparr>
              in if disposition = ResendSchema \<and> rj_array msg \<notin> aw_parked_arrays w
                 then w\<lparr>aw_reannounce := insert (rj_array msg) (aw_reannounce w), aw_rewind := True\<rparr>
                 else if disposition = Park then w\<lparr>aw_parked_ops := insert key (aw_parked_ops w)\<rparr>
                 else w)"

definition complete_barrier ::
  "'k hlc_api \<Rightarrow> u64 \<Rightarrow> 'k array_push_window \<Rightarrow> 'k window_outcome option \<times> 'k array_push_window" where
  "complete_barrier api token w =
     (case aw_barrier w of
        None \<Rightarrow> (None, w)
      | Some (open_token, _) \<Rightarrow>
          if open_token \<noteq> token then (None, w)
          else let outcome =
                     (if aw_unattributed w
                      then \<lparr>wo_confirmed = [], wo_parked_unattributed = length (aw_in_flight w)\<rparr>
                      else \<lparr>wo_confirmed = filter (\<lambda>h. hlc_bytes api h \<notin> aw_rejected w) (aw_in_flight w),
                            wo_parked_unattributed = 0\<rparr>);
                   w1 = (if aw_unattributed w
                         then w\<lparr>aw_parked_ops := aw_parked_ops w \<union> set (map (hlc_bytes api) (aw_in_flight w))\<rparr>
                         else w);
                   w2 = w1\<lparr>aw_in_flight := [], aw_rejected := {}, aw_unattributed := False, aw_barrier := None\<rparr>;
                   w3 = (if aw_rewind w2 then w2\<lparr>aw_cursor := None, aw_rewind := False\<rparr> else w2)
               in (Some outcome, w3))"

subsection \<open>Frames and the delegate\<close>

text \<open>\<open>ad_op_hlc\<close> is the clock value of the op in the payload. The wire message carries it inside
  the payload only; the field names it for the session below.\<close>

record 'k array_delta_msg =
  ad_array :: string
  ad_op_hlc :: 'k
  ad_op_payload :: bytes
  ad_producer_id :: u64
  ad_epoch :: u64
  ad_seq :: u64

record 'k array_schema_msg =
  as_array :: string
  as_replica_id :: u64
  as_schema_hlc :: 'k
  as_snapshot_payload :: bytes

datatype 'k array_frame =
    FSchema "'k array_schema_msg"
  | FDelta "'k array_delta_msg"
  | FPing u64

text \<open>The delegate's array methods over the storage, the stream sequence tracker and the
  schema registry.\<close>

type_synonym ('d, 's) delegate_state = "seq_tracker \<times> 'd schema_registry \<times> 's"

definition pending_array_ops_impl ::
  "'s storage_ops \<Rightarrow> ('k, 'c, 'v) array_env \<Rightarrow> ('d, 's) delegate_state \<Rightarrow> 'k option \<Rightarrow> usize \<Rightarrow>
   'k pending_array_op list lite_result" where
  "pending_array_ops_impl so env = (\<lambda>(t, reg, s) after_hlc limit. scan_after so env s after_hlc limit)"

definition persist_array_op_seq_impl ::
  "'s storage_ops \<Rightarrow> ('k, 'c, 'v) array_env \<Rightarrow> 'k pending_array_op \<Rightarrow> ('d, 's) delegate_state \<Rightarrow>
   unit lite_result \<times> ('d, 's) delegate_state" where
  "persist_array_op_seq_impl so env op = (\<lambda>(t, reg, s).
     (case set_seq so env s (pa_hlc op) (pa_seq op) of
        (Inl e, s') \<Rightarrow> (Inl e, t, reg, s')
      | (Inr True, s') \<Rightarrow> (Inr (), t, reg, s')
      | (Inr False, s') \<Rightarrow> (Inl Storage, t, reg, s')))"

definition retire_array_ops_impl ::
  "'s storage_ops \<Rightarrow> ('k, 'c, 'v) array_env \<Rightarrow> 'k list \<Rightarrow> ('d, 's) delegate_state \<Rightarrow>
   unit lite_result \<times> ('d, 's) delegate_state" where
  "retire_array_ops_impl so env hlcs = (\<lambda>(t, reg, s).
     (case retire so env s hlcs of (r, s') \<Rightarrow> (rbind r (\<lambda>_. Inr ()), t, reg, s')))"

definition array_schema_announce_impl ::
  "('d, 'sch, 'g, 'k) schema_api \<Rightarrow> u64 \<Rightarrow> ('d, 's) delegate_state \<Rightarrow> string \<Rightarrow> 'k array_schema_msg option lite_result" where
  "array_schema_announce_impl api replica_id = (\<lambda>(t, reg, s) array.
     rbind (export_versioned api reg array) (\<lambda>found.
       Inr (map_option (\<lambda>(sh, snapshot).
              \<lparr>as_array = array, as_replica_id = replica_id, as_schema_hlc = sh,
               as_snapshot_payload = snapshot\<rparr>) found)))"

subsection \<open>The push tick\<close>

text \<open>The frame encoder and the socket are external: \<open>pe_encodes\<close> says whether a frame
  encodes, \<open>pe_send\<close> sends one and reports success.\<close>

record ('k, 'c, 'v, 'd, 'sch, 'g, 's, 'w) push_env =
  pe_so :: "'s storage_ops"
  pe_env :: "('k, 'c, 'v) array_env"
  pe_api :: "('d, 'sch, 'g, 'k) schema_api"
  pe_replica_id :: u64
  pe_stream_id :: "string \<Rightarrow> u64"
  pe_encodes :: "'k array_frame \<Rightarrow> bool"
  pe_send :: "'k array_frame \<Rightarrow> 'w \<Rightarrow> bool \<times> 'w"

record ('k, 'd, 's, 'w) push_state =
  pu_window :: "'k array_push_window"
  pu_delegate :: "('d, 's) delegate_state"
  pu_sink :: 'w

definition on_window ::
  "('k array_push_window \<Rightarrow> 'k array_push_window) \<Rightarrow> ('k, 'd, 's, 'w) push_state \<Rightarrow> ('k, 'd, 's, 'w) push_state" where
  "on_window f st = st\<lparr>pu_window := f (pu_window st)\<rparr>"

definition send_binary ::
  "('k, 'c, 'v, 'd, 'sch, 'g, 's, 'w) push_env \<Rightarrow> 'k array_frame \<Rightarrow> ('k, 'd, 's, 'w) push_state \<Rightarrow>
   bool \<times> ('k, 'd, 's, 'w) push_state" where
  "send_binary pe frame st = (case pe_send pe frame (pu_sink st) of (ok, sink) \<Rightarrow> (ok, st\<lparr>pu_sink := sink\<rparr>))"

fun select_sendable ::
  "'k::linorder hlc_api \<Rightarrow> 'k pending_array_op list \<Rightarrow> 'k array_push_window \<Rightarrow>
   'k pending_array_op list \<times> 'k array_push_window" where
  "select_sendable api [] w = ([], w)"
| "select_sendable api (op # scanned) w =
     (let w = window_advance (pa_hlc op) w
      in case select_sendable api scanned w of
           (ops, w') \<Rightarrow> (if is_held api w op then ops else op # ops, w'))"

text \<open>\<open>None\<close> is \<open>ControlFlow::Break\<close>.\<close>

definition announce ::
  "('k, 'c, 'v, 'd, 'sch, 'g, 's, 'w) push_env \<Rightarrow> string \<Rightarrow> ('k, 'd, 's, 'w) push_state \<Rightarrow>
   bool option \<times> ('k, 'd, 's, 'w) push_state" where
  "announce pe array st =
     (case array_schema_announce_impl (pe_api pe) (pe_replica_id pe) (pu_delegate st) array of
        Inr None \<Rightarrow> (Some False, on_window (park_array array) st)
      | Inl e \<Rightarrow> (Some False, on_window request_rewind st)
      | Inr (Some msg) \<Rightarrow>
          if \<not> pe_encodes pe (FSchema msg) then (Some False, on_window (park_array array) st)
          else (case send_binary pe (FSchema msg) (on_window (record_announced array (as_schema_hlc msg)) st) of
                  (ok, st') \<Rightarrow> (if ok then Some True else None, st')))"

fun seen_arrays :: "'k pending_array_op list \<Rightarrow> string list \<Rightarrow> string list" where
  "seen_arrays [] seen = seen"
| "seen_arrays (op # ops) seen =
     seen_arrays ops (if pa_array op \<in> set seen then seen else seen @ [pa_array op])"

fun announce_loop ::
  "('k, 'c, 'v, 'd, 'sch, 'g, 's, 'w) push_env \<Rightarrow> string list \<Rightarrow> string list \<Rightarrow> ('k, 'd, 's, 'w) push_state \<Rightarrow>
   string list option \<times> ('k, 'd, 's, 'w) push_state" where
  "announce_loop pe [] ready st = (Some ready, st)"
| "announce_loop pe (array # arrays) ready st =
     (case announce_step array (pu_window st) of
        (Ready, w) \<Rightarrow> announce_loop pe arrays (ready @ [array]) (st\<lparr>pu_window := w\<rparr>)
      | (GiveUp, w) \<Rightarrow> announce_loop pe arrays ready (st\<lparr>pu_window := w\<rparr>)
      | (Send, w) \<Rightarrow>
          (case announce pe array (st\<lparr>pu_window := w\<rparr>) of
             (None, st') \<Rightarrow> (None, st')
           | (Some True, st') \<Rightarrow> announce_loop pe arrays (ready @ [array]) st'
           | (Some False, st') \<Rightarrow> announce_loop pe arrays ready st'))"

definition announce_schemas ::
  "('k, 'c, 'v, 'd, 'sch, 'g, 's, 'w) push_env \<Rightarrow> 'k pending_array_op list \<Rightarrow> ('k, 'd, 's, 'w) push_state \<Rightarrow>
   string list option \<times> ('k, 'd, 's, 'w) push_state" where
  "announce_schemas pe ops st = announce_loop pe (seen_arrays ops []) [] st"

definition send_delta ::
  "('k, 'c, 'v, 'd, 'sch, 'g, 's, 'w) push_env \<Rightarrow> 'k pending_array_op \<Rightarrow> u64 \<Rightarrow> u64 \<Rightarrow> ('k, 'd, 's, 'w) push_state \<Rightarrow>
   bool \<times> ('k, 'd, 's, 'w) push_state" where
  "send_delta pe op producer_id epoch st =
     (let hlc = pa_hlc op;
          msg = \<lparr>ad_array = pa_array op, ad_op_hlc = hlc, ad_op_payload = pa_op_payload op,
                 ad_producer_id = producer_id, ad_epoch = epoch, ad_seq = pa_seq op\<rparr>
      in if \<not> pe_encodes pe (FDelta msg)
         then (case retire_array_ops_impl (pe_so pe) (pe_env pe) [hlc] (pu_delegate st) of
                 (_, del) \<Rightarrow> (True, st\<lparr>pu_delegate := del\<rparr>))
         else send_binary pe (FDelta msg) (on_window (record_sent hlc) st))"

definition assign_seq ::
  "('k, 'c, 'v, 'd, 'sch, 'g, 's, 'w) push_env \<Rightarrow> 'k pending_array_op \<Rightarrow> ('d, 's) delegate_state \<Rightarrow>
   'k pending_array_op \<times> ('d, 's) delegate_state" where
  "assign_seq pe op = (\<lambda>(t, reg, s).
     case next_stream_seq_impl (pe_so pe) t s (pe_stream_id pe (pa_array op)) of
       (seq, t', s') \<Rightarrow> (op\<lparr>pa_seq := seq\<rparr>, t', reg, s'))"

fun push_ops ::
  "('k, 'c, 'v, 'd, 'sch, 'g, 's, 'w) push_env \<Rightarrow> u64 \<Rightarrow> u64 \<Rightarrow> string list \<Rightarrow> 'k pending_array_op list \<Rightarrow>
   ('k, 'd, 's, 'w) push_state \<Rightarrow> bool \<times> ('k, 'd, 's, 'w) push_state" where
  "push_ops pe producer_id epoch ready [] st = (True, st)"
| "push_ops pe producer_id epoch ready (op # ops) st =
     (if pa_array op \<notin> set ready then push_ops pe producer_id epoch ready ops st
      else if pa_seq op = 0
      then (case assign_seq pe op (pu_delegate st) of
              (op', del) \<Rightarrow>
                (case persist_array_op_seq_impl (pe_so pe) (pe_env pe) op' del of
                   (Inl e, del') \<Rightarrow>
                     push_ops pe producer_id epoch ready ops (on_window request_rewind (st\<lparr>pu_delegate := del'\<rparr>))
                 | (Inr _, del') \<Rightarrow>
                     (case send_delta pe op' producer_id epoch (st\<lparr>pu_delegate := del'\<rparr>) of
                        (False, st') \<Rightarrow> (False, st')
                      | (True, st') \<Rightarrow> push_ops pe producer_id epoch ready ops st')))
      else (case send_delta pe op producer_id epoch st of
              (False, st') \<Rightarrow> (False, st')
            | (True, st') \<Rightarrow> push_ops pe producer_id epoch ready ops st'))"

definition close_tick ::
  "('k, 'c, 'v, 'd, 'sch, 'g, 's, 'w) push_env \<Rightarrow> instant \<Rightarrow> ('k, 'd, 's, 'w) push_state \<Rightarrow>
   bool \<times> ('k, 'd, 's, 'w) push_state" where
  "close_tick pe now st =
     (if \<not> has_in_flight (pu_window st) then (True, on_window finish_idle_tick st)
      else case open_barrier now (pu_window st) of
             (token, w) \<Rightarrow>
               if \<not> pe_encodes pe (FPing token) then (True, st\<lparr>pu_window := abandon_window w\<rparr>)
               else send_binary pe (FPing token) (st\<lparr>pu_window := w\<rparr>))"

text \<open>The result is whether the push loop continues. \<open>now\<close> and \<open>now'\<close> are the two clock
  readings of the tick.\<close>

definition array_push_tick ::
  "('k::linorder, 'c, 'v, 'd, 'sch, 'g, 's, 'w) push_env \<Rightarrow> instant \<Rightarrow> instant \<Rightarrow> u64 \<Rightarrow> u64 \<Rightarrow>
   ('k, 'd, 's, 'w) push_state \<Rightarrow> bool \<times> ('k, 'd, 's, 'w) push_state" where
  "array_push_tick pe now now' producer_id epoch st =
     (case begin_tick now (pu_window st) of
        (Wait, w) \<Rightarrow> (True, st\<lparr>pu_window := w\<rparr>)
      | (Drain after_hlc, w) \<Rightarrow>
          (let st = st\<lparr>pu_window := w\<rparr>
           in case pending_array_ops_impl (pe_so pe) (pe_env pe) (pu_delegate st) after_hlc ARRAY_PUSH_WINDOW of
                Inl e \<Rightarrow> (True, st)
              | Inr scanned \<Rightarrow>
                  (case select_sendable (ae_hlc (pe_env pe)) scanned (pu_window st) of
                     (ops, w) \<Rightarrow>
                       (case announce_schemas pe ops (st\<lparr>pu_window := w\<rparr>) of
                          (None, st') \<Rightarrow> (False, st')
                        | (Some ready, st') \<Rightarrow>
                            (case push_ops pe producer_id epoch ready ops st' of
                               (False, st'') \<Rightarrow> (False, st'')
                             | (True, st'') \<Rightarrow> close_tick pe now' st'')))))"

subsection \<open>Pong handling\<close>

text \<open>\<open>handle_ping_pong\<close> on a decoded frame.\<close>

definition handle_ping_pong ::
  "'s storage_ops \<Rightarrow> ('k, 'c, 'v) array_env \<Rightarrow> bool \<Rightarrow> u64 \<Rightarrow> 'k array_push_window \<times> ('d, 's) delegate_state \<Rightarrow>
   'k array_push_window \<times> ('d, 's) delegate_state" where
  "handle_ping_pong so env is_pong timestamp_ms = (\<lambda>(w, del).
     if \<not> is_pong then (w, del)
     else case complete_barrier (ae_hlc env) timestamp_ms w of
            (None, w') \<Rightarrow> (w', del)
          | (Some outcome, w') \<Rightarrow>
              if wo_confirmed outcome = [] then (w', del)
              else (case retire_array_ops_impl so env (wo_confirmed outcome) del of (_, del') \<Rightarrow> (w', del')))"

subsection \<open>The session with Origin\<close>

datatype 'reason origin_frame =
    OReject "'reason array_reject_msg"
  | OPong u64

text \<open>\<open>ss_unsent\<close> is a frame the push loop has recorded in the window and is about to send.
  \<open>ss_applied\<close> is what Origin applied, \<open>ss_confirmed\<close> what the client concluded it
  applied; the two are observed, no step reads them.\<close>

record ('k, 'reason) session =
  ss_window :: "'k array_push_window"
  ss_unsent :: "'k array_frame option"
  ss_out :: "'k array_frame list"
  ss_in :: "'reason origin_frame list"
  ss_applied :: "'k set"
  ss_confirmed :: "'k set"

definition session_start :: "('k, 'reason) session" where
  "session_start =
     \<lparr>ss_window = window_default, ss_unsent = None, ss_out = [], ss_in = [], ss_applied = {}, ss_confirmed = {}\<rparr>"

text \<open>Window methods that touch neither the ops in flight nor the barrier.\<close>

definition side_step :: "('k::linorder array_push_window \<Rightarrow> 'k array_push_window) \<Rightarrow> bool" where
  "side_step f \<longleftrightarrow>
     (\<exists>h. f = window_advance h) \<or> (\<exists>a. f = (\<lambda>w. snd (announce_step a w))) \<or> (\<exists>a. f = park_array a) \<or>
     f = request_rewind \<or> f = finish_idle_tick"

text \<open>\<open>refusal api cls a h m\<close>: \<open>m\<close> is a reject of a frame of array \<open>a\<close> with clock value
  \<open>h\<close>. Origin names the op or, where it cannot, the zero clock value.\<close>

definition refusal ::
  "'k hlc_api \<Rightarrow> ('reason \<Rightarrow> array_reject_class) \<Rightarrow> string \<Rightarrow> 'k \<Rightarrow> 'reason array_reject_msg \<Rightarrow> bool" where
  "refusal api class_of array h m \<longleftrightarrow>
     rj_array m = array \<and> rj_op_hlc_bytes m \<in> {hlc_bytes api h, hlc_bytes api (hlc_zero api)} \<and>
     reject_disposition_of class_of (rj_reason m) \<noteq> CatchUp"

inductive session_step ::
  "'k::linorder hlc_api \<Rightarrow> ('reason \<Rightarrow> array_reject_class) \<Rightarrow> 'k set \<Rightarrow>
   ('k, 'reason) session \<Rightarrow> ('k, 'reason) session \<Rightarrow> bool"
  for api class_of ops where
  tick: "ss_unsent s = None \<Longrightarrow>
    session_step api class_of ops s (s\<lparr>ss_window := snd (begin_tick now (ss_window s))\<rparr>)"
| side: "side_step f \<Longrightarrow> session_step api class_of ops s (s\<lparr>ss_window := f (ss_window s)\<rparr>)"
| announced: "ss_unsent s = None \<Longrightarrow> as_schema_hlc msg \<notin> ops \<Longrightarrow>
    session_step api class_of ops s
      (s\<lparr>ss_window := record_announced (as_array msg) (as_schema_hlc msg) (ss_window s), ss_unsent := Some (FSchema msg)\<rparr>)"
| delta: "ss_unsent s = None \<Longrightarrow> aw_barrier (ss_window s) = None \<Longrightarrow> ad_op_hlc msg \<in> ops \<Longrightarrow>
    session_step api class_of ops s
      (s\<lparr>ss_window := record_sent (ad_op_hlc msg) (ss_window s), ss_unsent := Some (FDelta msg)\<rparr>)"
| barrier: "ss_unsent s = None \<Longrightarrow> aw_barrier (ss_window s) = None \<Longrightarrow> has_in_flight (ss_window s) \<Longrightarrow>
    unat (aw_next_token (ss_window s)) < 2 ^ 63 \<Longrightarrow> open_barrier now (ss_window s) = (token, w) \<Longrightarrow>
    session_step api class_of ops s (s\<lparr>ss_window := w, ss_unsent := Some (FPing token)\<rparr>)"
| unencodable: "ss_unsent s = Some (FPing token) \<Longrightarrow>
    session_step api class_of ops s (s\<lparr>ss_window := abandon_window (ss_window s), ss_unsent := None\<rparr>)"
| transmit: "ss_unsent s = Some frame \<Longrightarrow>
    session_step api class_of ops s (s\<lparr>ss_out := ss_out s @ [frame], ss_unsent := None\<rparr>)"
| keepalive: "unat now_millis < 2 ^ 63 \<Longrightarrow>
    session_step api class_of ops s (s\<lparr>ss_out := ss_out s @ [FPing now_millis]\<rparr>)"
| origin_applies: "ss_out s = FDelta msg # rest \<Longrightarrow>
    session_step api class_of ops s (s\<lparr>ss_out := rest, ss_applied := insert (ad_op_hlc msg) (ss_applied s)\<rparr>)"
| origin_refuses: "ss_out s = FDelta msg # rest \<Longrightarrow> refusal api class_of (ad_array msg) (ad_op_hlc msg) m \<Longrightarrow>
    session_step api class_of ops s (s\<lparr>ss_out := rest, ss_in := ss_in s @ [OReject m]\<rparr>)"
| origin_schema: "ss_out s = FSchema msg # rest \<Longrightarrow>
    session_step api class_of ops s (s\<lparr>ss_out := rest\<rparr>)"
| origin_refuses_schema: "ss_out s = FSchema msg # rest \<Longrightarrow> refusal api class_of (as_array msg) (as_schema_hlc msg) m \<Longrightarrow>
    session_step api class_of ops s (s\<lparr>ss_out := rest, ss_in := ss_in s @ [OReject m]\<rparr>)"
| origin_pong: "ss_out s = FPing t # rest \<Longrightarrow>
    session_step api class_of ops s (s\<lparr>ss_out := rest, ss_in := ss_in s @ [OPong t]\<rparr>)"
| origin_floor: "reject_disposition_of class_of (rj_reason m) = CatchUp \<Longrightarrow>
    session_step api class_of ops s (s\<lparr>ss_in := ss_in s @ [OReject m]\<rparr>)"
| receive_reject: "ss_in s = OReject m # rest \<Longrightarrow>
    session_step api class_of ops s (s\<lparr>ss_in := rest, ss_window := record_reject api class_of m (ss_window s)\<rparr>)"
| receive_pong: "ss_in s = OPong t # rest \<Longrightarrow> complete_barrier api t (ss_window s) = (outcome, w) \<Longrightarrow>
    session_step api class_of ops s
      (s\<lparr>ss_in := rest, ss_window := w,
         ss_confirmed := ss_confirmed s \<union> (case outcome of None \<Rightarrow> {} | Some out \<Rightarrow> set (wo_confirmed out))\<rparr>)"
| reconnect: "session_step api class_of ops s
    (s\<lparr>ss_window := window_reset (ss_window s), ss_unsent := None, ss_out := [], ss_in := []\<rparr>)"

subsection \<open>Tokens\<close>

lemma small_word_bit: "unat (n :: u64) < 2 ^ 63 \<longleftrightarrow> \<not> bit n 63"
proof -
  have "bit n 63 \<longleftrightarrow> odd (unat n div 2 ^ 63)"
    using bit_unsigned_iff [of n 63, where 'a = nat] by (simp add: bit_iff_odd)
  moreover have "unat n div 2 ^ 63 < 2"
    using unat_lt_2p64 [of n] by (simp add: less_mult_imp_div_less)
  ultimately show ?thesis
    by (auto simp: div_eq_0_iff less_2_cases_iff) 
qed

lemma barrier_tag_bit: "bit BARRIER_TOKEN_TAG i \<longleftrightarrow> i = 63"
  unfolding BARRIER_TOKEN_TAG_def bit_push_bit_iff bit_1_iff by auto

lemma barrier_token_bit: "bit (barrier_token n) i \<longleftrightarrow> i = 63 \<or> i < 63 \<and> bit n i"
proof -
  have "bit n i \<Longrightarrow> i < 64"
    using bit_imp_le_length [of n i] by simp
  then show ?thesis
    by (auto simp: barrier_token_def barrier_tag_bit bit_or_iff bit_and_iff bit_not_iff)
qed

lemma barrier_token_inject:
  assumes "unat a < 2 ^ 63" "unat b < 2 ^ 63" "barrier_token a = barrier_token b"
  shows "a = b"
proof (rule bit_word_eqI)
  fix i :: nat
  assume "i < LENGTH(64)"
  then show "bit a i = bit b i"
    using assms barrier_token_bit [of a i] barrier_token_bit [of b i] small_word_bit [of a] small_word_bit [of b]
    by (cases "i = 63") auto
qed

lemma barrier_token_large: "\<not> unat (barrier_token n) < 2 ^ 63"
  by (simp only: small_word_bit barrier_token_bit) simp

subsection \<open>The session invariant\<close>

definition about :: "'k hlc_api \<Rightarrow> ('reason \<Rightarrow> array_reject_class) \<Rightarrow> 'k \<Rightarrow> 'reason array_reject_msg \<Rightarrow> bool" where
  "about api class_of h m \<longleftrightarrow>
     rj_op_hlc_bytes m \<in> {hlc_bytes api h, hlc_bytes api (hlc_zero api)} \<and>
     reject_disposition_of class_of (rj_reason m) \<noteq> CatchUp"

text \<open>What Origin reads before the open window's ping, and what the client reads before its
  pong.\<close>

definition before_ping :: "'k array_push_window \<Rightarrow> 'k array_frame list \<Rightarrow> 'k array_frame list" where
  "before_ping w out = (case aw_barrier w of None \<Rightarrow> out | Some (t, _) \<Rightarrow> takeWhile (\<lambda>f. f \<noteq> FPing t) out)"

definition before_pong :: "'k array_push_window \<Rightarrow> 'reason origin_frame list \<Rightarrow> 'reason origin_frame list" where
  "before_pong w inc = (case aw_barrier w of None \<Rightarrow> inc | Some (t, _) \<Rightarrow> takeWhile (\<lambda>f. f \<noteq> OPong t) inc)"

definition answered :: "'k array_push_window \<Rightarrow> 'reason origin_frame list \<Rightarrow> bool" where
  "answered w inc \<longleftrightarrow> (case aw_barrier w of None \<Rightarrow> False | Some (t, _) \<Rightarrow> OPong t \<in> set inc)"

definition settled ::
  "'k hlc_api \<Rightarrow> ('reason \<Rightarrow> array_reject_class) \<Rightarrow> 'k set \<Rightarrow> 'k array_push_window \<Rightarrow> 'k array_frame option \<Rightarrow>
   'k array_frame list \<Rightarrow> 'reason origin_frame list \<Rightarrow> 'k \<Rightarrow> bool" where
  "settled api class_of applied w unsent out inc h \<longleftrightarrow>
     h \<in> applied \<or> hlc_bytes api h \<in> aw_rejected w \<or> aw_unattributed w \<or>
     (\<exists>m. OReject m \<in> set (before_pong w inc) \<and> about api class_of h m) \<or>
     (\<not> answered w inc \<and> (\<exists>msg. FDelta msg \<in> set (before_ping w out) \<and> ad_op_hlc msg = h)) \<or>
     (aw_barrier w = None \<and> (\<exists>msg. unsent = Some (FDelta msg) \<and> ad_op_hlc msg = h))"

definition token_ok :: "u64 \<Rightarrow> u64 \<Rightarrow> bool" where
  "token_ok next t \<longleftrightarrow> unat t < 2 ^ 63 \<or> (\<exists>n < next. t = barrier_token n)"

definition tokens_ok ::
  "u64 \<Rightarrow> 'k array_frame option \<Rightarrow> 'k array_frame list \<Rightarrow> 'reason origin_frame list \<Rightarrow> bool" where
  "tokens_ok next unsent out inc \<longleftrightarrow>
     unat next \<le> 2 ^ 63 \<and> (\<forall>t. FPing t \<in> set out \<longrightarrow> token_ok next t) \<and>
     (\<forall>t. unsent = Some (FPing t) \<longrightarrow> token_ok next t) \<and> (\<forall>t. OPong t \<in> set inc \<longrightarrow> token_ok next t)"

definition session_inv ::
  "'k hlc_api \<Rightarrow> ('reason \<Rightarrow> array_reject_class) \<Rightarrow> 'k set \<Rightarrow> ('k, 'reason) session \<Rightarrow> bool" where
  "session_inv api class_of ops s \<longleftrightarrow>
     tokens_ok (aw_next_token (ss_window s)) (ss_unsent s) (ss_out s) (ss_in s) \<and>
     (\<forall>a h. hm_get (aw_announced (ss_window s)) a = Some h \<longrightarrow> h \<notin> ops) \<and>
     set (aw_in_flight (ss_window s)) \<subseteq> ops \<and>
     list_all (settled api class_of (ss_applied s) (ss_window s) (ss_unsent s) (ss_out s) (ss_in s))
       (aw_in_flight (ss_window s)) \<and>
     ss_confirmed s \<subseteq> ss_applied s"

text \<open>The parts of a window the invariant reads.\<close>

definition same_core :: "'k array_push_window \<Rightarrow> 'k array_push_window \<Rightarrow> bool" where
  "same_core w' w \<longleftrightarrow>
     aw_announced w' = aw_announced w \<and> aw_in_flight w' = aw_in_flight w \<and> aw_rejected w' = aw_rejected w \<and>
     aw_unattributed w' = aw_unattributed w \<and> aw_barrier w' = aw_barrier w \<and> aw_next_token w' = aw_next_token w"

lemma side_step_core:
  assumes "side_step f"
  shows "same_core (f w) w"
proof -
  have "same_core (window_advance h w) w" for h
    by (simp add: same_core_def window_advance_def)
  moreover have "same_core (snd (announce_step a w)) w" for a
    by (simp add: same_core_def announce_step_def)
  moreover have "same_core (park_array a w) w" "same_core (request_rewind w) w" "same_core (finish_idle_tick w) w" for a
    by (simp_all add: same_core_def park_array_def request_rewind_def finish_idle_tick_def)
  ultimately show ?thesis
    using assms by (auto simp: side_step_def)
qed

lemma same_core_settled:
  "same_core w' w \<Longrightarrow> settled api class_of applied w' unsent out inc = settled api class_of applied w unsent out inc"
  by (simp add: same_core_def settled_def [abs_def] before_ping_def before_pong_def answered_def)

lemma same_core_inv:
  assumes "same_core w (ss_window s)" "session_inv api class_of ops s"
  shows "session_inv api class_of ops (s\<lparr>ss_window := w\<rparr>)"
  using assms(2) by (simp add: session_inv_def same_core_settled [OF assms(1)]) (use assms(1) in \<open>simp add: same_core_def\<close>)

lemma closed_inv:
  assumes "aw_in_flight w = []" "aw_next_token w = aw_next_token (ss_window s)"
    and "\<And>a h. hm_get (aw_announced w) a = Some h \<Longrightarrow> h \<notin> ops" "session_inv api class_of ops s"
  shows "session_inv api class_of ops (s\<lparr>ss_window := w\<rparr>)"
  using assms unfolding session_inv_def by simp

lemma set_takeWhile_append: "set (takeWhile P xs) \<subseteq> set (takeWhile P (xs @ ys))"
  by (induction xs) auto

lemma before_ping_append: "set (before_ping w out) \<subseteq> set (before_ping w (out @ fs))"
  using set_takeWhile_append by (fastforce simp: before_ping_def split: option.splits)

lemma before_pong_append: "set (before_pong w inc) \<subseteq> set (before_pong w (inc @ fs))"
  using set_takeWhile_append by (fastforce simp: before_pong_def split: option.splits)

lemma before_pong_last: "\<not> answered w inc \<Longrightarrow> OReject m \<in> set (before_pong w (inc @ [OReject m]))"
  by (auto simp: before_pong_def answered_def takeWhile_append split: option.splits)

lemma answered_append: "answered w (inc @ fs) \<longleftrightarrow> answered w inc \<or> answered w fs"
  by (auto simp: answered_def split: option.splits)

lemma settled_out:
  assumes "settled api class_of applied w unsent out inc h"
  shows "settled api class_of applied w unsent (out @ fs) inc h"
  using assms before_ping_append [of w out fs] unfolding settled_def by blast

lemma settled_in:
  assumes "settled api class_of applied w unsent out inc h" "\<not> answered w fs"
  shows "settled api class_of applied w unsent out (inc @ fs) h"
  using assms before_pong_append [of w inc fs] unfolding settled_def answered_append by blast

lemma settled_applied:
  "settled api class_of applied w unsent out inc h \<Longrightarrow> applied \<subseteq> applied' \<Longrightarrow>
   settled api class_of applied' w unsent out inc h"
  unfolding settled_def by blast

lemma token_ok_mono: "token_ok n t \<Longrightarrow> n \<le> n' \<Longrightarrow> token_ok n' t"
  unfolding token_ok_def using order_less_le_trans by blast

lemma token_fresh:
  assumes "token_ok n t" "unat n < 2 ^ 63"
  shows "t \<noteq> barrier_token n"
proof
  assume t: "t = barrier_token n"
  then obtain k where k: "k < n" "barrier_token n = barrier_token k"
    using assms(1) barrier_token_large unfolding token_ok_def by blast
  moreover have "unat k < 2 ^ 63"
    using k(1) assms(2) by (simp add: word_less_nat_alt)
  ultimately show False
    using barrier_token_inject [OF assms(2)] by blast
qed

lemma record_reject_core:
  "aw_announced (record_reject api class_of m w) = aw_announced w"
  "aw_in_flight (record_reject api class_of m w) = aw_in_flight w"
  "aw_barrier (record_reject api class_of m w) = aw_barrier w"
  "aw_next_token (record_reject api class_of m w) = aw_next_token w"
  "aw_rejected w \<subseteq> aw_rejected (record_reject api class_of m w)"
  "aw_unattributed w \<longrightarrow> aw_unattributed (record_reject api class_of m w)"
  by (auto simp: record_reject_def Let_def)

lemma record_reject_hits:
  assumes "about api class_of h m" "h \<in> set (aw_in_flight w)" "inj (hlc_bytes api)"
    and "\<And>a k. hm_get (aw_announced w) a = Some k \<Longrightarrow> k \<noteq> h"
  shows "hlc_bytes api h \<in> aw_rejected (record_reject api class_of m w) \<or> aw_unattributed (record_reject api class_of m w)"
proof -
  have "hlc_bytes api k \<noteq> hlc_bytes api h" if "hm_get (aw_announced w) a = Some k" for a k
    using assms(3,4) that by (metis injD)
  then show ?thesis
    using assms(1,2) by (auto simp: record_reject_def about_def Let_def has_in_flight_def split: option.splits)
qed

lemma settled_reject:
  assumes "settled api class_of applied w unsent out (OReject m # inc) h" "h \<in> set (aw_in_flight w)"
    and "inj (hlc_bytes api)" "\<And>a k. hm_get (aw_announced w) a = Some k \<Longrightarrow> k \<noteq> h"
  shows "settled api class_of applied (record_reject api class_of m w) unsent out inc h"
proof (cases "about api class_of h m")
  case True
  then show ?thesis
    using record_reject_hits [OF True assms(2,3)] assms(4) unfolding settled_def by blast
next
  case False
  have "before_pong w (OReject m # inc) = OReject m # before_pong w inc" "answered w (OReject m # inc) = answered w inc"
    by (auto simp: before_pong_def answered_def split: option.splits)
  then have "settled api class_of applied w unsent out inc h"
    using assms(1) False unfolding settled_def by auto
  moreover have "before_pong (record_reject api class_of m w) inc = before_pong w inc"
    "answered (record_reject api class_of m w) inc = answered w inc"
    "before_ping (record_reject api class_of m w) out = before_ping w out"
    by (simp_all add: before_pong_def answered_def before_ping_def record_reject_core)
  ultimately show ?thesis
    using record_reject_core(5,6) [of w api class_of m] unfolding settled_def record_reject_core(3) by auto
qed

lemma settled_pong:
  assumes "settled api class_of applied w unsent out (OPong t # inc) h"
    and "case aw_barrier w of None \<Rightarrow> True | Some (t', _) \<Rightarrow> t' \<noteq> t"
  shows "settled api class_of applied w unsent out inc h"
  using assms by (auto simp: settled_def before_pong_def answered_def split: option.splits)

lemma settled_pong_closed:
  assumes "settled api class_of applied w unsent out (OPong t # inc) h" "aw_barrier w = Some (t, i)"
    and "hlc_bytes api h \<notin> aw_rejected w" "\<not> aw_unattributed w"
  shows "h \<in> applied"
  using assms by (auto simp: settled_def before_pong_def answered_def)

lemma settled_head:
  assumes "settled api class_of applied w unsent (f # out) inc h"
  shows "settled api class_of applied w unsent out inc h \<or> (\<exists>msg. f = FDelta msg \<and> ad_op_hlc msg = h \<and> \<not> answered w inc)"
  using assms by (auto simp: settled_def before_ping_def split: option.splits if_splits)

lemma settled_refused:
  assumes "settled api class_of applied w unsent (FDelta msg # out) inc h" "refusal api class_of (ad_array msg) (ad_op_hlc msg) m"
  shows "settled api class_of applied w unsent out (inc @ [OReject m]) h"
proof -
  have na: "\<not> answered w [OReject m]"
    by (simp add: answered_def split: option.splits)
  from settled_head [OF assms(1)] show ?thesis
  proof
    assume "settled api class_of applied w unsent out inc h"
    then show ?thesis using na by (rule settled_in)
  next
    assume "\<exists>msg'. FDelta msg = FDelta msg' \<and> ad_op_hlc msg' = h \<and> \<not> answered w inc"
    then show ?thesis
      using assms(2) before_pong_last [of w inc m] unfolding settled_def refusal_def about_def by auto
  qed
qed

lemma settled_ping_head:
  assumes "settled api class_of applied w unsent (FPing t # out) inc h"
  shows "settled api class_of applied w unsent out (inc @ [OPong t]) h"
proof (cases "\<exists>i. aw_barrier w = Some (t, i)")
  case True
  then have "before_ping w (FPing t # out) = []"
    by (auto simp: before_ping_def)
  then show ?thesis
    using assms True before_pong_append [of w inc "[OPong t]"] by (auto simp: settled_def)
next
  case False
  then have "\<not> answered w [OPong t]"
    by (auto simp: answered_def split: option.splits)
  then show ?thesis
    using settled_head [OF assms] by (auto intro: settled_in)
qed

lemma complete_barrier_cases:
  assumes "complete_barrier api t w = (outcome, w')"
  obtains (other) "outcome = None" "w' = w" "case aw_barrier w of None \<Rightarrow> True | Some (t', _) \<Rightarrow> t' \<noteq> t"
  | (closed) i out where "outcome = Some out" "aw_barrier w = Some (t, i)"
      "set (wo_confirmed out) = {h \<in> set (aw_in_flight w). \<not> aw_unattributed w \<and> hlc_bytes api h \<notin> aw_rejected w}"
      "aw_in_flight w' = []" "aw_next_token w' = aw_next_token w" "aw_announced w' = aw_announced w"
proof (cases "\<exists>i. aw_barrier w = Some (t, i)")
  case True
  then obtain i where i: "aw_barrier w = Some (t, i)" by blast
  then show thesis
    using assms by (cases "aw_unattributed w") (auto intro!: closed [of "the outcome" i] simp: complete_barrier_def Let_def)
next
  case False
  then show thesis
    using assms by (intro other) (auto simp: complete_barrier_def split: option.splits)
qed

lemma list_all_settled:
  "list_all P xs \<Longrightarrow> (\<And>h. h \<in> set xs \<Longrightarrow> P h \<Longrightarrow> Q h) \<Longrightarrow> list_all Q xs"
  by (auto simp: list_all_iff)

lemma reject_inv:
  assumes "session_inv api class_of ops s" "ss_in s = OReject m # rest" "inj (hlc_bytes api)"
  shows "session_inv api class_of ops (s\<lparr>ss_in := rest, ss_window := record_reject api class_of m (ss_window s)\<rparr>)"
proof -
  let ?w = "ss_window s"
  have fresh: "k \<noteq> h" if "hm_get (aw_announced ?w) a = Some k" "h \<in> set (aw_in_flight ?w)" for a k h
    using assms(1) that unfolding session_inv_def by blast
  have "list_all (settled api class_of (ss_applied s) ?w (ss_unsent s) (ss_out s) (OReject m # rest)) (aw_in_flight ?w)"
    using assms(1,2) by (simp add: session_inv_def)
  then have "list_all (settled api class_of (ss_applied s) (record_reject api class_of m ?w) (ss_unsent s) (ss_out s) rest) (aw_in_flight ?w)"
    by (rule list_all_settled) (rule settled_reject [OF _ _ assms(3)], auto dest: fresh)
  then show ?thesis
    using assms(1,2) by (simp add: session_inv_def record_reject_core tokens_ok_def)
qed

lemma pong_inv:
  assumes "session_inv api class_of ops s" "ss_in s = OPong t # rest" "complete_barrier api t (ss_window s) = (outcome, w)"
  shows "session_inv api class_of ops
    (s\<lparr>ss_in := rest, ss_window := w,
       ss_confirmed := ss_confirmed s \<union> (case outcome of None \<Rightarrow> {} | Some out \<Rightarrow> set (wo_confirmed out))\<rparr>)"
proof -
  have st: "list_all (settled api class_of (ss_applied s) (ss_window s) (ss_unsent s) (ss_out s) (OPong t # rest)) (aw_in_flight (ss_window s))"
    using assms(1,2) by (simp add: session_inv_def)
  from assms(3) show ?thesis
  proof (cases rule: complete_barrier_cases)
    case other
    then show ?thesis
      using assms(1,2) list_all_settled [OF st settled_pong] by (simp add: session_inv_def tokens_ok_def)
  next
    case (closed i out)
    have "set (wo_confirmed out) \<subseteq> ss_applied s"
      using st closed(2) unfolding closed(3) list_all_iff by (auto intro: settled_pong_closed)
    then show ?thesis
      using assms(1,2) closed by (simp add: session_inv_def tokens_ok_def)
  qed
qed

lemma origin_inv:
  assumes "session_inv api class_of ops s" "ss_out s = f # rest" "ss_applied s \<subseteq> applied" "tokens_ok (aw_next_token (ss_window s)) (ss_unsent s) rest inc"
    and "\<And>h. settled api class_of (ss_applied s) (ss_window s) (ss_unsent s) (f # rest) (ss_in s) h \<Longrightarrow>
          settled api class_of applied (ss_window s) (ss_unsent s) rest inc h"
  shows "session_inv api class_of ops (s\<lparr>ss_out := rest, ss_in := inc, ss_applied := applied\<rparr>)"
  using assms by (auto simp: session_inv_def intro: list_all_settled)

lemma barrier_inv:
  assumes "session_inv api class_of ops s" "ss_unsent s = None" "aw_barrier (ss_window s) = None"
    and "unat (aw_next_token (ss_window s)) < 2 ^ 63" "open_barrier now (ss_window s) = (token, w)"
  shows "session_inv api class_of ops (s\<lparr>ss_window := w, ss_unsent := Some (FPing token)\<rparr>)"
proof -
  let ?n = "aw_next_token (ss_window s)"
  have w: "w = (ss_window s)\<lparr>aw_next_token := ?n + 1, aw_barrier := Some (token, now)\<rparr>" "token = barrier_token ?n"
    using assms(5) by (auto simp: open_barrier_def Let_def)
  have tk: "tokens_ok ?n None (ss_out s) (ss_in s)"
    using assms(1,2) by (simp add: session_inv_def)
  then have fresh: "FPing token \<notin> set (ss_out s)" "OPong token \<notin> set (ss_in s)"
    using token_fresh [OF _ assms(4)] unfolding tokens_ok_def w(2) by blast+
  have n: "?n < ?n + 1" "unat (?n + 1) \<le> 2 ^ 63"
    using assms(4) by (simp_all add: word_less_nat_alt unat_word_ariths)
  have "tokens_ok (?n + 1) (Some (FPing token)) (ss_out s) (ss_in s)"
    using tk n token_ok_mono [of ?n _ "?n + 1"] unfolding tokens_ok_def w(2) by (auto simp: token_ok_def less_imp_le)
  moreover have "before_ping w (ss_out s) = ss_out s" "before_pong w (ss_in s) = ss_in s" "\<not> answered w (ss_in s)"
    using fresh by (auto simp: w(1) before_ping_def before_pong_def answered_def takeWhile_eq_all_conv)
  then have "settled api class_of (ss_applied s) w (Some (FPing token)) (ss_out s) (ss_in s) h"
    if "settled api class_of (ss_applied s) (ss_window s) None (ss_out s) (ss_in s) h" for h
    using that assms(3) by (simp add: settled_def w(1)) (auto simp: before_ping_def before_pong_def)
  then have "list_all (settled api class_of (ss_applied s) w (Some (FPing token)) (ss_out s) (ss_in s)) (aw_in_flight (ss_window s))"
    using assms(1,2) unfolding session_inv_def by (auto intro: list_all_settled)
  ultimately show ?thesis
    using assms(1,2) by (simp add: session_inv_def w(1))
qed

lemma transmit_inv:
  assumes "session_inv api class_of ops s" "ss_unsent s = Some frame"
  shows "session_inv api class_of ops (s\<lparr>ss_out := ss_out s @ [frame], ss_unsent := None\<rparr>)"
proof -
  let ?w = "ss_window s"
  have "settled api class_of (ss_applied s) ?w None (ss_out s @ [frame]) (ss_in s) h"
    if st: "settled api class_of (ss_applied s) ?w (Some frame) (ss_out s) (ss_in s) h" for h
  proof (cases "aw_barrier ?w = None \<and> (\<exists>msg. frame = FDelta msg \<and> ad_op_hlc msg = h)")
    case True
    then show ?thesis by (auto simp: settled_def before_ping_def answered_def)
  next
    case False
    then have "settled api class_of (ss_applied s) ?w None (ss_out s) (ss_in s) h"
      using st unfolding settled_def by auto
    then show ?thesis by (rule settled_out)
  qed
  then show ?thesis
    using assms by (auto simp: session_inv_def tokens_ok_def intro: list_all_settled)
qed

lemma delta_inv:
  assumes "session_inv api class_of ops s" "ss_unsent s = None" "aw_barrier (ss_window s) = None" "ad_op_hlc msg \<in> ops"
  shows "session_inv api class_of ops
    (s\<lparr>ss_window := record_sent (ad_op_hlc msg) (ss_window s), ss_unsent := Some (FDelta msg)\<rparr>)"
proof -
  let ?w = "record_sent (ad_op_hlc msg) (ss_window s)"
  have "settled api class_of (ss_applied s) ?w (Some (FDelta msg)) (ss_out s) (ss_in s) h"
    if "settled api class_of (ss_applied s) (ss_window s) None (ss_out s) (ss_in s) h" for h
    using that by (auto simp: settled_def before_ping_def before_pong_def answered_def record_sent_def)
  then have "list_all (settled api class_of (ss_applied s) ?w (Some (FDelta msg)) (ss_out s) (ss_in s)) (aw_in_flight (ss_window s))"
    using assms(1,2) unfolding session_inv_def by (auto intro: list_all_settled)
  moreover have "settled api class_of (ss_applied s) ?w (Some (FDelta msg)) (ss_out s) (ss_in s) (ad_op_hlc msg)"
    using assms(3) by (auto simp: settled_def record_sent_def)
  ultimately have "list_all (settled api class_of (ss_applied s) ?w (Some (FDelta msg)) (ss_out s) (ss_in s)) (aw_in_flight ?w)"
    by (simp add: record_sent_def)
  then show ?thesis
    using assms unfolding session_inv_def by (simp add: tokens_ok_def) (simp add: record_sent_def)
qed

lemma announced_inv:
  assumes "session_inv api class_of ops s" "ss_unsent s = None" "as_schema_hlc msg \<notin> ops"
  shows "session_inv api class_of ops
    (s\<lparr>ss_window := record_announced (as_array msg) (as_schema_hlc msg) (ss_window s), ss_unsent := Some (FSchema msg)\<rparr>)"
proof -
  let ?w = "record_announced (as_array msg) (as_schema_hlc msg) (ss_window s)"
  have "settled api class_of (ss_applied s) ?w (Some (FSchema msg)) (ss_out s) (ss_in s) h"
    if "settled api class_of (ss_applied s) (ss_window s) None (ss_out s) (ss_in s) h" for h
    using that by (auto simp: settled_def before_ping_def before_pong_def answered_def record_announced_def)
  then have "list_all (settled api class_of (ss_applied s) ?w (Some (FSchema msg)) (ss_out s) (ss_in s)) (aw_in_flight (ss_window s))"
    using assms(1,2) unfolding session_inv_def by (auto intro: list_all_settled)
  then show ?thesis
    using assms unfolding session_inv_def by (simp add: tokens_ok_def) (simp add: record_announced_def)
qed

lemma tick_inv:
  assumes "session_inv api class_of ops s"
  shows "session_inv api class_of ops (s\<lparr>ss_window := snd (begin_tick now (ss_window s))\<rparr>)"
proof (cases "snd (begin_tick now (ss_window s)) = ss_window s")
  case False
  then have "snd (begin_tick now (ss_window s)) = abandon_window (ss_window s)"
    by (auto simp: begin_tick_def Let_def split: option.splits if_splits)
  then show ?thesis
    using assms by (auto simp: abandon_window_def session_inv_def intro!: closed_inv)
qed (use assms in simp)

lemma session_step_inv:
  assumes "session_step api class_of ops s s'" "session_inv api class_of ops s" "inj (hlc_bytes api)"
  shows "session_inv api class_of ops s'"
  using assms(1)
proof (cases rule: session_step.cases)
  case (tick now)
  then show ?thesis using tick_inv [OF assms(2)] by simp
next
  case (side f)
  then show ?thesis using same_core_inv [OF side_step_core assms(2)] by simp
next
  case (announced msg)
  then show ?thesis using announced_inv [OF assms(2)] by simp
next
  case (delta msg)
  then show ?thesis using delta_inv [OF assms(2)] by simp
next
  case (barrier now token w)
  then show ?thesis using barrier_inv [OF assms(2)] by simp
next
  case (unencodable token)
  have "session_inv api class_of ops (s\<lparr>ss_window := abandon_window (ss_window s)\<rparr>)"
    using assms(2) by (intro closed_inv) (auto simp: abandon_window_def session_inv_def)
  then show ?thesis
    unfolding unencodable(1) by (simp add: session_inv_def tokens_ok_def abandon_window_def)
next
  case (transmit frame)
  then show ?thesis using transmit_inv [OF assms(2)] by simp
next
  case (keepalive now_millis)
  then show ?thesis
    using assms(2) by (auto simp: session_inv_def tokens_ok_def token_ok_def intro: list_all_settled settled_out)
next
  case (origin_applies msg rest)
  have "session_inv api class_of ops (s\<lparr>ss_out := rest, ss_in := ss_in s, ss_applied := insert (ad_op_hlc msg) (ss_applied s)\<rparr>)"
  proof (rule origin_inv [OF assms(2) origin_applies(2)])
    show "settled api class_of (insert (ad_op_hlc msg) (ss_applied s)) (ss_window s) (ss_unsent s) rest (ss_in s) h"
      if "settled api class_of (ss_applied s) (ss_window s) (ss_unsent s) (FDelta msg # rest) (ss_in s) h" for h
      using settled_head [OF that] by (auto intro: settled_applied) (simp add: settled_def)
  qed (use assms(2) origin_applies(2) in \<open>auto simp: session_inv_def tokens_ok_def\<close>)
  then show ?thesis unfolding origin_applies(1) by simp
next
  case (origin_refuses msg rest m)
  have "session_inv api class_of ops (s\<lparr>ss_out := rest, ss_in := ss_in s @ [OReject m], ss_applied := ss_applied s\<rparr>)"
    by (rule origin_inv [OF assms(2) origin_refuses(2)])
      (use assms(2) origin_refuses in \<open>auto simp: session_inv_def tokens_ok_def intro: settled_refused\<close>)
  then show ?thesis unfolding origin_refuses(1) by simp
next
  case (origin_schema msg rest)
  have "session_inv api class_of ops (s\<lparr>ss_out := rest, ss_in := ss_in s, ss_applied := ss_applied s\<rparr>)"
    by (rule origin_inv [OF assms(2) origin_schema(2)])
      (use assms(2) origin_schema in \<open>auto simp: session_inv_def tokens_ok_def dest: settled_head\<close>)
  then show ?thesis unfolding origin_schema(1) by simp
next
  case (origin_refuses_schema msg rest m)
  have "\<not> answered (ss_window s) [OReject m]"
    by (simp add: answered_def split: option.splits)
  then have "session_inv api class_of ops (s\<lparr>ss_out := rest, ss_in := ss_in s @ [OReject m], ss_applied := ss_applied s\<rparr>)"
    by (intro origin_inv [OF assms(2) origin_refuses_schema(2)])
      (use assms(2) origin_refuses_schema in \<open>auto simp: session_inv_def tokens_ok_def dest: settled_head intro: settled_in\<close>)
  then show ?thesis unfolding origin_refuses_schema(1) by simp
next
  case (origin_pong t rest)
  have "session_inv api class_of ops (s\<lparr>ss_out := rest, ss_in := ss_in s @ [OPong t], ss_applied := ss_applied s\<rparr>)"
    by (rule origin_inv [OF assms(2) origin_pong(2)])
      (use assms(2) origin_pong in \<open>auto simp: session_inv_def tokens_ok_def intro: settled_ping_head\<close>)
  then show ?thesis unfolding origin_pong(1) by simp
next
  case (origin_floor m)
  have "\<not> answered (ss_window s) [OReject m]"
    by (simp add: answered_def split: option.splits)
  then show ?thesis
    using assms(2) origin_floor by (auto simp: session_inv_def tokens_ok_def intro: list_all_settled settled_in)
next
  case (receive_reject m rest)
  then show ?thesis using reject_inv [OF assms(2) _ assms(3)] by simp
next
  case (receive_pong t rest outcome w)
  then show ?thesis using pong_inv [OF assms(2)] by simp
next
  case reconnect
  then show ?thesis
    using assms(2) by (simp add: session_inv_def tokens_ok_def window_reset_def window_default_def)
qed

lemma session_run_inv:
  assumes "(session_step api class_of ops)\<^sup>*\<^sup>* session_start s" "inj (hlc_bytes api)"
  shows "session_inv api class_of ops s"
  using assms(1)
proof (induction rule: rtranclp_induct)
  case base
  show ?case by (simp add: session_inv_def session_start_def tokens_ok_def window_default_def)
qed (rule session_step_inv [OF _ _ assms(2)])

subsection \<open>A push tick is a run of the session\<close>

text \<open>\<open>sent\<close> observes the frames a socket has accepted. \<open>push_sim\<close> relates a piece of the
  tick to session steps that end in the same window with the same frames on the wire.\<close>

definition push_sim ::
  "'k::linorder hlc_api \<Rightarrow> ('reason \<Rightarrow> array_reject_class) \<Rightarrow> 'k set \<Rightarrow> ('w \<Rightarrow> 'k array_frame list) \<Rightarrow>
   ('k, 'd, 's, 'w) push_state \<Rightarrow> ('k, 'd, 's, 'w) push_state \<Rightarrow> bool" where
  "push_sim api class_of ops sent st st' \<longleftrightarrow>
     (\<exists>frames. sent (pu_sink st') = sent (pu_sink st) @ frames \<and>
        (\<forall>s. ss_window s = pu_window st \<longrightarrow> ss_unsent s = None \<longrightarrow>
           (session_step api class_of ops)\<^sup>*\<^sup>* s (s\<lparr>ss_window := pu_window st', ss_out := ss_out s @ frames\<rparr>)))"

definition sink_law :: "('k array_frame \<Rightarrow> 'w \<Rightarrow> bool \<times> 'w) \<Rightarrow> ('w \<Rightarrow> 'k array_frame list) \<Rightarrow> bool" where
  "sink_law send sent \<longleftrightarrow> (\<forall>f w w'. send f w = (True, w') \<longrightarrow> sent w' = sent w @ [f])"

lemma push_sim_trans:
  assumes "push_sim api class_of ops sent st st1" "push_sim api class_of ops sent st1 st2"
  shows "push_sim api class_of ops sent st st2"
proof -
  obtain f1 f2 where f: "sent (pu_sink st1) = sent (pu_sink st) @ f1" "sent (pu_sink st2) = sent (pu_sink st1) @ f2"
    and r1: "\<And>s. ss_window s = pu_window st \<Longrightarrow> ss_unsent s = None \<Longrightarrow>
      (session_step api class_of ops)\<^sup>*\<^sup>* s (s\<lparr>ss_window := pu_window st1, ss_out := ss_out s @ f1\<rparr>)"
    and r2: "\<And>s. ss_window s = pu_window st1 \<Longrightarrow> ss_unsent s = None \<Longrightarrow>
      (session_step api class_of ops)\<^sup>*\<^sup>* s (s\<lparr>ss_window := pu_window st2, ss_out := ss_out s @ f2\<rparr>)"
    using assms unfolding push_sim_def by blast
  have "(session_step api class_of ops)\<^sup>*\<^sup>* s (s\<lparr>ss_window := pu_window st2, ss_out := ss_out s @ f1 @ f2\<rparr>)"
    if s: "ss_window s = pu_window st" "ss_unsent s = None" for s
    using rtranclp_trans [OF r1 [OF s] r2 [of "s\<lparr>ss_window := pu_window st1, ss_out := ss_out s @ f1\<rparr>"]] s by simp
  then show ?thesis
    unfolding push_sim_def using f by (intro exI [of _ "f1 @ f2"]) simp
qed

lemma push_sim_window:
  assumes "\<And>s. ss_window s = pu_window st \<Longrightarrow> ss_unsent s = None \<Longrightarrow>
      (session_step api class_of ops)\<^sup>*\<^sup>* s (s\<lparr>ss_window := pu_window st'\<rparr>)" "pu_sink st' = pu_sink st"
  shows "push_sim api class_of ops sent st st'"
  unfolding push_sim_def using assms by (intro exI [of _ "[]"]) simp

lemma session_same_window: "ss_window s = w \<Longrightarrow> s\<lparr>ss_window := w\<rparr> = s"
  by (cases s) simp

lemma push_sim_same: "pu_window st' = pu_window st \<Longrightarrow> pu_sink st' = pu_sink st \<Longrightarrow> push_sim api class_of ops sent st st'"
  unfolding push_sim_def by (intro exI [of _ "[]"]) (auto simp: session_same_window)

lemma push_sim_side:
  fixes class_of :: "'r \<Rightarrow> array_reject_class" and api :: "'k::linorder hlc_api"
  assumes "side_step f" "pu_window st' = f (pu_window st)" "pu_sink st' = pu_sink st"
  shows "push_sim api class_of ops sent st st'"
proof (rule push_sim_window)
  fix s :: "('k, 'r) session"
  assume "ss_window s = pu_window st" "ss_unsent s = None"
  then show "(session_step api class_of ops)\<^sup>*\<^sup>* s (s\<lparr>ss_window := pu_window st'\<rparr>)"
    using session_step.side [OF assms(1), of api class_of ops s] assms(2) by auto
qed (rule assms(3))

lemma push_sim_send:
  assumes "sink_law (pe_send pe) sent" "send_binary pe frame st1 = (True, st')" "pu_sink st1 = pu_sink st"
    and rec: "\<And>s. ss_window s = pu_window st \<Longrightarrow> ss_unsent s = None \<Longrightarrow>
      session_step api class_of ops s (s\<lparr>ss_window := pu_window st1, ss_unsent := Some frame\<rparr>)"
  shows "push_sim api class_of ops sent st st'"
proof -
  have st': "pu_window st' = pu_window st1" "sent (pu_sink st') = sent (pu_sink st) @ [frame]"
    using assms(1-3) by (auto simp: send_binary_def sink_law_def split: prod.splits)
  have "(session_step api class_of ops)\<^sup>*\<^sup>* s (s\<lparr>ss_window := pu_window st', ss_out := ss_out s @ [frame]\<rparr>)"
    if s: "ss_window s = pu_window st" "ss_unsent s = None" for s
  proof -
    let ?s1 = "s\<lparr>ss_window := pu_window st1, ss_unsent := Some frame\<rparr>"
    have "session_step api class_of ops ?s1 (?s1\<lparr>ss_out := ss_out ?s1 @ [frame], ss_unsent := None\<rparr>)"
      by (rule session_step.transmit) simp
    moreover have "?s1\<lparr>ss_out := ss_out ?s1 @ [frame], ss_unsent := None\<rparr> = s\<lparr>ss_window := pu_window st', ss_out := ss_out s @ [frame]\<rparr>"
      using s(2) st'(1) by (cases s) simp
    ultimately show ?thesis
      using rec [OF s] by (metis converse_rtranclp_into_rtranclp r_into_rtranclp)
  qed
  then show ?thesis
    unfolding push_sim_def using st' by (intro exI [of _ "[frame]"]) simp
qed

text \<open>What the pieces of a tick keep of the window.\<close>

definition push_keeps :: "'k array_push_window \<Rightarrow> 'k array_push_window \<Rightarrow> bool" where
  "push_keeps w w' \<longleftrightarrow> aw_barrier w' = aw_barrier w \<and> aw_next_token w' = aw_next_token w"

definition push_run ::
  "'k::linorder hlc_api \<Rightarrow> ('reason \<Rightarrow> array_reject_class) \<Rightarrow> 'k set \<Rightarrow> ('w \<Rightarrow> 'k array_frame list) \<Rightarrow>
   ('k, 'd, 's, 'w) push_state \<Rightarrow> ('k, 'd, 's, 'w) push_state \<Rightarrow> bool" where
  "push_run api class_of ops sent st st' \<longleftrightarrow>
     push_sim api class_of ops sent st st' \<and> push_keeps (pu_window st) (pu_window st')"

lemma push_run_trans:
  "push_run api class_of ops sent st st1 \<Longrightarrow> push_run api class_of ops sent st1 st2 \<Longrightarrow>
   push_run api class_of ops sent st st2"
  by (auto simp: push_run_def push_keeps_def intro: push_sim_trans)

lemma push_run_same:
  "pu_window st' = pu_window st \<Longrightarrow> pu_sink st' = pu_sink st \<Longrightarrow> push_run api class_of ops sent st st'"
  by (simp add: push_run_def push_keeps_def push_sim_same)

lemma side_step_keeps: "side_step f \<Longrightarrow> push_keeps w (f w)"
  by (auto simp: side_step_def push_keeps_def window_advance_def announce_step_def park_array_def
        request_rewind_def finish_idle_tick_def)

lemma push_run_side:
  "side_step f \<Longrightarrow> pu_window st' = f (pu_window st) \<Longrightarrow> pu_sink st' = pu_sink st \<Longrightarrow>
   push_run api class_of ops sent st st'"
  by (simp add: push_run_def push_sim_side side_step_keeps)

lemma side_steps:
  "side_step (window_advance h)" "side_step (\<lambda>w. snd (announce_step a w))" "side_step (park_array a)"
  "side_step request_rewind" "side_step finish_idle_tick"
  by (auto simp: side_step_def)

lemma send_binary_window: "send_binary pe frame st = (ok, st') \<Longrightarrow> pu_window st' = pu_window st"
  by (auto simp: send_binary_def split: prod.splits)

lemma select_sendable_run:
  "select_sendable hapi scanned w = (sel, w') \<Longrightarrow> pu_window st = w \<Longrightarrow>
   push_run api class_of ops sent st (st\<lparr>pu_window := w'\<rparr>) \<and> set sel \<subseteq> set scanned"
proof (induction scanned arbitrary: w sel st)
  case Nil
  then show ?case by (auto intro: push_run_same)
next
  case (Cons op scanned)
  let ?w1 = "window_advance (pa_hlc op) w"
  obtain sel1 where sel1: "select_sendable hapi scanned ?w1 = (sel1, w')" "set sel \<subseteq> insert op (set sel1)"
    using Cons.prems(1) by (auto simp: Let_def split: prod.splits if_splits)
  have "push_run api class_of ops sent st (st\<lparr>pu_window := ?w1\<rparr>)"
    by (rule push_run_side [OF side_steps(1)]) (auto simp: Cons.prems(2))
  moreover have "push_run api class_of ops sent (st\<lparr>pu_window := ?w1\<rparr>) (st\<lparr>pu_window := w'\<rparr>) \<and> set sel1 \<subseteq> set scanned"
    using Cons.IH [OF sel1(1), of "st\<lparr>pu_window := ?w1\<rparr>"] by simp
  ultimately show ?case
    using sel1(2) by (auto intro: push_run_trans)
qed

definition announces_outside ::
  "('k, 'c, 'v, 'd, 'sch, 'g, 's, 'w) push_env \<Rightarrow> 'k set \<Rightarrow> ('d, 's) delegate_state \<Rightarrow> bool" where
  "announces_outside pe ops del \<longleftrightarrow>
     (\<forall>array msg. array_schema_announce_impl (pe_api pe) (pe_replica_id pe) del array = Inr (Some msg) \<longrightarrow>
        as_schema_hlc msg \<notin> ops)"

lemma announce_impl_array:
  "array_schema_announce_impl sapi replica_id del array = Inr (Some msg) \<Longrightarrow> as_array msg = array"
  by (auto simp: array_schema_announce_impl_def split: prod.splits)

lemma announce_run:
  fixes class_of :: "'r \<Rightarrow> array_reject_class" and api :: "'k::linorder hlc_api"
  assumes "announce pe array st = (Some b, st')" "sink_law (pe_send pe) sent"
    "announces_outside pe ops (pu_delegate st)"
  shows "push_run api class_of ops sent st st' \<and> pu_delegate st' = pu_delegate st"
proof (cases "array_schema_announce_impl (pe_api pe) (pe_replica_id pe) (pu_delegate st) array")
  case (Inl e)
  then have "st' = on_window request_rewind st"
    using assms(1) by (simp add: announce_def)
  then show ?thesis
    by (auto simp: on_window_def intro: push_run_side [OF side_steps(4)])
next
  case found: (Inr m)
  show ?thesis
  proof (cases "\<exists>msg. m = Some msg \<and> pe_encodes pe (FSchema msg)")
    case False
    then have "st' = on_window (park_array array) st"
      using assms(1) found by (auto simp: announce_def split: option.splits)
    then show ?thesis
      by (auto simp: on_window_def intro: push_run_side [OF side_steps(3)])
  next
    case True
    then obtain msg where msg: "m = Some msg" "pe_encodes pe (FSchema msg)"
      by blast
    let ?st1 = "on_window (record_announced array (as_schema_hlc msg)) st"
    have sent: "send_binary pe (FSchema msg) ?st1 = (True, st')"
      using assms(1) found msg by (auto simp: announce_def split: prod.splits if_splits)
    have out: "as_schema_hlc msg \<notin> ops"
      using assms(3) found msg(1) by (auto simp: announces_outside_def)
    have array: "as_array msg = array"
      using found msg(1) by (intro announce_impl_array) simp
    have "push_sim api class_of ops sent st st'"
    proof (rule push_sim_send [OF assms(2) sent])
      fix s :: "('k, 'r) session"
      assume "ss_window s = pu_window st" "ss_unsent s = None"
      then show "session_step api class_of ops s (s\<lparr>ss_window := pu_window ?st1, ss_unsent := Some (FSchema msg)\<rparr>)"
        using session_step.announced [of s msg ops api class_of] out array by (simp add: on_window_def)
    qed (simp add: on_window_def)
    moreover have "push_keeps (pu_window st) (pu_window st')"
      using send_binary_window [OF sent] by (simp add: push_keeps_def on_window_def record_announced_def)
    moreover have "pu_delegate st' = pu_delegate st"
      using sent by (auto simp: send_binary_def on_window_def split: prod.splits)
    ultimately show ?thesis
      by (simp add: push_run_def)
  qed
qed

lemma announce_loop_run:
  "announce_loop pe arrays ready st = (Some ready', st') \<Longrightarrow> sink_law (pe_send pe) sent \<Longrightarrow>
   announces_outside pe ops (pu_delegate st) \<Longrightarrow>
   push_run api class_of ops sent st st' \<and> pu_delegate st' = pu_delegate st"
proof (induction pe arrays ready st rule: announce_loop.induct)
  case (1 pe ready st)
  then show ?case by (auto intro: push_run_same)
next
  case (2 pe array arrays ready st)
  obtain r w where step: "announce_step array (pu_window st) = (r, w)"
    by fastforce
  then have "w = snd (announce_step array (pu_window st))"
    by simp
  then have first: "push_run api class_of ops sent st (st\<lparr>pu_window := w\<rparr>)"
    by (intro push_run_side [OF side_steps(2)]) simp_all
  have rest: ?case if "push_run api class_of ops sent (st\<lparr>pu_window := w\<rparr>) st1 \<and> pu_delegate st1 = pu_delegate st"
      "push_run api class_of ops sent st1 st' \<and> pu_delegate st' = pu_delegate st1" for st1
    using that first by (metis push_run_trans)
  show ?case
  proof (cases r)
    case Ready
    then show ?thesis
      using "2.IH"(1) [OF step [symmetric]] "2.prems" step
      by (intro rest [of "st\<lparr>pu_window := w\<rparr>"]) (auto intro: push_run_same)
  next
    case GiveUp
    then show ?thesis
      using "2.IH"(4) [OF step [symmetric]] "2.prems" step
      by (intro rest [of "st\<lparr>pu_window := w\<rparr>"]) (auto intro: push_run_same)
  next
    case Send
    obtain b st1 where ann: "announce pe array (st\<lparr>pu_window := w\<rparr>) = (Some b, st1)"
      using "2.prems"(1) step Send by (auto split: prod.splits option.splits)
    have one: "push_run api class_of ops sent (st\<lparr>pu_window := w\<rparr>) st1 \<and> pu_delegate st1 = pu_delegate st"
      using announce_run [OF ann "2.prems"(2)] "2.prems"(3) by auto
    then show ?thesis
      using "2.IH"(2) [OF step [symmetric] Send] "2.IH"(3) [OF step [symmetric] Send] ann "2.prems" step Send
      by (intro rest [OF one]) (cases b; auto)
  qed
qed

lemma send_delta_run:
  fixes class_of :: "'r \<Rightarrow> array_reject_class" and api :: "'k::linorder hlc_api"
  assumes "send_delta pe op producer_id epoch st = (True, st')" "sink_law (pe_send pe) sent"
    "pa_hlc op \<in> ops" "aw_barrier (pu_window st) = None"
  shows "push_run api class_of ops sent st st'"
proof -
  let ?msg = "\<lparr>ad_array = pa_array op, ad_op_hlc = pa_hlc op, ad_op_payload = pa_op_payload op,
                 ad_producer_id = producer_id, ad_epoch = epoch, ad_seq = pa_seq op\<rparr>"
  let ?st1 = "on_window (record_sent (pa_hlc op)) st"
  show ?thesis
  proof (cases "pe_encodes pe (FDelta ?msg)")
    case False
    then show ?thesis
      using assms(1) by (auto simp: send_delta_def Let_def split: prod.splits intro: push_run_same)
  next
    case True
    then have sent: "send_binary pe (FDelta ?msg) ?st1 = (True, st')"
      using assms(1) by (simp add: send_delta_def Let_def)
    have "push_sim api class_of ops sent st st'"
    proof (rule push_sim_send [OF assms(2) sent])
      fix s :: "('k, 'r) session"
      assume "ss_window s = pu_window st" "ss_unsent s = None"
      then show "session_step api class_of ops s (s\<lparr>ss_window := pu_window ?st1, ss_unsent := Some (FDelta ?msg)\<rparr>)"
        using session_step.delta [of s ?msg ops api class_of] assms(3,4) by (simp add: on_window_def)
    qed (simp add: on_window_def)
    then show ?thesis
      using send_binary_window [OF sent] by (simp add: push_run_def push_keeps_def on_window_def record_sent_def)
  qed
qed

lemma assign_seq_hlc: "assign_seq pe op del = (op', del') \<Longrightarrow> pa_hlc op' = pa_hlc op"
  by (auto simp: assign_seq_def split: prod.splits)

lemma push_ops_run:
  "push_ops pe producer_id epoch ready pend st = (True, st') \<Longrightarrow> sink_law (pe_send pe) sent \<Longrightarrow>
   pa_hlc ` set pend \<subseteq> ops \<Longrightarrow> aw_barrier (pu_window st) = None \<Longrightarrow> push_run api class_of ops sent st st'"
proof (induction pend arbitrary: st)
  case Nil
  then show ?case by (auto intro: push_run_same)
next
  case (Cons op pend)
  have rest: ?case if "push_run api class_of ops sent st st1" "push_ops pe producer_id epoch ready pend st1 = (True, st')" for st1
    using Cons.IH [OF that(2)] Cons.prems that(1) by (auto simp: push_run_def push_keeps_def intro: push_sim_trans)
  have send: ?case if sd: "push_run api class_of ops sent st st0" "pa_hlc op' = pa_hlc op"
      "(case send_delta pe op' producer_id epoch st0 of (False, st') \<Rightarrow> (False, st')
        | (True, st') \<Rightarrow> push_ops pe producer_id epoch ready pend st') = (True, st')" for st0 op'
  proof -
    obtain st1 where st1: "send_delta pe op' producer_id epoch st0 = (True, st1)"
        "push_ops pe producer_id epoch ready pend st1 = (True, st')"
      using sd(3) by (auto split: prod.splits bool.splits)
    have "push_run api class_of ops sent st0 st1"
      using Cons.prems sd(1,2) by (intro send_delta_run [OF st1(1)]) (auto simp: push_run_def push_keeps_def)
    then show ?thesis
      using sd(1) st1(2) by (intro rest) (auto intro: push_run_trans)
  qed
  show ?case
  proof (cases "pa_array op \<notin> set ready \<or> pa_seq op \<noteq> 0")
    case True
    then show ?thesis
      using Cons.prems(1) by (auto split: if_splits intro: rest send push_run_same)
  next
    case False
    obtain op' del where op': "assign_seq pe op (pu_delegate st) = (op', del)"
      by (rule surj_pair [of "assign_seq pe op (pu_delegate st)", THEN exE]) blast
    obtain r del' where r: "persist_array_op_seq_impl (pe_so pe) (pe_env pe) op' del = (r, del')"
      by (rule surj_pair [of "persist_array_op_seq_impl (pe_so pe) (pe_env pe) op' del", THEN exE]) blast
    show ?thesis
    proof (cases r)
      case (Inl e)
      then show ?thesis
        using Cons.prems(1) False op' r
        by (intro rest [of "on_window request_rewind (st\<lparr>pu_delegate := del'\<rparr>)"])
          (auto simp: on_window_def intro: push_run_side [OF side_steps(4)])
    next
      case (Inr u)
      then show ?thesis
        using Cons.prems(1) False op' r assign_seq_hlc [OF op']
        by (intro send [of "st\<lparr>pu_delegate := del'\<rparr>" op']) (auto intro: push_run_same)
    qed
  qed
qed

lemma close_tick_sim:
  fixes class_of :: "'r \<Rightarrow> array_reject_class" and api :: "'k::linorder hlc_api"
  assumes "close_tick pe now st = (True, st')" "sink_law (pe_send pe) sent"
    "aw_barrier (pu_window st) = None" "unat (aw_next_token (pu_window st)) < 2 ^ 63"
  shows "push_sim api class_of ops sent st st'"
proof (cases "has_in_flight (pu_window st)")
  case False
  then show ?thesis
    using assms(1) by (intro push_sim_side [OF side_steps(5)]) (auto simp: close_tick_def on_window_def)
next
  case True
  obtain token w where bar: "open_barrier now (pu_window st) = (token, w)"
    by fastforce
  have opens: "session_step api class_of ops s (s\<lparr>ss_window := w, ss_unsent := Some (FPing token)\<rparr>)"
    if "ss_window s = pu_window st" "ss_unsent s = None" for s :: "('k, 'r) session"
    using that assms(3,4) True bar session_step.barrier [of s now token w api class_of ops] by simp
  show ?thesis
  proof (cases "pe_encodes pe (FPing token)")
    case False
    then have st': "st' = st\<lparr>pu_window := abandon_window w\<rparr>"
      using assms(1) True bar by (simp add: close_tick_def)
    have "(session_step api class_of ops)\<^sup>*\<^sup>* s (s\<lparr>ss_window := abandon_window w\<rparr>)"
      if s: "ss_window s = pu_window st" "ss_unsent s = None" for s
    proof -
      let ?s1 = "s\<lparr>ss_window := w, ss_unsent := Some (FPing token)\<rparr>"
      have "session_step api class_of ops ?s1 (?s1\<lparr>ss_window := abandon_window (ss_window ?s1), ss_unsent := None\<rparr>)"
        by (rule session_step.unencodable) simp
      moreover have "?s1\<lparr>ss_window := abandon_window (ss_window ?s1), ss_unsent := None\<rparr> = s\<lparr>ss_window := abandon_window w\<rparr>"
        using s(2) by (cases s) simp
      ultimately show ?thesis
        using opens [OF s] by (metis converse_rtranclp_into_rtranclp r_into_rtranclp)
    qed
    then show ?thesis
      by (intro push_sim_window) (simp_all add: st')
  next
    case enc: True
    then have "send_binary pe (FPing token) (st\<lparr>pu_window := w\<rparr>) = (True, st')"
      using assms(1) True bar by (simp add: close_tick_def)
    then show ?thesis
      by (rule push_sim_send [OF assms(2)]) (simp_all add: opens)
  qed
qed


lemma drain_sim:
  assumes tick: "array_push_tick pe now now' producer_id epoch st = (True, st')" "begin_tick now (pu_window st) = (Drain after_hlc, w)"
    and sink: "sink_law (pe_send pe) sent"
    and scan: "\<And>scanned. pending_array_ops_impl (pe_so pe) (pe_env pe) (pu_delegate st) after_hlc ARRAY_PUSH_WINDOW = Inr scanned \<Longrightarrow>
           pa_hlc ` set scanned \<subseteq> ops"
    and outside: "announces_outside pe ops (pu_delegate st)"
    and w: "aw_barrier w = None" "unat (aw_next_token w) < 2 ^ 63"
  shows "push_sim api class_of ops sent (st\<lparr>pu_window := w\<rparr>) st'"
proof (cases "pending_array_ops_impl (pe_so pe) (pe_env pe) (pu_delegate st) after_hlc ARRAY_PUSH_WINDOW")
  case (Inl e)
  then show ?thesis
    using tick by (auto simp: array_push_tick_def Let_def intro: push_sim_same)
next
  case (Inr scanned)
  obtain pend w1 where sel: "select_sendable (ae_hlc (pe_env pe)) scanned w = (pend, w1)"
    by fastforce
  let ?st1 = "st\<lparr>pu_window := w\<rparr>" and ?st2 = "st\<lparr>pu_window := w1\<rparr>"
  obtain ready st3 st4 where parts: "announce_schemas pe pend ?st2 = (Some ready, st3)"
      "push_ops pe producer_id epoch ready pend st3 = (True, st4)" "close_tick pe now' st4 = (True, st')"
    using tick Inr sel by (auto simp: array_push_tick_def Let_def split: prod.splits option.splits bool.splits)
  have r1: "push_run api class_of ops sent ?st1 ?st2" and sub: "set pend \<subseteq> set scanned"
    using select_sendable_run [OF sel, of ?st1 api class_of ops sent] by auto
  have r2: "push_run api class_of ops sent ?st2 st3"
    using announce_loop_run [OF parts(1) [unfolded announce_schemas_def] sink] outside by auto
  have r12: "push_run api class_of ops sent ?st1 st3"
    by (rule push_run_trans [OF r1 r2])
  then have r3: "push_run api class_of ops sent st3 st4"
    using sub scan [OF Inr] w(1) by (intro push_ops_run [OF parts(2) sink]) (auto simp: push_run_def push_keeps_def)
  have r13: "push_run api class_of ops sent ?st1 st4"
    by (rule push_run_trans [OF r12 r3])
  then have "push_sim api class_of ops sent st4 st'"
    using w by (intro close_tick_sim [OF parts(3) sink]) (auto simp: push_run_def push_keeps_def)
  then show ?thesis
    using r13 by (auto simp: push_run_def intro: push_sim_trans)
qed

subsection \<open>Properties\<close>

text \<open>C26. A push tick that does not break the loop is a run of the session: the window it
  leaves and the frames it hands to the socket are those of a sequence of session steps, whatever
  the store, the schema registry, the encoder and the socket answer. The tick's ops are
  distinguished from its schema announces by their clock values, and fewer than \<open>2 ^ 63\<close>
  barriers have been opened.\<close>

theorem array_push_tick_refines:
  fixes class_of :: "'r \<Rightarrow> array_reject_class"
  assumes "array_push_tick pe now now' producer_id epoch st = (True, st')"
    and "sink_law (pe_send pe) sent"
    and "\<And>after_hlc w scanned. begin_tick now (pu_window st) = (Drain after_hlc, w) \<Longrightarrow>
           pending_array_ops_impl (pe_so pe) (pe_env pe) (pu_delegate st) after_hlc ARRAY_PUSH_WINDOW = Inr scanned \<Longrightarrow>
           pa_hlc ` set scanned \<subseteq> ops"
    and "announces_outside pe ops (pu_delegate st)"
    and "unat (aw_next_token (pu_window st)) < 2 ^ 63"
    and "ss_window s = pu_window st" "ss_unsent s = None"
  shows "\<exists>frames. sent (pu_sink st') = sent (pu_sink st) @ frames \<and>
    (session_step (ae_hlc (pe_env pe)) class_of ops)\<^sup>*\<^sup>* s (s\<lparr>ss_window := pu_window st', ss_out := ss_out s @ frames\<rparr>)"
proof -
  let ?api = "ae_hlc (pe_env pe)"
  obtain plan w where bt: "begin_tick now (pu_window st) = (plan, w)"
    by fastforce
  let ?st1 = "st\<lparr>pu_window := w\<rparr>"
  have first: "push_sim ?api class_of ops sent st ?st1"
  proof (rule push_sim_window)
    fix s :: "('a, 'r) session"
    assume "ss_window s = pu_window st" "ss_unsent s = None"
    then show "(session_step ?api class_of ops)\<^sup>*\<^sup>* s (s\<lparr>ss_window := pu_window ?st1\<rparr>)"
      using session_step.tick [of s ?api class_of ops now] bt by auto
  qed simp
  have w: "aw_next_token w = aw_next_token (pu_window st)" "plan \<noteq> Wait \<Longrightarrow> aw_barrier w = None"
    using bt by (auto simp: begin_tick_def abandon_window_def Let_def split: option.splits if_splits)
  have "push_sim ?api class_of ops sent ?st1 st'"
  proof (cases plan)
    case Wait
    then show ?thesis
      using assms(1) bt by (auto simp: array_push_tick_def intro: push_sim_same)
  next
    case (Drain after_hlc)
    then show ?thesis
      using bt w assms(3,5) by (intro drain_sim [OF assms(1) _ assms(2) _ assms(4)]) auto
  qed
  then show ?thesis
    using push_sim_trans [OF first] assms(6,7) unfolding push_sim_def by blast
qed

text \<open>C25. Whatever Origin refuses, and however its rejects, its pongs, keepalives,
  timeouts and reconnects interleave with the pushes, an op the client confirms (and then deletes
  from its durable queue) is one Origin applied. Clock values have distinct wire forms.\<close>

theorem array_confirmed_applied:
  assumes "(session_step api class_of ops)\<^sup>*\<^sup>* session_start s" "inj (hlc_bytes api)"
  shows "ss_confirmed s \<subseteq> ss_applied s"
  using session_run_inv [OF assms] by (simp add: session_inv_def)


subsection \<open>Witnesses\<close>

definition demo_push_env ::
  "(u64, unit, unit, u64 \<times> bytes, bytes, u64, (bytes \<times> bytes) list, u64 array_frame list) push_env" where
  "demo_push_env =
     \<lparr>pe_so = demo_engine, pe_env = demo_aenv, pe_api = demo_schema_api, pe_replica_id = 4, pe_stream_id = (\<lambda>_. 9),
      pe_encodes = (\<lambda>_. True), pe_send = (\<lambda>f sink. (True, sink @ [f]))\<rparr>"

definition demo_push_state ::
  "(u64, u64 \<times> bytes, (bytes \<times> bytes) list, u64 array_frame list) push_state" where
  "demo_push_state =
     \<lparr>pu_window = window_default,
      pu_delegate = (\<lparr>st_state = [], st_poisoned = False\<rparr>, \<lparr>sr_docs = [(''a'', (5, [1, 2]))], sr_poisoned = False\<rparr>,
        [(demo_nsb ArrayDelta # hlc_bytes demo_hlc 7, u64_to_be_bytes 3 @ u64_to_be_bytes 7 @ str_bytes ''a'')]),
      pu_sink = []\<rparr>"

lemma demo_push_scan:
  "pending_array_ops_impl demo_engine demo_aenv (pu_delegate demo_push_state) None ARRAY_PUSH_WINDOW =
     Inr [\<lparr>pa_array = ''a'', pa_hlc = 7, pa_op_payload = u64_to_be_bytes 7 @ str_bytes ''a'', pa_seq = 3\<rparr>]"
  by (simp add: pending_array_ops_impl_def demo_push_state_def scan_after_def demo_store_eqs scanned_op_def decode_stored_def
      decode_payload_def demo_aenv_def demo_stored_codec_def demo_op_codec_def strip_rows_def ARRAY_PUSH_WINDOW_def)

lemma demo_push_tick:
  "\<exists>st'. array_push_tick demo_push_env 0 0 1 1 demo_push_state = (True, st') \<and>
     length (pu_sink st') = 3 \<and> aw_in_flight (pu_window st') = [7]"
  using demo_push_scan
  by (simp add: array_push_tick_def demo_push_env_def begin_tick_def demo_push_state_def window_default_def Let_def
      is_held_def window_advance_def announce_schemas_def announce_step_def announce_def array_schema_announce_impl_def
      export_versioned_def demo_schema_api_def on_window_def send_binary_def record_announced_def send_delta_def
      record_sent_def close_tick_def has_in_flight_def open_barrier_def MAX_SCHEMA_ANNOUNCES_def hm_get_or_def hm_contains_def)

theorem array_push_tick_refines_witness:
  "\<exists>st' frames. array_push_tick demo_push_env 0 0 1 1 demo_push_state = (True, st') \<and> length frames = 3 \<and>
     (session_step demo_hlc (\<lambda>_ :: unit. Permanent) {7})\<^sup>*\<^sup>* session_start
       (session_start\<lparr>ss_window := pu_window st', ss_out := frames\<rparr>)"
proof -
  obtain st' where t: "array_push_tick demo_push_env 0 0 1 1 demo_push_state = (True, st')" "length (pu_sink st') = 3"
    using demo_push_tick by blast
  have sink: "sink_law (pe_send demo_push_env) id"
    by (simp add: sink_law_def demo_push_env_def)
  have outside: "announces_outside demo_push_env {7} (pu_delegate demo_push_state)"
    by (auto simp: announces_outside_def demo_push_env_def demo_push_state_def array_schema_announce_impl_def
        export_versioned_def demo_schema_api_def split: if_splits)
  have scan: "pa_hlc ` set scanned \<subseteq> {7}"
    if "begin_tick 0 (pu_window demo_push_state) = (Drain after_hlc, w)"
      "pending_array_ops_impl (pe_so demo_push_env) (pe_env demo_push_env) (pu_delegate demo_push_state) after_hlc ARRAY_PUSH_WINDOW = Inr scanned"
    for after_hlc w scanned
  proof -
    have "after_hlc = None"
      using that(1) by (simp add: begin_tick_def demo_push_state_def window_default_def)
    then show ?thesis
      using that(2) demo_push_scan by (auto simp: demo_push_env_def)
  qed
  show ?thesis
    using array_push_tick_refines [OF t(1) sink scan outside, where s = session_start and class_of = "\<lambda>_ :: unit. Permanent"] t
    by (auto simp: session_start_def demo_push_state_def window_default_def demo_push_env_def demo_aenv_def)
qed

definition demo_delta :: "u64 array_delta_msg" where
  "demo_delta = \<lparr>ad_array = ''a'', ad_op_hlc = 7, ad_op_payload = [], ad_producer_id = 1, ad_epoch = 1, ad_seq = 3\<rparr>"

text \<open>One op pushed, applied and confirmed by its barrier.\<close>

lemma demo_session:
  "\<exists>s. (session_step demo_hlc (\<lambda>_ :: unit. Permanent) {7})\<^sup>*\<^sup>* session_start s \<and> ss_confirmed s = {7}"
proof -
  let ?step = "session_step demo_hlc (\<lambda>_ :: unit. Permanent) {7}"
  let ?w1 = "record_sent 7 window_default" and ?t = "barrier_token 0"
  let ?w2 = "?w1\<lparr>aw_next_token := 1, aw_barrier := Some (?t, 0)\<rparr>"
  let ?s = "\<lambda>w unsent out inc applied. \<lparr>ss_window = w, ss_unsent = unsent, ss_out = out, ss_in = inc,
      ss_applied = applied, ss_confirmed = {}\<rparr>"
  have "?step session_start (?s ?w1 (Some (FDelta demo_delta)) [] [] {})"
    using session_step.delta [of session_start demo_delta "{7}" demo_hlc "\<lambda>_. Permanent"]
    by (simp add: session_start_def demo_delta_def window_default_def)
  moreover have "?step (?s ?w1 (Some (FDelta demo_delta)) [] [] {}) (?s ?w1 None [FDelta demo_delta] [] {})"
    using session_step.transmit [of "?s ?w1 (Some (FDelta demo_delta)) [] [] {}" "FDelta demo_delta"] by simp
  moreover have "?step (?s ?w1 None [FDelta demo_delta] [] {}) (?s ?w2 (Some (FPing ?t)) [FDelta demo_delta] [] {})"
    using session_step.barrier [of "?s ?w1 None [FDelta demo_delta] [] {}" 0 ?t ?w2]
    by (simp add: record_sent_def window_default_def has_in_flight_def open_barrier_def Let_def)
  moreover have "?step (?s ?w2 (Some (FPing ?t)) [FDelta demo_delta] [] {}) (?s ?w2 None [FDelta demo_delta, FPing ?t] [] {})"
    using session_step.transmit [of "?s ?w2 (Some (FPing ?t)) [FDelta demo_delta] [] {}" "FPing ?t"] by simp
  moreover have "?step (?s ?w2 None [FDelta demo_delta, FPing ?t] [] {}) (?s ?w2 None [FPing ?t] [] {7})"
    using session_step.origin_applies [of "?s ?w2 None [FDelta demo_delta, FPing ?t] [] {}" demo_delta "[FPing ?t]"]
    by (simp add: demo_delta_def)
  moreover have "?step (?s ?w2 None [FPing ?t] [] {7}) (?s ?w2 None [] [OPong ?t] {7})"
    using session_step.origin_pong [of "?s ?w2 None [FPing ?t] [] {7}" ?t "[]"] by simp
  moreover have "\<exists>s. ?step (?s ?w2 None [] [OPong ?t] {7}) s \<and> ss_confirmed s = {7}"
    using session_step.receive_pong [of "?s ?w2 None [] [OPong ?t] {7}" ?t "[]" demo_hlc]
    by (fastforce simp: complete_barrier_def record_sent_def window_default_def)
  ultimately show ?thesis
    by (meson converse_rtranclp_into_rtranclp rtranclp.rtrancl_refl)
qed

theorem array_confirmed_applied_witness:
  "\<exists>s. (session_step demo_hlc (\<lambda>_ :: unit. Permanent) {7})\<^sup>*\<^sup>* session_start s \<and>
     ss_confirmed s = {7} \<and> 7 \<in> ss_applied s"
proof -
  obtain s where s: "(session_step demo_hlc (\<lambda>_ :: unit. Permanent) {7})\<^sup>*\<^sup>* session_start s" "ss_confirmed s = {7}"
    using demo_session by blast
  have "inj (hlc_bytes demo_hlc)"
    by (auto intro!: injI simp: demo_hlc_def)
  then show ?thesis
    using array_confirmed_applied [OF s(1)] s by auto
qed

end
