(* ===== verification/Sync_Client.thy ===== *)
theory Sync_Client
  imports Array_Push Flow_Control Vector_Clock "HOL-Library.Char_ord"
begin

text \<open>
  The sync client (\<open>sync/client\<close>): configuration, the state behind the client's locks, the
  handshake, the delta push and its answers, the receive path, token refresh and reconnect
  backoff. Each method takes the locks it needs one after the other; here it is one function on
  the state.

  Wall-clock reads are arguments \<open>now_ms\<close>. Compensation hints, shape definitions, handlers and
  token providers belong to other crates or to the application and are type variables.
  Arithmetic on \<open>u64\<close> without a checked or saturating method wraps, as in a release build.
\<close>

subsection \<open>Configuration\<close>

record 'p sync_config =
  sc_url :: string
  sc_jwt_token :: string
  sc_client_version :: string
  sc_min_backoff :: duration
  sc_max_backoff :: duration
  sc_ping_interval :: duration
  sc_max_batch_size :: usize
  sc_token_provider :: "'p option"
  sc_token_lifetime_secs :: u64
  sc_tenant_id :: u64

definition from_secs :: "nat \<Rightarrow> duration" where
  "from_secs n = n * 1000000000"

definition from_millis :: "u64 \<Rightarrow> duration" where
  "from_millis n = unat n * 1000000"

text \<open>The version is the one of the package, an argument.\<close>

definition SyncConfig_new :: "string \<Rightarrow> string \<Rightarrow> string \<Rightarrow> 'p sync_config" where
  "SyncConfig_new version url jwt_token =
     \<lparr>sc_url = url, sc_jwt_token = jwt_token, sc_client_version = version, sc_min_backoff = from_secs 1,
      sc_max_backoff = from_secs 60, sc_ping_interval = from_secs 30, sc_max_batch_size = 100,
      sc_token_provider = None, sc_token_lifetime_secs = 0, sc_tenant_id = 1\<rparr>"

definition with_token_provider :: "'p \<Rightarrow> u64 \<Rightarrow> 'p sync_config \<Rightarrow> 'p sync_config" where
  "with_token_provider provider lifetime_secs c =
     c\<lparr>sc_token_provider := Some provider, sc_token_lifetime_secs := lifetime_secs\<rparr>"

definition with_tenant_id :: "u64 \<Rightarrow> 'p sync_config \<Rightarrow> 'p sync_config" where
  "with_tenant_id tenant_id c = c\<lparr>sc_tenant_id := tenant_id\<rparr>"

datatype sync_state = Disconnected | Connecting | Connected | Reconnecting

subsection \<open>State\<close>

datatype resync_reason = SequenceGap (gap_expected: u64) (gap_received: u64)

record resync_request_msg =
  rq_reason :: resync_reason
  rq_from_mutation_id :: u64
  rq_collection :: string
  rq_shape_id :: string

datatype ack_status = Applied | Duplicate | Accepted | Fenced | Gap u64 | Rejected string

record array_ack_msg =
  aa_array :: string
  aa_replica_id :: u64
  aa_ack_hlc_bytes :: bytes
  aa_applied_seq :: u64
  aa_status :: ack_status

record array_catchup_request_msg =
  ac_array :: string
  ac_from_hlc_bytes :: bytes

definition TOKEN_REFRESH_MIN_BACKOFF_MS :: u64 where
  "TOKEN_REFRESH_MIN_BACKOFF_MS = 5000"

definition TOKEN_REFRESH_MAX_BACKOFF_MS :: u64 where
  "TOKEN_REFRESH_MAX_BACKOFF_MS = 300000"

record ('p, 'd, 'h, 'hint, 'k) sync_client =
  cl_config :: "'p sync_config"
  cl_state :: sync_state
  cl_clock :: vector_clock
  cl_shapes :: "'d shape_manager"
  cl_compensation :: "('h, 'hint) compensation_registry"
  cl_session_id :: "string option"
  cl_last_seen_lsn :: "(string, u64) hmap"
  cl_resync_requested :: bool
  cl_pending_resync :: "resync_request_msg option"
  cl_flow :: flow_controller
  cl_metrics :: sync_metrics
  cl_token_set_at_ms :: u64
  cl_token_refresh_pending :: bool
  cl_push_paused_for_auth :: bool
  cl_token_last_attempt_ms :: u64
  cl_token_refresh_backoff_ms :: u64
  cl_pending_array_ack :: "(string, array_ack_msg) hmap"
  cl_pending_array_catchups :: "(string, array_catchup_request_msg) hmap"
  cl_producer_id :: "u64 option"
  cl_accepted_epoch :: "u64 option"
  cl_fenced :: bool
  cl_announced_collections :: "string set"
  cl_row_push_watermark :: "(u64, (string, u64) hmap) hmap"
  cl_delta_targets :: "(u64, string \<times> string) hmap"
  cl_pending_row_push_rejects :: "row_push_reject_msg list"
  cl_array_push :: "'k array_push_window"

definition with_flow_control ::
  "u64 \<Rightarrow> 'p sync_config \<Rightarrow> flow_control_config \<Rightarrow> ('p, 'd, 'h, 'hint, 'k) sync_client" where
  "with_flow_control now_ms config flow_config =
     \<lparr>cl_config = config, cl_state = Disconnected, cl_clock = vc_new, cl_shapes = ShapeManager_new,
      cl_compensation = CompensationRegistry_new, cl_session_id = None, cl_last_seen_lsn = [],
      cl_resync_requested = False, cl_pending_resync = None, cl_flow = FlowController_new flow_config,
      cl_metrics = SyncMetrics_new, cl_token_set_at_ms = now_ms, cl_token_refresh_pending = False,
      cl_push_paused_for_auth = False, cl_token_last_attempt_ms = 0,
      cl_token_refresh_backoff_ms = TOKEN_REFRESH_MIN_BACKOFF_MS, cl_pending_array_ack = [],
      cl_pending_array_catchups = [], cl_producer_id = None, cl_accepted_epoch = None, cl_fenced = False,
      cl_announced_collections = {}, cl_row_push_watermark = [], cl_delta_targets = [],
      cl_pending_row_push_rejects = [], cl_array_push = window_default\<rparr>"

definition SyncClient_new :: "u64 \<Rightarrow> 'p sync_config \<Rightarrow> ('p, 'd, 'h, 'hint, 'k) sync_client" where
  "SyncClient_new now_ms config = with_flow_control now_ms config FlowControlConfig_default"

definition set_state :: "sync_state \<Rightarrow> ('p, 'd, 'h, 'hint, 'k) sync_client \<Rightarrow> ('p, 'd, 'h, 'hint, 'k) sync_client" where
  "set_state new_state c = c\<lparr>cl_state := new_state\<rparr>"

definition set_compensation_handler ::
  "'h \<Rightarrow> ('p, 'd, 'h, 'hint, 'k) sync_client \<Rightarrow> ('p, 'd, 'h, 'hint, 'k) sync_client" where
  "set_compensation_handler handler c = c\<lparr>cl_compensation := set_handler handler (cl_compensation c)\<rparr>"

definition client_producer_id :: "('p, 'd, 'h, 'hint, 'k) sync_client \<Rightarrow> u64" where
  "client_producer_id c = (case cl_producer_id c of None \<Rightarrow> 0 | Some i \<Rightarrow> i)"

definition client_accepted_epoch :: "('p, 'd, 'h, 'hint, 'k) sync_client \<Rightarrow> u64" where
  "client_accepted_epoch c = (case cl_accepted_epoch c of None \<Rightarrow> 0 | Some e \<Rightarrow> e)"

definition set_producer_id :: "u64 \<Rightarrow> ('p, 'd, 'h, 'hint, 'k) sync_client \<Rightarrow> ('p, 'd, 'h, 'hint, 'k) sync_client" where
  "set_producer_id i c = c\<lparr>cl_producer_id := Some i\<rparr>"

definition set_accepted_epoch :: "u64 \<Rightarrow> ('p, 'd, 'h, 'hint, 'k) sync_client \<Rightarrow> ('p, 'd, 'h, 'hint, 'k) sync_client" where
  "set_accepted_epoch e c = c\<lparr>cl_accepted_epoch := Some e\<rparr>"

definition client_load_producer_state ::
  "u64 \<times> u64 \<Rightarrow> ('p, 'd, 'h, 'hint, 'k) sync_client \<Rightarrow> ('p, 'd, 'h, 'hint, 'k) sync_client" where
  "client_load_producer_state = (\<lambda>(producer_id, accepted_epoch) c.
     c\<lparr>cl_producer_id := Some producer_id, cl_accepted_epoch := Some accepted_epoch\<rparr>)"

definition set_fenced :: "('p, 'd, 'h, 'hint, 'k) sync_client \<Rightarrow> ('p, 'd, 'h, 'hint, 'k) sync_client" where
  "set_fenced c = c\<lparr>cl_fenced := True\<rparr>"

definition clear_fenced :: "('p, 'd, 'h, 'hint, 'k) sync_client \<Rightarrow> ('p, 'd, 'h, 'hint, 'k) sync_client" where
  "clear_fenced c = c\<lparr>cl_fenced := False\<rparr>"

text \<open>\<open>entry(peer_id).or_default()\<close> adds an empty map for a new peer also when the frame is
  then refused.\<close>

definition admit_row_push ::
  "u64 \<Rightarrow> string \<Rightarrow> u64 \<Rightarrow> ('p, 'd, 'h, 'hint, 'k) sync_client \<Rightarrow> bool \<times> ('p, 'd, 'h, 'hint, 'k) sync_client" where
  "admit_row_push peer_id collection sequence c =
     (if sequence = 0 then (True, c)
      else let watermark = cl_row_push_watermark c;
               per_collection = hm_get_or [] watermark peer_id;
               mark = hm_get_or 0 per_collection collection
           in if sequence \<le> mark
              then (False, c\<lparr>cl_row_push_watermark := hm_insert peer_id per_collection watermark\<rparr>)
              else (True, c\<lparr>cl_row_push_watermark :=
                     hm_insert peer_id (hm_insert collection sequence per_collection) watermark\<rparr>))"

subsection \<open>Handshake\<close>

record lite_identity =
  li_lite_id :: string
  li_epoch :: u64
  li_peer_id :: u64

record handshake_msg =
  hs_jwt_token :: string
  hs_vector_clock :: "(string, (string, u64) hmap) hmap"
  hs_subscribed_shapes :: "string list"
  hs_client_version :: string
  hs_lite_id :: string
  hs_epoch :: u64
  hs_wire_version :: nat

record handshake_ack_msg =
  ha_success :: bool
  ha_session_id :: string
  ha_server_clock :: "(string, u64) hmap"
  ha_fork_detected :: bool
  ha_producer_id :: u64
  ha_accepted_epoch :: u64

definition build_handshake ::
  "nat \<Rightarrow> lite_identity \<Rightarrow> ('p, 'd, 'h, 'hint, 'k) sync_client \<Rightarrow> handshake_msg" where
  "build_handshake wire_version identity c =
     \<lparr>hs_jwt_token = sc_jwt_token (cl_config c), hs_vector_clock = [(''_global'', vc_to_wire (cl_clock c))],
      hs_subscribed_shapes = active_shape_ids (cl_shapes c), hs_client_version = sc_client_version (cl_config c),
      hs_lite_id = li_lite_id identity, hs_epoch = li_epoch identity, hs_wire_version = wire_version\<rparr>"

definition advance_wire :: "(string, u64) hmap \<Rightarrow> vector_clock \<Rightarrow> vector_clock" where
  "advance_wire wire clock =
     foldl (\<lambda>clock (peer_hex, counter).
              case from_str_radix16 peer_hex of None \<Rightarrow> clock | Some peer_id \<Rightarrow> vc_advance peer_id counter clock)
       clock wire"

definition handle_handshake_ack ::
  "handshake_ack_msg \<Rightarrow> ('p, 'd, 'h, 'hint, 'k) sync_client \<Rightarrow> bool \<times> ('p, 'd, 'h, 'hint, 'k) sync_client" where
  "handle_handshake_ack ack c =
     (if \<not> ha_success ack then (False, c)
      else let c = c\<lparr>cl_session_id := Some (ha_session_id ack), cl_announced_collections := {},
                     cl_clock := advance_wire (ha_server_clock ack) (cl_clock c)\<rparr>;
               c = set_accepted_epoch (ha_accepted_epoch ack) (set_producer_id (ha_producer_id ack) c)
           in (True, c\<lparr>cl_state := Connected\<rparr>))"

subsection \<open>Backoff, flow and metrics\<close>

definition backoff_duration :: "u32 \<Rightarrow> 'p sync_config \<Rightarrow> duration" where
  "backoff_duration attempt config =
     (let base = of_nat (as_millis (sc_min_backoff config)) :: u64;
          max = of_nat (as_millis (sc_max_backoff config)) :: u64;
          delay = min (base * u64_sat_pow2 (unat attempt)) max
      in from_millis delay)"

definition update_pending_stats ::
  "usize \<Rightarrow> usize \<Rightarrow> ('p, 'd, 'h, 'hint, 'k) sync_client \<Rightarrow> ('p, 'd, 'h, 'hint, 'k) sync_client" where
  "update_pending_stats count byte_count c = c\<lparr>cl_flow := update_pending count byte_count (cl_flow c)\<rparr>"

definition client_is_queue_full :: "('p, 'd, 'h, 'hint, 'k) sync_client \<Rightarrow> bool" where
  "client_is_queue_full c = is_queue_full (cl_flow c)"

definition sync_metrics_of :: "('p, 'd, 'h, 'hint, 'k) sync_client \<Rightarrow> sync_metrics_snapshot" where
  "sync_metrics_of c =
     (let state_str = (case cl_state c of
             Disconnected \<Rightarrow> ''disconnected'' | Connecting \<Rightarrow> ''connecting''
           | Connected \<Rightarrow> ''connected'' | Reconnecting \<Rightarrow> ''reconnecting'')
      in fc_snapshot state_str (cl_metrics c) (cl_flow c))"

definition reset_flow_control :: "('p, 'd, 'h, 'hint, 'k) sync_client \<Rightarrow> ('p, 'd, 'h, 'hint, 'k) sync_client" where
  "reset_flow_control c = c\<lparr>cl_flow := fc_reset (cl_flow c), cl_metrics := record_reconnect (cl_metrics c)\<rparr>"


subsection \<open>Delta push\<close>

record pending_delta =
  pd_mutation_id :: u64
  pd_collection :: string
  pd_document_id :: string
  pd_delta_bytes :: bytes
  pd_seq :: u64

record delta_push_msg =
  dp_collection :: string
  dp_document_id :: string
  dp_checksum :: u32
  dp_delta :: bytes
  dp_peer_id :: u64
  dp_mutation_id :: u64
  dp_device_valid_time_ms :: "int option"
  dp_producer_id :: u64
  dp_epoch :: u64
  dp_seq :: u64
  dp_device_id :: u64
  dp_delta_signature :: bytes

record delta_ack_msg =
  da_mutation_id :: u64
  da_lsn :: u64
  da_clock_skew_warning_ms :: "u64 option"
  da_applied_seq :: u64
  da_status :: ack_status

record 'hint delta_reject_msg =
  dr_mutation_id :: u64
  dr_reason :: string
  dr_compensation :: "'hint option"

text \<open>The kinds of hint the client distinguishes; the kind of a hint is an argument.\<close>

datatype hint_kind = UniqueViolation | ForeignKeyMissing | SchemaViolation | Custom | PermissionDenied | OtherHint

definition is_conflict :: "hint_kind \<Rightarrow> bool" where
  "is_conflict kind =
     (case kind of
        UniqueViolation \<Rightarrow> True | ForeignKeyMissing \<Rightarrow> True | SchemaViolation \<Rightarrow> True | Custom \<Rightarrow> True | _ \<Rightarrow> False)"

text \<open>The checksum is CRC32C, an external function.\<close>

definition build_delta_pushes ::
  "(bytes \<Rightarrow> u32) \<Rightarrow> u64 \<Rightarrow> pending_delta list \<Rightarrow> u64 \<Rightarrow> ('p, 'd, 'h, 'hint, 'k) sync_client \<Rightarrow> delta_push_msg list \<times> ('p, 'd, 'h, 'hint, 'k) sync_client" where
  "build_delta_pushes crc32c now_ms pending peer_id c =
     (let batch_limit = next_batch_size (cl_flow c)
      in if batch_limit = 0 then ([], c)
         else let taken = take batch_limit pending;
                  c = c\<lparr>cl_delta_targets :=
                        fold (\<lambda>d. hm_insert (pd_mutation_id d) (pd_collection d, pd_document_id d)) taken (cl_delta_targets c)\<rparr>
              in (map (\<lambda>d. \<lparr>dp_collection = pd_collection d, dp_document_id = pd_document_id d,
                            dp_checksum = crc32c (pd_delta_bytes d), dp_delta = pd_delta_bytes d, dp_peer_id = peer_id,
                            dp_mutation_id = pd_mutation_id d, dp_device_valid_time_ms = Some (sint now_ms),
                            dp_producer_id = 0, dp_epoch = 0, dp_seq = 0, dp_device_id = 0,
                            dp_delta_signature = replicate 32 0\<rparr>) taken, c))"

definition client_record_push :: "instant \<Rightarrow> u64 \<Rightarrow> u64 list \<Rightarrow> ('p, 'd, 'h, 'hint, 'k) sync_client \<Rightarrow> ('p, 'd, 'h, 'hint, 'k) sync_client" where
  "client_record_push now now_ms mutation_ids c =
     c\<lparr>cl_flow := fc_record_push now mutation_ids (cl_flow c),
       cl_metrics := metrics_record_push now_ms (of_nat (length mutation_ids)) (cl_metrics c)\<rparr>"

definition handle_delta_ack :: "(rat \<Rightarrow> rat) \<Rightarrow> instant \<Rightarrow> delta_ack_msg \<Rightarrow> ('p, 'd, 'h, 'hint, 'k) sync_client \<Rightarrow> ('p, 'd, 'h, 'hint, 'k) sync_client" where
  "handle_delta_ack rnd now ack c =
     (let c = c\<lparr>cl_delta_targets := hm_remove (da_mutation_id ack) (cl_delta_targets c),
                cl_clock := vc_advance 0 (da_lsn ack) (cl_clock c),
                cl_flow := snd (fc_record_ack rnd now (da_mutation_id ack) (cl_flow c))\<rparr>
      in case da_clock_skew_warning_ms ack of
           None \<Rightarrow> c
         | Some _ \<Rightarrow> c\<lparr>cl_metrics := record_clock_skew_warning (cl_metrics c)\<rparr>)"

definition handle_delta_reject :: "('hint \<Rightarrow> hint_kind) \<Rightarrow> 'hint delta_reject_msg \<Rightarrow> ('p, 'd, 'h, 'hint, 'k) sync_client \<Rightarrow> ('p, 'd, 'h, 'hint, 'k) sync_client" where
  "handle_delta_reject kind_of reject c =
     (let c = c\<lparr>cl_flow := fc_record_reject (dr_mutation_id reject) (cl_flow c),
                cl_metrics := metrics_record_reject (cl_metrics c)\<rparr>;
          target = hm_get_or ([], []) (cl_delta_targets c) (dr_mutation_id reject);
          c = c\<lparr>cl_delta_targets := hm_remove (dr_mutation_id reject) (cl_delta_targets c)\<rparr>
      in case dr_compensation reject of
           None \<Rightarrow> c
         | Some hint \<Rightarrow>
             (let c = (if is_conflict (kind_of hint)
                       then c\<lparr>cl_metrics := record_conflict (dr_reason reject) (cl_metrics c)\<rparr> else c)
              in c\<lparr>cl_compensation := dispatch
                    \<lparr>ce_mutation_id = dr_mutation_id reject, ce_collection = fst target,
                     ce_document_id = snd target, ce_hint = hint\<rparr> (cl_compensation c)\<rparr>))"

subsection \<open>Receive path\<close>

definition handle_shape_snapshot :: "string \<Rightarrow> u64 \<Rightarrow> ('p, 'd, 'h, 'hint, 'k) sync_client \<Rightarrow> ('p, 'd, 'h, 'hint, 'k) sync_client" where
  "handle_shape_snapshot shape_id snapshot_lsn c =
     c\<lparr>cl_shapes := mark_snapshot_loaded shape_id snapshot_lsn (cl_shapes c),
       cl_last_seen_lsn := hm_insert shape_id snapshot_lsn (cl_last_seen_lsn c),
       cl_resync_requested := False, cl_pending_resync := None\<rparr>"

definition handle_shape_delta :: "string \<Rightarrow> u64 \<Rightarrow> ('p, 'd, 'h, 'hint, 'k) sync_client \<Rightarrow> ('p, 'd, 'h, 'hint, 'k) sync_client" where
  "handle_shape_delta shape_id lsn c = c\<lparr>cl_shapes := advance_lsn shape_id lsn (cl_shapes c)\<rparr>"

definition handle_clock_sync :: "(string, u64) hmap \<Rightarrow> ('p, 'd, 'h, 'hint, 'k) sync_client \<Rightarrow> ('p, 'd, 'h, 'hint, 'k) sync_client" where
  "handle_clock_sync clocks c = c\<lparr>cl_clock := advance_wire clocks (cl_clock c)\<rparr>"

definition check_sequence_gap :: "string \<Rightarrow> u64 \<Rightarrow> ('p, 'd, 'h, 'hint, 'k) sync_client \<Rightarrow> resync_request_msg option \<times> ('p, 'd, 'h, 'hint, 'k) sync_client" where
  "check_sequence_gap shape_id lsn c =
     (if cl_resync_requested c then (None, c)
      else let c' = c\<lparr>cl_last_seen_lsn := hm_insert shape_id lsn (cl_last_seen_lsn c)\<rparr>
           in case hm_get (cl_last_seen_lsn c) shape_id of
                None \<Rightarrow> (None, c')
              | Some last_lsn \<Rightarrow>
                  if lsn > last_lsn + 1
                  then (Some \<lparr>rq_reason = SequenceGap (last_lsn + 1) lsn, rq_from_mutation_id = last_lsn + 1,
                              rq_collection = [], rq_shape_id = shape_id\<rparr>,
                        c'\<lparr>cl_resync_requested := True\<rparr>)
                  else (None, c'))"

definition reset_sequence_tracking :: "('p, 'd, 'h, 'hint, 'k) sync_client \<Rightarrow> ('p, 'd, 'h, 'hint, 'k) sync_client" where
  "reset_sequence_tracking c = c\<lparr>cl_last_seen_lsn := [], cl_resync_requested := False, cl_pending_resync := None\<rparr>"

definition set_pending_resync :: "resync_request_msg \<Rightarrow> ('p, 'd, 'h, 'hint, 'k) sync_client \<Rightarrow> ('p, 'd, 'h, 'hint, 'k) sync_client" where
  "set_pending_resync msg c = c\<lparr>cl_pending_resync := Some msg\<rparr>"

definition take_pending_resync :: "('p, 'd, 'h, 'hint, 'k) sync_client \<Rightarrow> resync_request_msg option \<times> ('p, 'd, 'h, 'hint, 'k) sync_client" where
  "take_pending_resync c = (cl_pending_resync c, c\<lparr>cl_pending_resync := None\<rparr>)"

definition set_pending_array_ack :: "array_ack_msg \<Rightarrow> ('p, 'd, 'h, 'hint, 'k) sync_client \<Rightarrow> ('p, 'd, 'h, 'hint, 'k) sync_client" where
  "set_pending_array_ack msg c =
     (let pend = cl_pending_array_ack c;
          entry = hm_get_or msg pend (aa_array msg)
      in c\<lparr>cl_pending_array_ack :=
            hm_insert (aa_array msg) (if aa_ack_hlc_bytes entry < aa_ack_hlc_bytes msg then msg else entry) pend\<rparr>)"

definition drain_pending_array_acks :: "('p, 'd, 'h, 'hint, 'k) sync_client \<Rightarrow> array_ack_msg list \<times> ('p, 'd, 'h, 'hint, 'k) sync_client" where
  "drain_pending_array_acks c =
     (if cl_pending_array_ack c = [] then ([], c)
      else (map snd (cl_pending_array_ack c), c\<lparr>cl_pending_array_ack := []\<rparr>))"

text \<open>The catch-up requests are in a \<open>BTreeMap\<close>, which drains in name order.\<close>

definition reset_array_catchups :: "array_catchup_request_msg list \<Rightarrow> ('p, 'd, 'h, 'hint, 'k) sync_client \<Rightarrow> ('p, 'd, 'h, 'hint, 'k) sync_client" where
  "reset_array_catchups requests c =
     c\<lparr>cl_pending_array_catchups := hm_collect (map (\<lambda>r. (ac_array r, r)) requests)\<rparr>"

definition queue_array_catchup :: "array_catchup_request_msg \<Rightarrow> ('p, 'd, 'h, 'hint, 'k) sync_client \<Rightarrow> ('p, 'd, 'h, 'hint, 'k) sync_client" where
  "queue_array_catchup request c =
     c\<lparr>cl_pending_array_catchups := hm_insert (ac_array request) request (cl_pending_array_catchups c)\<rparr>"

definition drain_array_catchups :: "('p, 'd, 'h, 'hint, 'k) sync_client \<Rightarrow> array_catchup_request_msg list \<times> ('p, 'd, 'h, 'hint, 'k) sync_client" where
  "drain_array_catchups c =
     (map snd (sort_key fst (cl_pending_array_catchups c)), c\<lparr>cl_pending_array_catchups := []\<rparr>)"

subsection \<open>Token refresh\<close>

definition should_refresh_token :: "u64 \<Rightarrow> ('p, 'd, 'h, 'hint, 'k) sync_client \<Rightarrow> bool" where
  "should_refresh_token now_ms c =
     (if sc_token_provider (cl_config c) = None \<or> sc_token_lifetime_secs (cl_config c) = 0 then False
      else if cl_token_refresh_pending c then False
      else let elapsed_ms = u64_sat_sub now_ms (cl_token_set_at_ms c);
               threshold_ms = sc_token_lifetime_secs (cl_config c) * 800
           in elapsed_ms \<ge> threshold_ms)"

definition is_refresh_backoff_elapsed :: "u64 \<Rightarrow> ('p, 'd, 'h, 'hint, 'k) sync_client \<Rightarrow> bool" where
  "is_refresh_backoff_elapsed now_ms c =
     (if cl_token_last_attempt_ms c = 0 then True
      else u64_sat_sub now_ms (cl_token_last_attempt_ms c) \<ge> cl_token_refresh_backoff_ms c)"

definition apply_backoff :: "('p, 'd, 'h, 'hint, 'k) sync_client \<Rightarrow> ('p, 'd, 'h, 'hint, 'k) sync_client" where
  "apply_backoff c =
     c\<lparr>cl_token_refresh_backoff_ms := min (cl_token_refresh_backoff_ms c * 2) TOKEN_REFRESH_MAX_BACKOFF_MS\<rparr>"

definition on_refresh_failure :: "('p, 'd, 'h, 'hint, 'k) sync_client \<Rightarrow> ('p, 'd, 'h, 'hint, 'k) sync_client" where
  "on_refresh_failure c = apply_backoff (c\<lparr>cl_token_refresh_pending := False\<rparr>)"

text \<open>What the provider's future gives within its timeout.\<close>

datatype provider_reply = NewToken string | NoToken | TimedOut

definition initiate_token_refresh :: "u64 \<Rightarrow> ('p \<Rightarrow> provider_reply) \<Rightarrow> ('p, 'd, 'h, 'hint, 'k) sync_client \<Rightarrow> string option \<times> ('p, 'd, 'h, 'hint, 'k) sync_client" where
  "initiate_token_refresh now_ms call c =
     (case sc_token_provider (cl_config c) of
        None \<Rightarrow> (None, c)
      | Some provider \<Rightarrow>
          (let c = c\<lparr>cl_token_last_attempt_ms := now_ms, cl_token_refresh_pending := True\<rparr>
           in case call provider of
                NewToken new_token \<Rightarrow>
                  (Some new_token, c\<lparr>cl_token_refresh_backoff_ms := TOKEN_REFRESH_MIN_BACKOFF_MS\<rparr>)
              | NoToken \<Rightarrow> (None, on_refresh_failure c)
              | TimedOut \<Rightarrow> (None, on_refresh_failure c)))"

definition handle_token_refresh_ack :: "u64 \<Rightarrow> bool \<Rightarrow> ('p, 'd, 'h, 'hint, 'k) sync_client \<Rightarrow> ('p, 'd, 'h, 'hint, 'k) sync_client" where
  "handle_token_refresh_ack now_ms success c =
     (let c = c\<lparr>cl_token_refresh_pending := False\<rparr>
      in if success
         then c\<lparr>cl_token_set_at_ms := now_ms, cl_push_paused_for_auth := False,
                cl_token_refresh_backoff_ms := TOKEN_REFRESH_MIN_BACKOFF_MS\<rparr>
         else apply_backoff c)"

definition pause_for_auth :: "('p, 'd, 'h, 'hint, 'k) sync_client \<Rightarrow> ('p, 'd, 'h, 'hint, 'k) sync_client" where
  "pause_for_auth c = c\<lparr>cl_push_paused_for_auth := True\<rparr>"

definition is_push_paused_for_auth :: "('p, 'd, 'h, 'hint, 'k) sync_client \<Rightarrow> bool" where
  "is_push_paused_for_auth c = cl_push_paused_for_auth c"

end
