(* ===== verification/Client_Runs.thy ===== *)
theory Client_Runs
  imports Sync_Client
begin

text \<open>
  Runs of the sync client: any interleaving of the calls its tasks make. Shown for every run: the
  client stays well formed, a row push is admitted exactly when its sequence is new, and the gap
  detector asks once for the first missing delta. The reconnect backoff is bounded, and wraps.
\<close>

subsection \<open>Runs of the client\<close>

text \<open>One call per method that changes the state. The receive, push and ping tasks call them in
  any order. \<open>CWindow\<close> is a call of the array push window.\<close>

datatype ('p, 'd, 'h, 'hint, 'k) client_call =
    CSetState sync_state
  | CSetHandler 'h
  | CSubscribe 'd
  | CUnsubscribe string
  | CLoadProducer "u64 \<times> u64"
  | CSetFenced
  | CClearFenced
  | CAdmit u64 string u64
  | CHandshakeAck handshake_ack_msg
  | CUpdatePending usize usize
  | CResetFlow
  | CCleanup instant duration
  | CBuildPushes u64 "pending_delta list" u64
  | CRecordPush instant u64 "u64 list"
  | CDeltaAck instant delta_ack_msg
  | CDeltaReject "'hint delta_reject_msg"
  | CReceived u64
  | CAnnounced string
  | CShapeSnapshot string u64
  | CShapeDelta string u64
  | CClockSync "(string, u64) hmap"
  | CCheckGap string u64
  | CResetTracking
  | CSetResync resync_request_msg
  | CTakeResync
  | CSetArrayAck array_ack_msg
  | CDrainArrayAcks
  | CResetCatchups "array_catchup_request_msg list"
  | CQueueCatchup array_catchup_request_msg
  | CDrainCatchups
  | CInitiateRefresh u64 "'p \<Rightarrow> provider_reply"
  | CRefreshAck u64 bool
  | CPauseForAuth
  | CQueueReject row_push_msg "string \<times> bool"
  | CDrainRejects
  | CRequeueRejects "row_push_reject_msg list"
  | CWindow "'k array_push_window \<Rightarrow> 'k array_push_window"

record ('d, 'hint) client_env =
  ce_shape_id :: "'d \<Rightarrow> string"
  ce_kind :: "'hint \<Rightarrow> hint_kind"
  ce_crc32c :: "bytes \<Rightarrow> u32"
  ce_rnd :: "rat \<Rightarrow> rat"

fun client_step ::
  "('d, 'hint) client_env \<Rightarrow> ('p, 'd, 'h, 'hint, 'k) client_call \<Rightarrow> ('p, 'd, 'h, 'hint, 'k) sync_client \<Rightarrow> ('p, 'd, 'h, 'hint, 'k) sync_client" where
  "client_step env (CSetState st) c = set_state st c"
| "client_step env (CSetHandler h) c = set_compensation_handler h c"
| "client_step env (CSubscribe d) c = c\<lparr>cl_shapes := snd (subscribe (ce_shape_id env) d (cl_shapes c))\<rparr>"
| "client_step env (CUnsubscribe i) c = c\<lparr>cl_shapes := snd (unsubscribe i (cl_shapes c))\<rparr>"
| "client_step env (CLoadProducer ps) c = client_load_producer_state ps c"
| "client_step env CSetFenced c = set_fenced c"
| "client_step env CClearFenced c = clear_fenced c"
| "client_step env (CAdmit peer coll sequence) c = snd (admit_row_push peer coll sequence c)"
| "client_step env (CHandshakeAck ack) c = snd (handle_handshake_ack ack c)"
| "client_step env (CUpdatePending n b) c = update_pending_stats n b c"
| "client_step env CResetFlow c = reset_flow_control c"
| "client_step env (CCleanup now timeout) c =
     (case cleanup_stale_and_record now timeout (cl_flow c, cl_metrics c) of
        (fc, m) \<Rightarrow> c\<lparr>cl_flow := fc, cl_metrics := m\<rparr>)"
| "client_step env (CBuildPushes now_ms pending peer) c = snd (build_delta_pushes (ce_crc32c env) now_ms pending peer c)"
| "client_step env (CRecordPush now now_ms ids) c = client_record_push now now_ms ids c"
| "client_step env (CDeltaAck now ack) c = handle_delta_ack (ce_rnd env) now ack c"
| "client_step env (CDeltaReject reject) c = handle_delta_reject (ce_kind env) reject c"
| "client_step env (CReceived now_ms) c = c\<lparr>cl_metrics := record_received now_ms (cl_metrics c)\<rparr>"
| "client_step env (CAnnounced coll) c = c\<lparr>cl_announced_collections := insert coll (cl_announced_collections c)\<rparr>"
| "client_step env (CShapeSnapshot i lsn) c = handle_shape_snapshot i lsn c"
| "client_step env (CShapeDelta i lsn) c = handle_shape_delta i lsn c"
| "client_step env (CClockSync wire) c = handle_clock_sync wire c"
| "client_step env (CCheckGap i lsn) c = snd (check_sequence_gap i lsn c)"
| "client_step env CResetTracking c = reset_sequence_tracking c"
| "client_step env (CSetResync msg) c = set_pending_resync msg c"
| "client_step env CTakeResync c = snd (take_pending_resync c)"
| "client_step env (CSetArrayAck msg) c = set_pending_array_ack msg c"
| "client_step env CDrainArrayAcks c = snd (drain_pending_array_acks c)"
| "client_step env (CResetCatchups rs) c = reset_array_catchups rs c"
| "client_step env (CQueueCatchup r) c = queue_array_catchup r c"
| "client_step env CDrainCatchups c = snd (drain_array_catchups c)"
| "client_step env (CInitiateRefresh now_ms call) c = snd (initiate_token_refresh now_ms call c)"
| "client_step env (CRefreshAck now_ms ok) c = handle_token_refresh_ack now_ms ok c"
| "client_step env CPauseForAuth c = pause_for_auth c"
| "client_step env (CQueueReject msg err) c =
     c\<lparr>cl_pending_row_push_rejects := queue_row_push_reject msg err (cl_pending_row_push_rejects c)\<rparr>"
| "client_step env CDrainRejects c =
     c\<lparr>cl_pending_row_push_rejects := snd (drain_row_push_rejects (cl_pending_row_push_rejects c))\<rparr>"
| "client_step env (CRequeueRejects unsent) c =
     c\<lparr>cl_pending_row_push_rejects := requeue_row_push_rejects unsent (cl_pending_row_push_rejects c)\<rparr>"
| "client_step env (CWindow f) c = c\<lparr>cl_array_push := f (cl_array_push c)\<rparr>"

definition client_run ::
  "('d, 'hint) client_env \<Rightarrow> ('p, 'd, 'h, 'hint, 'k) client_call list \<Rightarrow> ('p, 'd, 'h, 'hint, 'k) sync_client \<Rightarrow> ('p, 'd, 'h, 'hint, 'k) sync_client" where
  "client_run env calls c = fold (client_step env) calls c"

subsection \<open>Well-formed clients\<close>

definition keyed_by :: "('a \<Rightarrow> 'b) \<Rightarrow> ('b, 'a) hmap \<Rightarrow> bool" where
  "keyed_by key m \<longleftrightarrow> hm_ok m \<and> list_all (\<lambda>(k, v). key v = k) m"

definition backoff_ok :: "u64 \<Rightarrow> bool" where
  "backoff_ok ms \<longleftrightarrow> TOKEN_REFRESH_MIN_BACKOFF_MS \<le> ms \<and> ms \<le> TOKEN_REFRESH_MAX_BACKOFF_MS"

definition client_wf :: "('p, 'd, 'h, 'hint, 'k) sync_client \<Rightarrow> bool" where
  "client_wf c \<longleftrightarrow>
     flow_inv (cl_flow c) \<and> hm_ok (vc_entries (cl_clock c)) \<and> comp_inv (cl_compensation c) \<and>
     hm_ok (cl_last_seen_lsn c) \<and> hm_ok (cl_delta_targets c) \<and>
     hm_ok (cl_row_push_watermark c) \<and> list_all (\<lambda>(_, marks). hm_ok marks) (cl_row_push_watermark c) \<and>
     keyed_by aa_array (cl_pending_array_ack c) \<and> keyed_by ac_array (cl_pending_array_catchups c) \<and>
     length (cl_pending_row_push_rejects c) \<le> ROW_PUSH_REJECT_CAP \<and>
     backoff_ok (cl_token_refresh_backoff_ms c)"

lemma keyed_by_iff: "keyed_by key m \<longleftrightarrow> hm_ok m \<and> (\<forall>k v. hm_get m k = Some v \<longrightarrow> key v = k)"
  by (auto simp: keyed_by_def list_all_iff map_of_eq_Some_iff)

lemma keyed_by_insert: "keyed_by key m \<Longrightarrow> key v = k \<Longrightarrow> keyed_by key (hm_insert k v m)"
  by (simp add: keyed_by_iff)

lemma keyed_by_collect: "keyed_by key (hm_collect (map (\<lambda>r. (key r, r)) rs))"
proof -
  have "keyed_by key m \<Longrightarrow> keyed_by key (foldl (\<lambda>m (k, v). hm_insert k v m) m (map (\<lambda>r. (key r, r)) rs))" for m
    by (induction rs arbitrary: m) (simp_all add: keyed_by_insert)
  then show ?thesis
    by (simp add: hm_collect_def keyed_by_def)
qed

lemma advance_wire_ok: "hm_ok (vc_entries clock) \<Longrightarrow> hm_ok (vc_entries (advance_wire wire clock))"
  unfolding advance_wire_def
  by (induction wire arbitrary: clock) (auto simp: vc_advance_def Let_def split: option.splits)

lemma backoff_ok_min: "backoff_ok TOKEN_REFRESH_MIN_BACKOFF_MS"
  by (simp add: backoff_ok_def TOKEN_REFRESH_MIN_BACKOFF_MS_def TOKEN_REFRESH_MAX_BACKOFF_MS_def)

text \<open>Doubling does not wrap below the cap.\<close>

lemma backoff_ok_double: "backoff_ok ms \<Longrightarrow> backoff_ok (min (ms * 2) TOKEN_REFRESH_MAX_BACKOFF_MS)"
proof -
  assume "backoff_ok ms"
  then have "5000 \<le> unat ms" "unat ms \<le> 300000"
    by (simp_all add: backoff_ok_def TOKEN_REFRESH_MIN_BACKOFF_MS_def TOKEN_REFRESH_MAX_BACKOFF_MS_def word_le_nat_alt)
  moreover from this have "unat (ms * 2) = unat ms * 2"
    by (simp add: unat_mult_lem [THEN iffD1])
  ultimately show ?thesis
    by (simp add: backoff_ok_def TOKEN_REFRESH_MIN_BACKOFF_MS_def TOKEN_REFRESH_MAX_BACKOFF_MS_def min_def word_le_nat_alt)
qed

lemmas client_defs =
  set_state_def set_compensation_handler_def client_load_producer_state_def set_fenced_def clear_fenced_def
  admit_row_push_def handle_handshake_ack_def set_producer_id_def set_accepted_epoch_def update_pending_stats_def
  reset_flow_control_def build_delta_pushes_def client_record_push_def handle_delta_ack_def handle_delta_reject_def
  handle_shape_snapshot_def handle_shape_delta_def handle_clock_sync_def check_sequence_gap_def
  reset_sequence_tracking_def set_pending_resync_def take_pending_resync_def set_pending_array_ack_def
  drain_pending_array_acks_def reset_array_catchups_def queue_array_catchup_def drain_array_catchups_def
  initiate_token_refresh_def on_refresh_failure_def apply_backoff_def handle_token_refresh_ack_def pause_for_auth_def

lemma wf_flow:
  "flow_inv fc \<Longrightarrow> flow_inv (fc_record_push now ids fc)"
  "flow_inv fc \<Longrightarrow> flow_inv (snd (fc_record_ack rnd now mid fc))"
  "flow_inv fc \<Longrightarrow> flow_inv (fc_record_reject mid fc)"
  "flow_inv fc \<Longrightarrow> flow_inv (update_pending n b fc)"
  "flow_inv fc \<Longrightarrow> flow_inv (snd (cleanup_stale now timeout fc))"
  "flow_inv fc \<Longrightarrow> flow_inv (fc_reset fc)"
  using flow_step_inv [of fc rnd "EvPush now ids"] flow_step_inv [of fc rnd "EvAck now mid"]
    flow_step_inv [of fc rnd "EvReject mid"] flow_step_inv [of fc rnd "EvPending n b"]
    flow_step_inv [of fc rnd "EvCleanup now timeout"] flow_step_inv [of fc rnd EvReset] by simp_all

lemma wf_comp:
  "comp_inv r \<Longrightarrow> comp_inv (set_handler h r)"
  "comp_inv r \<Longrightarrow> comp_inv (dispatch e r)"
  by (auto simp: comp_inv_def set_handler_def set_handler_install_def set_handler_drain_def dispatch_def split: option.splits)

lemma wf_targets: "hm_ok m \<Longrightarrow> hm_ok (fold (\<lambda>d. hm_insert (f d) (g d)) ds m)"
  by (induction ds arbitrary: m) simp_all

lemma wf_watermark:
  assumes "hm_ok w" "list_all (\<lambda>(_, marks). hm_ok marks) w"
  shows "hm_ok (hm_get_or [] w peer)"
    and "hm_ok marks \<Longrightarrow> list_all (\<lambda>(_, marks). hm_ok marks) (hm_insert peer marks w)"
proof -
  have iff: "list_all (\<lambda>(_, marks). hm_ok marks) w \<longleftrightarrow> (\<forall>p m. hm_get w p = Some m \<longrightarrow> hm_ok m)"
    if "hm_ok w" for w :: "('a, ('b, 'c) hmap) hmap"
    using that by (auto simp: list_all_iff map_of_eq_Some_iff)
  show "hm_ok (hm_get_or [] w peer)"
    using assms iff [OF assms(1)] by (simp add: hm_get_or_def split: option.splits)
  show "list_all (\<lambda>(_, marks). hm_ok marks) (hm_insert peer marks w)" if "hm_ok marks"
    using assms that iff [OF assms(1)] iff [OF hm_ok_insert [OF assms(1)], of peer marks] by simp
qed

lemma wf_ack_merge:
  "keyed_by aa_array m \<Longrightarrow>
   keyed_by aa_array (hm_insert (aa_array msg) (if P then msg else hm_get_or msg m (aa_array msg)) m)"
  by (rule keyed_by_insert) (auto simp: keyed_by_iff hm_get_or_def split: option.splits)

lemma client_step_wf: "client_wf c \<Longrightarrow> client_wf (client_step env call c)"
proof (cases call)
  case (CDeltaReject reject)
  assume "client_wf c"
  then show ?thesis
    using CDeltaReject by (auto simp: client_wf_def client_defs Let_def wf_flow wf_comp split: option.splits)
next
  case (CCleanup now timeout)
  assume "client_wf c"
  then show ?thesis
    using CCleanup wf_flow(5) [of "cl_flow c" now timeout]
    by (auto simp: client_wf_def cleanup_stale_and_record_def split: prod.splits)
next
  case (CAdmit peer coll sequence)
  assume "client_wf c"
  then show ?thesis
    using CAdmit by (auto simp: client_wf_def client_defs Let_def wf_watermark)
next
  case (CInitiateRefresh now_ms provider)
  assume "client_wf c"
  then show ?thesis
    using CInitiateRefresh
    by (auto simp: client_wf_def client_defs Let_def backoff_ok_min backoff_ok_double split: option.splits provider_reply.splits)
qed (auto simp: client_wf_def client_defs Let_def wf_flow wf_comp wf_targets advance_wire_ok vc_ok_advance
      wf_ack_merge keyed_by_insert keyed_by_collect keyed_by_def [of _ "[]"] backoff_ok_min backoff_ok_double
      queue_row_push_reject_def drain_row_push_rejects_def requeue_row_push_rejects_def split: option.splits prod.splits)

lemma client_run_wf: "client_wf c \<Longrightarrow> client_wf (client_run env calls c)"
  unfolding client_run_def by (induction calls arbitrary: c) (simp_all add: client_step_wf)

lemma with_flow_control_wf: "config_ok flow_config \<Longrightarrow> client_wf (with_flow_control now_ms config flow_config)"
  by (simp add: client_wf_def with_flow_control_def flow_inv_def FlowController_new_def config_ok_def vc_new_def
      comp_inv_def CompensationRegistry_new_def keyed_by_def backoff_ok_min)


subsection \<open>Row push admission\<close>

text \<open>The sequences a run admits for one peer and collection, in order. \<open>0\<close> marks an
  unsequenced frame and is left out.\<close>

fun admitted_seqs ::
  "('d, 'hint) client_env \<Rightarrow> u64 \<Rightarrow> string \<Rightarrow> ('p, 'd, 'h, 'hint, 'k) client_call list \<Rightarrow>
   ('p, 'd, 'h, 'hint, 'k) sync_client \<Rightarrow> u64 list" where
  "admitted_seqs env peer coll [] c = []"
| "admitted_seqs env peer coll (call # calls) c =
     (case call of
        CAdmit peer' coll' sequence \<Rightarrow>
          if peer' = peer \<and> coll' = coll \<and> sequence \<noteq> 0 \<and> fst (admit_row_push peer' coll' sequence c)
          then [sequence] else []
      | _ \<Rightarrow> []) @ admitted_seqs env peer coll calls (client_step env call c)"

definition row_mark :: "u64 \<Rightarrow> string \<Rightarrow> ('p, 'd, 'h, 'hint, 'k) sync_client \<Rightarrow> u64" where
  "row_mark peer coll c = hm_get_or 0 (hm_get_or [] (cl_row_push_watermark c) peer) coll"

lemma admit_iff: "fst (admit_row_push peer coll sequence c) \<longleftrightarrow> sequence = 0 \<or> row_mark peer coll c < sequence"
  by (auto simp: admit_row_push_def row_mark_def Let_def)

lemma admit_mark:
  "row_mark peer coll (snd (admit_row_push peer' coll' sequence c)) =
     (if peer' = peer \<and> coll' = coll \<and> sequence \<noteq> 0 \<and> row_mark peer coll c < sequence then sequence
      else row_mark peer coll c)"
  by (auto simp: admit_row_push_def row_mark_def Let_def hm_get_or_def)

lemma other_mark:
  "(\<And>peer' coll' sequence. call \<noteq> CAdmit peer' coll' sequence) \<Longrightarrow>
   cl_row_push_watermark (client_step env call c) = cl_row_push_watermark c"
  by (cases call) (auto simp: client_defs Let_def cleanup_stale_and_record_def split: option.splits prod.splits provider_reply.splits)

lemma admitted_marks:
  "sorted_wrt (<) (row_mark peer coll c # admitted_seqs env peer coll calls c) \<and>
   row_mark peer coll (client_run env calls c) = last (row_mark peer coll c # admitted_seqs env peer coll calls c)"
proof (induction calls arbitrary: c)
  case Nil
  then show ?case by (simp add: client_run_def)
next
  case (Cons call calls)
  let ?m = "row_mark peer coll c" and ?c = "client_step env call c"
  note ih = Cons.IH [of ?c]
  have run: "client_run env (call # calls) c = client_run env calls ?c"
    by (simp add: client_run_def)
  show ?case
  proof (cases "\<exists>sequence. call = CAdmit peer coll sequence \<and> sequence \<noteq> 0 \<and> ?m < sequence")
    case True
    then obtain sequence where call: "call = CAdmit peer coll sequence" "sequence \<noteq> 0" "?m < sequence"
      by blast
    then have adm: "admitted_seqs env peer coll (call # calls) c = sequence # admitted_seqs env peer coll calls ?c"
      and mark: "row_mark peer coll ?c = sequence"
      by (simp_all add: admit_iff admit_mark)
    show ?thesis
      using ih call(3) unfolding run adm mark by (auto intro: less_trans)
  next
    case False
    then have adm: "admitted_seqs env peer coll (call # calls) c = admitted_seqs env peer coll calls ?c"
      by (cases call) (auto simp: admit_iff)
    have mark: "row_mark peer coll ?c = ?m"
    proof (cases "\<exists>peer' coll' sequence. call = CAdmit peer' coll' sequence")
      case True
      then show ?thesis
        using False by (auto simp: admit_mark)
    next
      case other: False
      then show ?thesis
        using other_mark [of call env c] by (auto simp: row_mark_def)
    qed
    show ?thesis
      using ih unfolding run adm mark .
  qed
qed

lemma start_mark: "row_mark peer coll (with_flow_control now_ms config flow_config) = 0"
  by (simp add: row_mark_def with_flow_control_def hm_get_or_def)

subsection \<open>Sequence gaps\<close>

text \<open>The requests a stream of deltas of one shape gives rise to.\<close>

fun gap_requests ::
  "string \<Rightarrow> u64 list \<Rightarrow> ('p, 'd, 'h, 'hint, 'k) sync_client \<Rightarrow> resync_request_msg list" where
  "gap_requests shape_id [] c = []"
| "gap_requests shape_id (lsn # lsns) c =
     (case check_sequence_gap shape_id lsn c of
        (req, c') \<Rightarrow> (case req of None \<Rightarrow> [] | Some r \<Rightarrow> [r]) @ gap_requests shape_id lsns c')"

lemma gap_requested: "cl_resync_requested c \<Longrightarrow> gap_requests shape_id lsns c = []"
  by (induction lsns arbitrary: c) (simp_all add: check_sequence_gap_def)

lemma gap_step:
  assumes "\<not> cl_resync_requested c" "hm_get (cl_last_seen_lsn c) shape_id = Some l" "l < (x :: u64)"
  shows "l + 1 < x \<Longrightarrow> \<exists>r c'. check_sequence_gap shape_id x c = (Some r, c') \<and> rq_from_mutation_id r = l + 1 \<and>
           rq_reason r = SequenceGap (l + 1) x \<and> rq_shape_id r = shape_id \<and> cl_resync_requested c'"
    and "\<not> l + 1 < x \<Longrightarrow> x = l + 1 \<and> (\<exists>c'. check_sequence_gap shape_id x c = (None, c') \<and>
           \<not> cl_resync_requested c' \<and> hm_get (cl_last_seen_lsn c') shape_id = Some x)"
proof -
  have "l + 1 \<le> x"
    using assms(3) by (rule inc_le)
  then show "\<not> l + 1 < x \<Longrightarrow> x = l + 1 \<and> (\<exists>c'. check_sequence_gap shape_id x c = (None, c') \<and>
           \<not> cl_resync_requested c' \<and> hm_get (cl_last_seen_lsn c') shape_id = Some x)"
    using assms by (auto simp: check_sequence_gap_def Let_def)
qed (use assms in \<open>simp add: check_sequence_gap_def Let_def\<close>)

subsection \<open>Properties\<close>


text \<open>C28. On any run of a client, also across reconnects, the row pushes admitted for a peer and
  collection have strictly increasing sequences, and a frame is admitted exactly when it is
  unsequenced or its sequence is above every one admitted before.\<close>

theorem row_push_admits_new:
  "let c = with_flow_control now_ms config flow_config; adm = admitted_seqs env peer coll calls c
   in sorted_wrt (<) adm \<and>
      (fst (admit_row_push peer coll sequence (client_run env calls c)) \<longleftrightarrow>
        sequence = 0 \<or> list_all (\<lambda>s. s < sequence) adm)"
proof -
  let ?c = "with_flow_control now_ms config flow_config" 
  let ?adm = "admitted_seqs env peer coll calls ?c"
  have m: "sorted_wrt (<) (0 # ?adm)" "row_mark peer coll (client_run env calls ?c) = last (0 # ?adm)"
    using admitted_marks [of peer coll ?c env calls] unfolding start_mark by simp_all
  have "last (0 # ?adm) < sequence \<longleftrightarrow> sequence \<noteq> 0 \<and> list_all (\<lambda>s. s < sequence) ?adm"
  proof (cases "?adm = []")
    case False
    have "s \<le> last ?adm" if "s \<in> set ?adm" for s
      using sorted_wrt_less_le_last [of ?adm s] m(1) that by simp
    then show ?thesis
      using False by (auto simp: list_all_iff intro: le_less_trans)
  qed (simp add: word_neq_0_conv)
  then show ?thesis
    using m by (auto simp: Let_def admit_iff)
qed

text \<open>The requests of the gap detector on an increasing stream.\<close>

lemma gap_requests_increasing:
  assumes "\<not> cl_resync_requested c" "hm_get (cl_last_seen_lsn c) shape_id = Some l" "sorted_wrt (<) (l # lsns)"
  shows "map rq_from_mutation_id (gap_requests shape_id lsns c) =
    (if \<exists>n. l < n \<and> n < last (l # lsns) \<and> n \<notin> set lsns then [LEAST n. l < n \<and> n \<notin> set lsns] else [])"
  using assms
proof (induction lsns arbitrary: l c)
  case Nil
  then show ?case by (auto dest: less_asym)
next
  case (Cons x lsns)
  have lx: "l < x" and above: "y \<in> set lsns \<Longrightarrow> x < y" for y
    using Cons.prems(3) by simp_all
  show ?case
  proof (cases "l + 1 < x")
    case True
    then obtain r c' where r: "check_sequence_gap shape_id x c = (Some r, c')" "rq_from_mutation_id r = l + 1"
        "cl_resync_requested c'"
      using gap_step(1) [OF Cons.prems(1,2) lx] by blast
    have "l + 1 \<notin> set (x # lsns)"
      using True above less_asym by auto
    moreover have "l + 1 < last (l # x # lsns)"
      using True above by (auto intro: less_trans)
    moreover have "l < l + 1"
    proof -
      have "l \<noteq> u64_max"
        using lx by (auto simp: u64_max_def)
      then show "l < l + 1"
        by (rule u64_succ_gt(1))
    qed
    ultimately have l1: "l < l + 1" "l + 1 \<notin> set (x # lsns)" "l + 1 < last (l # x # lsns)"
      by blast+
    then have "(LEAST n. l < n \<and> n \<notin> set (x # lsns)) = l + 1"
      by (intro Least_equality) (auto intro: inc_le)
    then show ?thesis
      using l1 r gap_requested [OF r(3)] by auto
  next
    case False
    then obtain c' where c': "x = l + 1" "check_sequence_gap shape_id x c = (None, c')"
        "\<not> cl_resync_requested c'" "hm_get (cl_last_seen_lsn c') shape_id = Some x"
      using gap_step(2) [OF Cons.prems(1,2) lx] by blast
    have eq: "l < n \<and> n \<notin> set (x # lsns) \<longleftrightarrow> x < n \<and> n \<notin> set lsns" for n
      using c'(1) lx inc_le [of l n] by (auto simp: order_less_le)
    have "(\<exists>n. l < n \<and> n < last (l # x # lsns) \<and> n \<notin> set (x # lsns)) \<longleftrightarrow> (\<exists>n. x < n \<and> n < last (x # lsns) \<and> n \<notin> set lsns)"
      using eq by (intro iff_exI) (metis last_ConsR list.distinct(1))
    moreover have "gap_requests shape_id (x # lsns) c = gap_requests shape_id lsns c'"
      by (simp add: c'(2))
    moreover have "sorted_wrt (<) (x # lsns)"
      using Cons.prems(3) by simp
    ultimately show ?thesis
      using Cons.IH [OF c'(3,4)] by (simp only: eq)
  qed
qed

text \<open>C29. On an increasing stream of deltas of a shape, the gap detector asks for a re-sync exactly
  when a number is missing before the last delta. It asks once, and from the first missing
  number.\<close>

theorem gap_requests_first_missing:
  assumes "\<not> cl_resync_requested c" "hm_get (cl_last_seen_lsn c) shape_id = Some l" "sorted_wrt (<) (l # lsns)"
  shows "map rq_from_mutation_id (gap_requests shape_id lsns c) =
    (if \<exists>n. l < n \<and> n < last (l # lsns) \<and> n \<notin> set lsns then [LEAST n. l < n \<and> n \<notin> set lsns] else [])"
  using assms by (rule gap_requests_increasing)

text \<open>A snapshot of another shape discards a re-sync request that has not been sent yet, and the
  gap is not asked for again: as long as later deltas of the first shape arrive in increasing order,
  every request the detector makes from then on starts above the delta that exposed the gap, while
  the discarded request started below it.\<close>

theorem snapshot_drops_resync:
  assumes "check_sequence_gap shape_id lsn c = (Some req, c1)" "other \<noteq> shape_id" "sorted_wrt (<) (lsn # lsns)"
  shows "let c2 = handle_shape_snapshot other snapshot_lsn (set_pending_resync req c1)
     in fst (take_pending_resync c2) = None \<and> rq_from_mutation_id req < lsn \<and>
        list_all (\<lambda>r. lsn < rq_from_mutation_id r) (gap_requests shape_id lsns c2)"
proof -
  let ?c2 = "handle_shape_snapshot other snapshot_lsn (set_pending_resync req c1)"
  have "hm_get (cl_last_seen_lsn c1) shape_id = Some lsn" and req: "rq_from_mutation_id req < lsn"
    using assms(1) by (auto simp: check_sequence_gap_def Let_def split: option.splits if_splits)
  then have c2: "\<not> cl_resync_requested ?c2" "hm_get (cl_last_seen_lsn ?c2) shape_id = Some lsn"
      "fst (take_pending_resync ?c2) = None"
    using assms(2) by (simp_all add: take_pending_resync_def handle_shape_snapshot_def set_pending_resync_def)
  have "lsn < (LEAST n. lsn < n \<and> n \<notin> set lsns)" if "lsn < n" "n \<notin> set lsns" for n
    using LeastI [of "\<lambda>n. lsn < n \<and> n \<notin> set lsns" n] that by blast
  then have "list_all (\<lambda>x. lsn < x) (map rq_from_mutation_id (gap_requests shape_id lsns ?c2))"
    unfolding gap_requests_increasing [OF c2(1,2) assms(3)] by auto
  then show ?thesis
    using c2(3) req by (simp add: Let_def list_all_iff)
qed

text \<open>A delta delivered again moves the tracker back, and the next one looks like a gap.\<close>

lemma gap_redelivered:
  assumes "\<not> cl_resync_requested c" "hm_get (cl_last_seen_lsn c) shape_id = Some 5"
  shows "map rq_from_mutation_id (gap_requests shape_id [6, 4, 7] c) = [5]"
  using assms by (simp add: check_sequence_gap_def Let_def)

text \<open>A refresh whose answer never arrives blocks the proactive refresh, also after a
  reconnect: only an acknowledgement or a failed attempt clears the flag.\<close>

lemma refresh_pending_stuck:
  assumes "cl_token_refresh_pending c"
    "\<And>call. call \<in> set calls \<Longrightarrow> (\<forall>now_ms ok. call \<noteq> CRefreshAck now_ms ok) \<and> (\<forall>now_ms f. call \<noteq> CInitiateRefresh now_ms f)"
  shows "\<not> should_refresh_token now_ms (client_run env calls c)"
proof -
  have step: "cl_token_refresh_pending (client_step env call c)"
    if "cl_token_refresh_pending c" "\<forall>now_ms ok. call \<noteq> CRefreshAck now_ms ok" "\<forall>now_ms f. call \<noteq> CInitiateRefresh now_ms f"
    for call and c
    using that by (cases call)
      (auto simp: client_defs Let_def cleanup_stale_and_record_def split: option.splits prod.splits)
  have "cl_token_refresh_pending (client_run env calls c)"
    using assms unfolding client_run_def by (induction calls arbitrary: c) (simp_all add: step)
  then show ?thesis
    by (simp add: should_refresh_token_def)
qed

text \<open>C30. The reconnect backoff never exceeds its maximum, and is the doubled minimum capped there
  while the product fits 64 bits. With the default configuration the product wraps to nothing at
  attempts 61 to 63: the client then reconnects without any delay.\<close>

theorem backoff_duration_bounds:
  fixes config :: "'p sync_config"
  defines "base \<equiv> as_millis (sc_min_backoff config)" and "cap \<equiv> as_millis (sc_max_backoff config)"
  assumes "cap < 2 ^ 64"
  shows "backoff_duration attempt config \<le> cap * 1000000 \<and>
    (base * 2 ^ unat attempt < 2 ^ 64 \<longrightarrow> unat attempt < 64 \<longrightarrow>
       backoff_duration attempt config = min (base * 2 ^ unat attempt) cap * 1000000) \<and>
    (attempt \<in> {61, 62, 63} \<longrightarrow> backoff_duration attempt (SyncConfig_new version url token) = 0)"
proof (intro conjI impI)
  have cap: "unat (of_nat cap :: u64) = cap"
    using assms(3) by (simp add: unat_of_nat)
  have "unat (min d (of_nat cap :: u64)) \<le> cap" for d
    using cap by (metis min.cobounded2 word_le_nat_alt)
  then show "backoff_duration attempt config \<le> cap * 1000000"
    by (simp add: backoff_duration_def Let_def from_millis_def flip: base_def cap_def)
  show "backoff_duration attempt config = min (base * 2 ^ unat attempt) cap * 1000000"
    if small: "base * 2 ^ unat attempt < 2 ^ 64" "unat attempt < 64"
  proof -
    have "(of_nat base :: u64) * 2 ^ unat attempt = of_nat (base * 2 ^ unat attempt)"
      by simp
    moreover have "unat (of_nat (base * 2 ^ unat attempt) :: u64) = base * 2 ^ unat attempt"
      using small(1) by (simp only: unat_of_nat) simp
    ultimately show ?thesis
      using cap small(2)
      by (simp add: backoff_duration_def Let_def from_millis_def u64_sat_pow2_def min_def word_le_nat_alt
          del: of_nat_mult of_nat_power flip: base_def cap_def)
  qed
  show "backoff_duration attempt (SyncConfig_new version url token) = 0" if "attempt \<in> {61, 62, 63}"
    using that by (auto simp: backoff_duration_def SyncConfig_new_def from_secs_def from_millis_def as_millis_def
        u64_sat_pow2_def Let_def)
qed

subsection \<open>Witnesses\<close>

definition demo_config :: "unit sync_config" where
  "demo_config = with_token_provider () 60 (SyncConfig_new ''0.1'' ''wss://o/sync'' ''t'')"

definition demo_client :: "(unit, unit, unit, unit, u64) sync_client" where
  "demo_client = SyncClient_new 0 demo_config"

definition demo_client_env :: "(unit, unit) client_env" where
  "demo_client_env = \<lparr>ce_shape_id = (\<lambda>_. ''s''), ce_kind = (\<lambda>_. Custom), ce_crc32c = (\<lambda>_. 0), ce_rnd = id\<rparr>"


definition demo_tracking :: "(unit, unit, unit, unit, u64) sync_client" where
  "demo_tracking = demo_client\<lparr>cl_last_seen_lsn := [(''s'', 5)]\<rparr>"

lemma demo_tracking_fields:
  "\<not> cl_resync_requested demo_tracking" "hm_get (cl_last_seen_lsn demo_tracking) ''s'' = Some 5"
  by (simp_all add: demo_tracking_def demo_client_def SyncClient_new_def with_flow_control_def)

theorem gap_requests_first_missing_witness:
  "map rq_from_mutation_id (gap_requests ''s'' [6, 9] demo_tracking) =
     (if \<exists>n::u64. 5 < n \<and> n < 9 \<and> n \<notin> set [6, 9] then [LEAST n. 5 < n \<and> n \<notin> set [6, 9]] else [])"
  using gap_requests_first_missing [OF demo_tracking_fields, of "[6, 9]"] by simp

theorem snapshot_drops_resync_witness:
  "\<exists>req c1. check_sequence_gap ''s'' 9 demo_tracking = (Some req, c1) \<and>
     fst (take_pending_resync (handle_shape_snapshot ''t'' 3 (set_pending_resync req c1))) = None \<and>
     list_all (\<lambda>r. 9 < rq_from_mutation_id r)
       (gap_requests ''s'' [10, 12] (handle_shape_snapshot ''t'' 3 (set_pending_resync req c1)))"
proof -
  obtain req c1 where c: "check_sequence_gap ''s'' 9 demo_tracking = (Some req, c1)"
    using demo_tracking_fields by (simp add: check_sequence_gap_def)
  show ?thesis
    using snapshot_drops_resync [OF c, of "''t''" "[10, 12]" 3] c by (simp add: Let_def)
qed

theorem backoff_duration_bounds_witness:
  "backoff_duration 3 demo_config = 8000 * 1000000 \<and> backoff_duration 3 demo_config \<le> 60000 * 1000000"
proof -
  have c: "as_millis (sc_max_backoff demo_config) = 60000" "as_millis (sc_min_backoff demo_config) = 1000"
    by (simp_all add: demo_config_def with_token_provider_def SyncConfig_new_def as_millis_def from_secs_def)
  show ?thesis
    using backoff_duration_bounds [of demo_config 3] by (simp add: c)
qed

end
