(* ===== verification/Sync_Transport.thy ===== *)
theory Sync_Transport
  imports Client_Runs
begin

text \<open>
  The transport (\<open>sync/transport\<close>): the control and CRDT pushes (\<open>push/control.rs\<close>), the two
  background loops (\<open>push/loops.rs\<close>), the dispatch of inbound frames (\<open>dispatch.rs\<close>,
  \<open>dispatch_array.rs\<close>), connecting (\<open>connect.rs\<close>) and the reconnect loop (\<open>run.rs\<close>).

  The \<open>SyncDelegate\<close> trait object is a record of functions on a delegate state. Sockets and
  the frame codec are external: \<open>te_send\<close> sends a frame and reports success, \<open>te_encodes\<close> says
  whether a frame encodes, and inbound frames are given decoded. The engine pushes and the
  engine acknowledgements are arguments here; the engine theory provides them.
\<close>

subsection \<open>Delegate, frames and link\<close>

record ('dl, 'hint, 'meta, 'am, 'reason) sync_delegate =
  dg_sync_identity :: "'dl \<Rightarrow> lite_identity"
  dg_regenerate_identity :: "'dl \<Rightarrow> 'dl"
  dg_rotate_peer_id :: "'dl \<Rightarrow> 'dl"
  dg_pending_deltas :: "'dl \<Rightarrow> pending_delta list"
  dg_set_pending_delta_seq :: "u64 \<Rightarrow> u64 \<Rightarrow> 'dl \<Rightarrow> 'dl"
  dg_next_stream_seq :: "string \<Rightarrow> 'dl \<Rightarrow> u64 \<times> 'dl"
  dg_acknowledge :: "u64 \<Rightarrow> 'dl \<Rightarrow> 'dl"
  dg_reject :: "u64 \<Rightarrow> 'dl \<Rightarrow> 'dl"
  dg_reject_with_policy :: "u64 \<Rightarrow> 'hint \<Rightarrow> 'dl \<Rightarrow> 'dl"
  dg_import_remote :: "string \<Rightarrow> bytes \<Rightarrow> 'dl \<Rightarrow> 'dl"
  dg_apply_remote_row :: "row_push_msg \<Rightarrow> 'dl \<Rightarrow> (string \<times> bool) option \<times> 'dl"
  dg_import_definition :: "bytes \<Rightarrow> 'dl \<Rightarrow> 'dl"
  dg_import_collection_schema :: "bytes \<Rightarrow> 'dl \<Rightarrow> 'dl"
  dg_get_collection_meta :: "string \<Rightarrow> 'dl \<Rightarrow> 'meta option"
  dg_handle_array_delta :: "'am \<Rightarrow> 'dl \<Rightarrow> array_ack_msg option \<times> 'dl"
  dg_handle_array_delta_batch :: "'am \<Rightarrow> 'dl \<Rightarrow> array_ack_msg option \<times> 'dl"
  dg_handle_array_snapshot :: "'am \<Rightarrow> 'dl \<Rightarrow> 'dl"
  dg_handle_array_snapshot_chunk :: "'am \<Rightarrow> 'dl \<Rightarrow> array_ack_msg option \<times> 'dl"
  dg_handle_array_reject :: "'reason array_reject_msg \<Rightarrow> 'dl \<Rightarrow> array_catchup_request_msg option \<times> 'dl"
  dg_begin_array_catchup :: "'dl \<Rightarrow> array_catchup_request_msg list"
  dg_load_producer_state :: "'dl \<Rightarrow> u64 \<times> u64"
  dg_persist_producer_state :: "u64 \<Rightarrow> u64 \<Rightarrow> 'dl \<Rightarrow> 'dl"
  dg_clear_engine_in_flight :: "'dl \<Rightarrow> 'dl"

datatype 'desc out_frame =
    OHandshake handshake_msg
  | OTokenRefresh string
  | OResync resync_request_msg
  | ORowPushReject row_push_reject_msg
  | OArrayAck array_ack_msg
  | OArrayCatchup array_catchup_request_msg
  | OCollectionSchema string 'desc
  | ODelta delta_push_msg
  | OPing u64

text \<open>\<open>te_descriptor\<close> is \<open>descriptor_from_meta\<close>; the schema frame names its collection.\<close>

record ('desc, 'meta, 'w) transport_env =
  te_encodes :: "'desc out_frame \<Rightarrow> bool"
  te_send :: "'desc out_frame \<Rightarrow> 'w \<Rightarrow> bool \<times> 'w"
  te_descriptor :: "'meta \<Rightarrow> u64 \<Rightarrow> 'desc option"

record ('p, 'd, 'h, 'hint, 'k, 'dl, 'w) link =
  lk_client :: "('p, 'd, 'h, 'hint, 'k) sync_client"
  lk_delegate :: 'dl
  lk_sink :: 'w

definition on_client :: "(('p, 'd, 'h, 'hint, 'k) sync_client \<Rightarrow> ('p, 'd, 'h, 'hint, 'k) sync_client) \<Rightarrow> ('p, 'd, 'h, 'hint, 'k, 'dl, 'w) link \<Rightarrow> ('p, 'd, 'h, 'hint, 'k, 'dl, 'w) link" where
  "on_client f l = l\<lparr>lk_client := f (lk_client l)\<rparr>"

definition on_delegate :: "('dl \<Rightarrow> 'dl) \<Rightarrow> ('p, 'd, 'h, 'hint, 'k, 'dl, 'w) link \<Rightarrow> ('p, 'd, 'h, 'hint, 'k, 'dl, 'w) link" where
  "on_delegate f l = l\<lparr>lk_delegate := f (lk_delegate l)\<rparr>"

text \<open>The result of a push is whether the loop continues: \<open>False\<close> is \<open>ControlFlow::Break\<close>.\<close>

definition link_send :: "('desc, 'meta, 'w) transport_env \<Rightarrow> 'desc out_frame \<Rightarrow> ('p, 'd, 'h, 'hint, 'k, 'dl, 'w) link \<Rightarrow> bool \<times> ('p, 'd, 'h, 'hint, 'k, 'dl, 'w) link" where
  "link_send te frame l = (case te_send te frame (lk_sink l) of (ok, w) \<Rightarrow> (ok, l\<lparr>lk_sink := w\<rparr>))"

definition encode_and_send :: "('desc, 'meta, 'w) transport_env \<Rightarrow> 'desc out_frame \<Rightarrow> ('p, 'd, 'h, 'hint, 'k, 'dl, 'w) link \<Rightarrow> bool \<times> ('p, 'd, 'h, 'hint, 'k, 'dl, 'w) link" where
  "encode_and_send te frame l = (if te_encodes te frame then link_send te frame l else (True, l))"

subsection \<open>Control messages\<close>

fun send_rejects :: "('desc, 'meta, 'w) transport_env \<Rightarrow> row_push_reject_msg list \<Rightarrow> ('p, 'd, 'h, 'hint, 'k, 'dl, 'w) link \<Rightarrow> bool \<times> ('p, 'd, 'h, 'hint, 'k, 'dl, 'w) link" where
  "send_rejects te [] l = (True, l)"
| "send_rejects te (reject # rejects) l =
     (if \<not> te_encodes te (ORowPushReject reject) then send_rejects te rejects l
      else case link_send te (ORowPushReject reject) l of
             (True, l') \<Rightarrow> send_rejects te rejects l'
           | (False, l') \<Rightarrow>
               (False, on_client (\<lambda>c. c\<lparr>cl_pending_row_push_rejects :=
                  requeue_row_push_rejects (reject # rejects) (cl_pending_row_push_rejects c)\<rparr>) l'))"

fun send_all :: "('desc, 'meta, 'w) transport_env \<Rightarrow> 'desc out_frame list \<Rightarrow> ('p, 'd, 'h, 'hint, 'k, 'dl, 'w) link \<Rightarrow> bool \<times> ('p, 'd, 'h, 'hint, 'k, 'dl, 'w) link" where
  "send_all te [] l = (True, l)"
| "send_all te (frame # frames) l =
     (if \<not> te_encodes te frame then send_all te frames l
      else case link_send te frame l of
             (True, l') \<Rightarrow> send_all te frames l'
           | (False, l') \<Rightarrow> (False, l'))"

definition and_then :: "bool \<times> 'a \<Rightarrow> ('a \<Rightarrow> bool \<times> 'a) \<Rightarrow> bool \<times> 'a" where
  "and_then r f = (case r of (True, x) \<Rightarrow> f x | (False, x) \<Rightarrow> (False, x))"

definition take_from_client :: "(('p, 'd, 'h, 'hint, 'k) sync_client \<Rightarrow> 'x \<times> ('p, 'd, 'h, 'hint, 'k) sync_client) \<Rightarrow> ('p, 'd, 'h, 'hint, 'k, 'dl, 'w) link \<Rightarrow> 'x \<times> ('p, 'd, 'h, 'hint, 'k, 'dl, 'w) link" where
  "take_from_client f l = (case f (lk_client l) of (x, c) \<Rightarrow> (x, l\<lparr>lk_client := c\<rparr>))"

definition reactive_refresh ::
  "('desc, 'meta, 'w) transport_env \<Rightarrow> u64 \<Rightarrow> ('p \<Rightarrow> provider_reply) \<Rightarrow> ('p, 'd, 'h, 'hint, 'k, 'dl, 'w) link \<Rightarrow> ('p, 'd, 'h, 'hint, 'k, 'dl, 'w) link" where
  "reactive_refresh te now_ms call l =
     (if is_refresh_backoff_elapsed now_ms (lk_client l)
      then case take_from_client (initiate_token_refresh now_ms call) l of
             (None, l') \<Rightarrow> l'
           | (Some token, l') \<Rightarrow> snd (encode_and_send te (OTokenRefresh token) l')
      else l)"

definition push_control_messages ::
  "('desc, 'meta, 'w) transport_env \<Rightarrow> u64 \<Rightarrow> ('p \<Rightarrow> provider_reply) \<Rightarrow> ('p, 'd, 'h, 'hint, 'k, 'dl, 'w) link \<Rightarrow> bool \<times> ('p, 'd, 'h, 'hint, 'k, 'dl, 'w) link" where
  "push_control_messages te now_ms call l =
     (if is_push_paused_for_auth (lk_client l) then (False, reactive_refresh te now_ms call l)
      else
        and_then
          (case take_from_client take_pending_resync l of
             (None, l) \<Rightarrow> (True, l)
           | (Some resync, l) \<Rightarrow> encode_and_send te (OResync resync) l)
          (\<lambda>l. and_then
            (case drain_row_push_rejects (cl_pending_row_push_rejects (lk_client l)) of
               (rejects, queue) \<Rightarrow>
                 send_rejects te rejects (on_client (\<lambda>c. c\<lparr>cl_pending_row_push_rejects := queue\<rparr>) l))
            (\<lambda>l. and_then
              (case take_from_client drain_pending_array_acks l of (acks, l) \<Rightarrow> send_all te (map OArrayAck acks) l)
              (\<lambda>l. case take_from_client drain_array_catchups l of
                     (requests, l) \<Rightarrow> send_all te (map OArrayCatchup requests) l))))"

subsection \<open>Schemas and CRDT deltas\<close>

definition ensure_collection_announced :: "('dl, 'hint, 'meta, 'am, 'reason) sync_delegate \<Rightarrow> ('desc, 'meta, 'w) transport_env \<Rightarrow> string \<Rightarrow> ('p, 'd, 'h, 'hint, 'k, 'dl, 'w) link \<Rightarrow> bool \<times> ('p, 'd, 'h, 'hint, 'k, 'dl, 'w) link" where
  "ensure_collection_announced dg te name l =
     (if name \<in> cl_announced_collections (lk_client l) then (True, l)
      else case dg_get_collection_meta dg name (lk_delegate l) of
             None \<Rightarrow> (True, l)
           | Some meta \<Rightarrow>
               (case te_descriptor te meta (sc_tenant_id (cl_config (lk_client l))) of
                  None \<Rightarrow> (True, l)
                | Some descriptor \<Rightarrow>
                    if \<not> te_encodes te (OCollectionSchema name descriptor) then (True, l)
                    else (case link_send te (OCollectionSchema name descriptor) l of
                            (False, l') \<Rightarrow> (False, l')
                          | (True, l') \<Rightarrow>
                              (True, on_client (\<lambda>c. c\<lparr>cl_announced_collections :=
                                 insert name (cl_announced_collections c)\<rparr>) l'))))"

fun announce_all :: "('dl, 'hint, 'meta, 'am, 'reason) sync_delegate \<Rightarrow> ('desc, 'meta, 'w) transport_env \<Rightarrow> string list \<Rightarrow> ('p, 'd, 'h, 'hint, 'k, 'dl, 'w) link \<Rightarrow> bool \<times> ('p, 'd, 'h, 'hint, 'k, 'dl, 'w) link" where
  "announce_all dg te [] l = (True, l)"
| "announce_all dg te (name # names) l =
     and_then (ensure_collection_announced dg te name l) (announce_all dg te names)"

definition push_collection_schemas :: "('dl, 'hint, 'meta, 'am, 'reason) sync_delegate \<Rightarrow> ('desc, 'meta, 'w) transport_env \<Rightarrow> ('p, 'd, 'h, 'hint, 'k, 'dl, 'w) link \<Rightarrow> bool \<times> ('p, 'd, 'h, 'hint, 'k, 'dl, 'w) link" where
  "push_collection_schemas dg te l =
     (let pending = dg_pending_deltas dg (lk_delegate l)
      in if pending = [] then (True, l)
         else announce_all dg te (remdups_adj (sort (map pd_collection pending))) l)"

text \<open>A delta keeps the stream number it was first sent under.\<close>

fun stamp_deltas ::
  "('dl, 'hint, 'meta, 'am, 'reason) sync_delegate \<Rightarrow> (u64, u64) hmap \<Rightarrow> u64 \<Rightarrow> u64 \<Rightarrow> delta_push_msg list \<Rightarrow> 'dl \<Rightarrow> delta_push_msg list \<times> 'dl" where
  "stamp_deltas dg seq_by_mid producer_id epoch [] dl = ([], dl)"
| "stamp_deltas dg seq_by_mid producer_id epoch (msg # msgs) dl =
     (case (case hm_get seq_by_mid (dp_mutation_id msg) of
              Some s \<Rightarrow> if s \<noteq> 0 then Some s else None
            | None \<Rightarrow> None) of
        Some s \<Rightarrow>
          (case stamp_deltas dg seq_by_mid producer_id epoch msgs dl of
             (out, dl') \<Rightarrow> (msg\<lparr>dp_producer_id := producer_id, dp_epoch := epoch, dp_seq := s\<rparr> # out, dl'))
      | None \<Rightarrow>
          (case dg_next_stream_seq dg (dp_collection msg) dl of
             (s, dl) \<Rightarrow>
               (case stamp_deltas dg seq_by_mid producer_id epoch msgs
                       (dg_set_pending_delta_seq dg (dp_mutation_id msg) s dl) of
                  (out, dl') \<Rightarrow> (msg\<lparr>dp_producer_id := producer_id, dp_epoch := epoch, dp_seq := s\<rparr> # out, dl'))))"

fun send_deltas :: "('desc, 'meta, 'w) transport_env \<Rightarrow> delta_push_msg list \<Rightarrow> ('p, 'd, 'h, 'hint, 'k, 'dl, 'w) link \<Rightarrow> bool \<times> ('p, 'd, 'h, 'hint, 'k, 'dl, 'w) link" where
  "send_deltas te [] l = (True, l)"
| "send_deltas te (msg # msgs) l =
     (if \<not> te_encodes te (ODelta msg) then (False, l)
      else case link_send te (ODelta msg) l of
             (False, l') \<Rightarrow> (False, l')
           | (True, l') \<Rightarrow> send_deltas te msgs l')"

definition push_crdt_deltas ::
  "('dl, 'hint, 'meta, 'am, 'reason) sync_delegate \<Rightarrow> ('desc, 'meta, 'w) transport_env \<Rightarrow> (bytes \<Rightarrow> u32) \<Rightarrow> instant \<Rightarrow> u64 \<Rightarrow> ('p, 'd, 'h, 'hint, 'k, 'dl, 'w) link \<Rightarrow> bool \<times> ('p, 'd, 'h, 'hint, 'k, 'dl, 'w) link" where
  "push_crdt_deltas dg te crc32c now now_ms l =
     (let pending = dg_pending_deltas dg (lk_delegate l)
      in if pending = [] then (True, l)
         else let pending_bytes = sum_list (map (length \<circ> pd_delta_bytes) pending);
                  l = on_client (update_pending_stats (length pending) pending_bytes) l
              in case take_from_client
                        (build_delta_pushes crc32c now_ms pending (li_peer_id (dg_sync_identity dg (lk_delegate l)))) l of
                   (msgs, l) \<Rightarrow>
                     if msgs = [] then (True, l)
                     else let seq_by_mid = hm_collect (map (\<lambda>d. (pd_mutation_id d, pd_seq d)) pending)
                          in case stamp_deltas dg seq_by_mid (client_producer_id (lk_client l))
                                    (client_accepted_epoch (lk_client l)) msgs (lk_delegate l) of
                               (msgs, dl) \<Rightarrow>
                                 and_then (send_deltas te msgs (l\<lparr>lk_delegate := dl\<rparr>))
                                   (\<lambda>l. (True, on_client (client_record_push now now_ms (map dp_mutation_id msgs)) l)))"

subsection \<open>The background loops\<close>

text \<open>
  One iteration of the push loop; \<open>engines\<close> are the engine pushes in their order. The pending
  deltas are read twice, once to announce their collections and once to send them, and the schema
  frames are awaited in between; \<open>writes\<close> is what local writers and acknowledgements do to the
  delegate meanwhile. The result is whether the loop goes on.
\<close>

fun run_pushes :: "('a \<Rightarrow> bool \<times> 'a) list \<Rightarrow> 'a \<Rightarrow> bool \<times> 'a" where
  "run_pushes [] x = (True, x)"
| "run_pushes (f # fs) x = and_then (f x) (run_pushes fs)"

definition delta_push_tick ::
  "('dl, 'hint, 'meta, 'am, 'reason) sync_delegate \<Rightarrow> ('desc, 'meta, 'w) transport_env \<Rightarrow> (bytes \<Rightarrow> u32) \<Rightarrow> (('p, 'd, 'h, 'hint, 'k, 'dl, 'w) link \<Rightarrow> bool \<times> ('p, 'd, 'h, 'hint, 'k, 'dl, 'w) link) list \<Rightarrow> instant \<Rightarrow> u64 \<Rightarrow>
   ('p \<Rightarrow> provider_reply) \<Rightarrow> ('dl \<Rightarrow> 'dl) \<Rightarrow> ('p, 'd, 'h, 'hint, 'k, 'dl, 'w) link \<Rightarrow> bool \<times> ('p, 'd, 'h, 'hint, 'k, 'dl, 'w) link" where
  "delta_push_tick dg te crc32c engines now now_ms call writes l =
     (if cl_state (lk_client l) \<noteq> Connected then (True, l)
      else if cl_fenced (lk_client l) then (False, l)
      else run_pushes
             ([push_control_messages te now_ms call] @ engines @
              [push_collection_schemas dg te, \<lambda>l. (True, l\<lparr>lk_delegate := writes (lk_delegate l)\<rparr>),
               push_crdt_deltas dg te crc32c now now_ms]) l)"

definition STALE_IN_FLIGHT_TIMEOUT :: duration where
  "STALE_IN_FLIGHT_TIMEOUT = from_secs 30"

definition proactive_refresh ::
  "('desc, 'meta, 'w) transport_env \<Rightarrow> u64 \<Rightarrow> ('p \<Rightarrow> provider_reply) \<Rightarrow> ('p, 'd, 'h, 'hint, 'k, 'dl, 'w) link \<Rightarrow> bool \<times> ('p, 'd, 'h, 'hint, 'k, 'dl, 'w) link" where
  "proactive_refresh te now_ms call l =
     (if should_refresh_token now_ms (lk_client l)
      then case take_from_client (initiate_token_refresh now_ms call) l of
             (None, l') \<Rightarrow> (True, l')
           | (Some token, l') \<Rightarrow> encode_and_send te (OTokenRefresh token) l'
      else (True, l))"

definition ping_tick :: "('desc, 'meta, 'w) transport_env \<Rightarrow> instant \<Rightarrow> u64 \<Rightarrow> ('p \<Rightarrow> provider_reply) \<Rightarrow> ('p, 'd, 'h, 'hint, 'k, 'dl, 'w) link \<Rightarrow> bool \<times> ('p, 'd, 'h, 'hint, 'k, 'dl, 'w) link" where
  "ping_tick te now now_ms call l =
     (if cl_state (lk_client l) \<noteq> Connected then (True, l)
      else let l = on_client (\<lambda>c. case cleanup_stale_and_record now STALE_IN_FLIGHT_TIMEOUT (cl_flow c, cl_metrics c) of
                 (fc, m) \<Rightarrow> c\<lparr>cl_flow := fc, cl_metrics := m\<rparr>) l
           in and_then (proactive_refresh te now_ms call l)
                (\<lambda>l. if \<not> te_encodes te (OPing now_ms) then (False, l) else link_send te (OPing now_ms) l))"

subsection \<open>Dispatch of inbound frames\<close>

datatype ('hint, 'am, 'reason, 'ea) in_frame =
    IDeltaAck delta_ack_msg
  | IDeltaAckUndecodable
  | IRowPush row_push_msg
  | IDeltaReject "'hint delta_reject_msg"
  | ITokenRefreshAck bool
  | IShapeSnapshot string bytes u64
  | IShapeDelta string string bytes u64
  | IVectorClockSync "(string, u64) hmap"
  | IDefinitionSync bytes
  | ICollectionSchema bytes
  | IArrayDelta 'am
  | IArrayDeltaBatch 'am
  | IArraySnapshot 'am
  | IArraySnapshotChunk 'am
  | IArrayReject "'reason array_reject_msg"
  | IEngineAck 'ea
  | IPingPong bool u64
  | IIgnored

text \<open>\<open>IIgnored\<close> stands for a frame that is only logged: an unhandled type, a re-sync request of
  Origin, an advisory refusal, or a body that does not decode.\<close>

record ('d, 'hint, 'k, 'reason, 'ea, 'p, 'h, 'dl) dispatch_env =
  de_client :: "('d, 'hint) client_env"
  de_collection :: "'d \<Rightarrow> string option"
  de_is_peer_id_collision :: "'hint \<Rightarrow> bool"
  de_hlc :: "'k hlc_api"
  de_class :: "'reason \<Rightarrow> array_reject_class"
  de_engine_ack :: "'ea \<Rightarrow> ('p, 'd, 'h, 'hint, 'k) sync_client \<times> 'dl \<Rightarrow> ('p, 'd, 'h, 'hint, 'k) sync_client \<times> 'dl"
  de_ping_pong :: "bool \<Rightarrow> u64 \<Rightarrow> 'k array_push_window \<times> 'dl \<Rightarrow> 'k array_push_window \<times> 'dl"

definition dispatch_delta_ack ::
  "('dl, 'hint, 'meta, 'am, 'reason) sync_delegate \<Rightarrow> (rat \<Rightarrow> rat) \<Rightarrow> instant \<Rightarrow> delta_ack_msg \<Rightarrow> ('p, 'd, 'h, 'hint, 'k) sync_client \<times> 'dl \<Rightarrow> ('p, 'd, 'h, 'hint, 'k) sync_client \<times> 'dl" where
  "dispatch_delta_ack dg rnd now ack = (\<lambda>(c, dl).
     let dl' = (case da_status ack of
                  Applied \<Rightarrow> dg_acknowledge dg (da_mutation_id ack) dl
                | Duplicate \<Rightarrow> dg_acknowledge dg (da_mutation_id ack) dl
                | Rejected _ \<Rightarrow> dg_acknowledge dg (da_mutation_id ack) dl
                | _ \<Rightarrow> dl);
         c' = (if da_status ack = Fenced then set_fenced c else c)
     in (handle_delta_ack rnd now ack c', dl'))"

definition dispatch_row_push ::
  "('dl, 'hint, 'meta, 'am, 'reason) sync_delegate \<Rightarrow> row_push_msg \<Rightarrow> ('p, 'd, 'h, 'hint, 'k) sync_client \<times> 'dl \<Rightarrow> ('p, 'd, 'h, 'hint, 'k) sync_client \<times> 'dl" where
  "dispatch_row_push dg msg = (\<lambda>(c, dl).
     case admit_row_push (rp_peer_id msg) (rp_collection msg) (rp_sequence msg) c of
       (False, c') \<Rightarrow> (c', dl)
     | (True, c') \<Rightarrow>
         (case dg_apply_remote_row dg msg dl of
            (None, dl') \<Rightarrow> (c', dl')
          | (Some e, dl') \<Rightarrow>
              (c'\<lparr>cl_pending_row_push_rejects :=
                 queue_row_push_reject msg e (cl_pending_row_push_rejects c')\<rparr>, dl')))"

definition dispatch_delta_reject ::
  "('dl, 'hint, 'meta, 'am, 'reason) sync_delegate \<Rightarrow> ('hint \<Rightarrow> hint_kind) \<Rightarrow> ('hint \<Rightarrow> bool) \<Rightarrow> 'hint delta_reject_msg \<Rightarrow> ('p, 'd, 'h, 'hint, 'k) sync_client \<times> 'dl \<Rightarrow> ('p, 'd, 'h, 'hint, 'k) sync_client \<times> 'dl" where
  "dispatch_delta_reject dg kind_of is_collision reject = (\<lambda>(c, dl).
     let denied = (case dr_compensation reject of None \<Rightarrow> False | Some hint \<Rightarrow> kind_of hint = PermissionDenied);
         c = (if denied \<and> sc_token_provider (cl_config c) \<noteq> None then pause_for_auth c else c);
         dl = (case dr_compensation reject of
                 None \<Rightarrow> dg_reject dg (dr_mutation_id reject) dl
               | Some hint \<Rightarrow>
                   if is_collision hint then dg_rotate_peer_id dg dl
                   else dg_reject_with_policy dg (dr_mutation_id reject) hint dl)
     in (handle_delta_reject kind_of reject c, dl))"

definition dispatch_shape_snapshot ::
  "('dl, 'hint, 'meta, 'am, 'reason) sync_delegate \<Rightarrow> ('d \<Rightarrow> string option) \<Rightarrow> string \<Rightarrow> bytes \<Rightarrow> u64 \<Rightarrow> ('p, 'd, 'h, 'hint, 'k) sync_client \<times> 'dl \<Rightarrow> ('p, 'd, 'h, 'hint, 'k) sync_client \<times> 'dl" where
  "dispatch_shape_snapshot dg collection_of shape_id data snapshot_lsn = (\<lambda>(c, dl).
     let dl' = (if data = [] then dl
                else case Option.bind (shape_get (cl_shapes c) shape_id) (\<lambda>sub. collection_of (sub_definition sub)) of
                       None \<Rightarrow> dl
                     | Some collection \<Rightarrow> dg_import_remote dg collection data dl)
     in (handle_shape_snapshot shape_id snapshot_lsn c, dl'))"

definition dispatch_shape_delta ::
  "('dl, 'hint, 'meta, 'am, 'reason) sync_delegate \<Rightarrow> u64 \<Rightarrow> string \<Rightarrow> string \<Rightarrow> bytes \<Rightarrow> u64 \<Rightarrow> ('p, 'd, 'h, 'hint, 'k) sync_client \<times> 'dl \<Rightarrow> ('p, 'd, 'h, 'hint, 'k) sync_client \<times> 'dl" where
  "dispatch_shape_delta dg now_ms shape_id collection delta lsn = (\<lambda>(c, dl).
     let c = c\<lparr>cl_metrics := record_received now_ms (cl_metrics c)\<rparr>;
         c = (case check_sequence_gap shape_id lsn c of
                (None, c') \<Rightarrow> c'
              | (Some resync, c') \<Rightarrow> set_pending_resync resync c');
         dl' = (if delta = [] then dl else dg_import_remote dg collection delta dl)
     in (handle_shape_delta shape_id lsn c, dl'))"

definition with_array_ack :: "('p, 'd, 'h, 'hint, 'k) sync_client \<Rightarrow> array_ack_msg option \<times> 'dl \<Rightarrow> ('p, 'd, 'h, 'hint, 'k) sync_client \<times> 'dl" where
  "with_array_ack c = (\<lambda>(ack, dl). (case ack of None \<Rightarrow> c | Some a \<Rightarrow> set_pending_array_ack a c, dl))"

definition handle_array_reject ::
  "('dl, 'hint, 'meta, 'am, 'reason) sync_delegate \<Rightarrow> 'k hlc_api \<Rightarrow> ('reason \<Rightarrow> array_reject_class) \<Rightarrow> 'reason array_reject_msg \<Rightarrow>
   ('p, 'd, 'h, 'hint, 'k) sync_client \<times> 'dl \<Rightarrow> ('p, 'd, 'h, 'hint, 'k) sync_client \<times> 'dl" where
  "handle_array_reject dg hlc class_of msg = (\<lambda>(c, dl).
     let c = c\<lparr>cl_array_push := record_reject hlc class_of msg (cl_array_push c)\<rparr>
     in case dg_handle_array_reject dg msg dl of
          (None, dl') \<Rightarrow> (c, dl')
        | (Some request, dl') \<Rightarrow> (queue_array_catchup request c, dl'))"

fun dispatch_frame ::
  "('dl, 'hint, 'meta, 'am, 'reason) sync_delegate \<Rightarrow> ('d, 'hint, 'k, 'reason, 'ea, 'p, 'h, 'dl) dispatch_env \<Rightarrow> instant \<Rightarrow> u64 \<Rightarrow>
   ('hint, 'am, 'reason, 'ea) in_frame \<Rightarrow> ('p, 'd, 'h, 'hint, 'k) sync_client \<times> 'dl \<Rightarrow> ('p, 'd, 'h, 'hint, 'k) sync_client \<times> 'dl" where
  "dispatch_frame dg de now now_ms (IDeltaAck ack) x = dispatch_delta_ack dg (ce_rnd (de_client de)) now ack x"
| "dispatch_frame dg de now now_ms IDeltaAckUndecodable (c, dl) =
     (c\<lparr>cl_metrics := record_stale_timeouts 1 (cl_metrics c)\<rparr>, dl)"
| "dispatch_frame dg de now now_ms (IRowPush msg) x = dispatch_row_push dg msg x"
| "dispatch_frame dg de now now_ms (IDeltaReject reject) x =
     dispatch_delta_reject dg (ce_kind (de_client de)) (de_is_peer_id_collision de) reject x"
| "dispatch_frame dg de now now_ms (ITokenRefreshAck success) (c, dl) = (handle_token_refresh_ack now_ms success c, dl)"
| "dispatch_frame dg de now now_ms (IShapeSnapshot shape_id data lsn) x =
     dispatch_shape_snapshot dg (de_collection de) shape_id data lsn x"
| "dispatch_frame dg de now now_ms (IShapeDelta shape_id collection delta lsn) x =
     dispatch_shape_delta dg now_ms shape_id collection delta lsn x"
| "dispatch_frame dg de now now_ms (IVectorClockSync clocks) (c, dl) = (handle_clock_sync clocks c, dl)"
| "dispatch_frame dg de now now_ms (IDefinitionSync msg) (c, dl) = (c, dg_import_definition dg msg dl)"
| "dispatch_frame dg de now now_ms (ICollectionSchema msg) (c, dl) = (c, dg_import_collection_schema dg msg dl)"
| "dispatch_frame dg de now now_ms (IArrayDelta msg) (c, dl) = with_array_ack c (dg_handle_array_delta dg msg dl)"
| "dispatch_frame dg de now now_ms (IArrayDeltaBatch msg) (c, dl) = with_array_ack c (dg_handle_array_delta_batch dg msg dl)"
| "dispatch_frame dg de now now_ms (IArraySnapshot msg) (c, dl) = (c, dg_handle_array_snapshot dg msg dl)"
| "dispatch_frame dg de now now_ms (IArraySnapshotChunk msg) (c, dl) =
     with_array_ack c (dg_handle_array_snapshot_chunk dg msg dl)"
| "dispatch_frame dg de now now_ms (IArrayReject msg) x = handle_array_reject dg (de_hlc de) (de_class de) msg x"
| "dispatch_frame dg de now now_ms (IEngineAck ea) x = de_engine_ack de ea x"
| "dispatch_frame dg de now now_ms (IPingPong is_pong timestamp_ms) (c, dl) =
     (case de_ping_pong de is_pong timestamp_ms (cl_array_push c, dl) of (w, dl') \<Rightarrow> (c\<lparr>cl_array_push := w\<rparr>, dl'))"
| "dispatch_frame dg de now now_ms IIgnored x = x"

text \<open>The receive loop reads WebSocket messages until the stream closes.\<close>

datatype 'f ws_message = WsBinary "'f option" | WsClose | WsOther | WsError

fun receive_loop :: "('f \<Rightarrow> 'a \<Rightarrow> 'a) \<Rightarrow> 'f ws_message list \<Rightarrow> 'a \<Rightarrow> unit lite_result \<times> 'a" where
  "receive_loop handle [] x = (Inr (), x)"
| "receive_loop handle (WsError # msgs) x = (Inl Sync, x)"
| "receive_loop handle (WsClose # msgs) x = (Inr (), x)"
| "receive_loop handle (WsOther # msgs) x = receive_loop handle msgs x"
| "receive_loop handle (WsBinary None # msgs) x = receive_loop handle msgs x"
| "receive_loop handle (WsBinary (Some frame) # msgs) x = receive_loop handle msgs (handle frame x)"

subsection \<open>Connecting\<close>

definition connect_reset :: "('dl, 'hint, 'meta, 'am, 'reason) sync_delegate \<Rightarrow> ('p, 'd, 'h, 'hint, 'k) sync_client \<times> 'dl \<Rightarrow> ('p, 'd, 'h, 'hint, 'k) sync_client \<times> 'dl" where
  "connect_reset dg = (\<lambda>(c, dl).
     let c = client_load_producer_state (dg_load_producer_state dg dl) c;
         c = clear_fenced (reset_flow_control (reset_sequence_tracking c));
         c = c\<lparr>cl_array_push := window_reset (cl_array_push c)\<rparr>
     in (c, dg_clear_engine_in_flight dg dl))"

text \<open>What the network gives for one attempt, up to the handshake acknowledgement: a failure at
  some point, or the decoded acknowledgement.\<close>

definition connect_handshake ::
  "('dl, 'hint, 'meta, 'am, 'reason) sync_delegate \<Rightarrow> handshake_ack_msg option \<Rightarrow> ('p, 'd, 'h, 'hint, 'k) sync_client \<times> 'dl \<Rightarrow> unit lite_result \<times> ('p, 'd, 'h, 'hint, 'k) sync_client \<times> 'dl" where
  "connect_handshake dg reply = (\<lambda>(c, dl).
     case reply of
       None \<Rightarrow> (Inl Sync, c, dl)
     | Some ack \<Rightarrow>
         (case handle_handshake_ack ack c of
            (False, c') \<Rightarrow> (Inl Sync, c', dl)
          | (True, c') \<Rightarrow>
              if ha_fork_detected ack then (Inl Sync, c', dg_regenerate_identity dg dl)
              else let dl' = dg_persist_producer_state dg (ha_producer_id ack) (ha_accepted_epoch ack) dl
                   in (Inr (), reset_array_catchups (dg_begin_array_catchup dg dl') c', dl')))"

text \<open>\<open>run_sync_loop\<close> between two attempts: \<open>ended\<close> is the result of the attempt. The result is
  the next attempt number and how long to sleep.\<close>

definition u32_sat_succ :: "u32 \<Rightarrow> u32" where
  "u32_sat_succ n = (if n = - 1 then n else n + 1)"

definition run_sync_retry :: "unit lite_result \<Rightarrow> u32 \<Rightarrow> ('p, 'd, 'h, 'hint, 'k) sync_client \<Rightarrow> u32 \<times> duration \<times> ('p, 'd, 'h, 'hint, 'k) sync_client" where
  "run_sync_retry ended attempt c =
     (let attempt = (case ended of Inr _ \<Rightarrow> 0 | Inl _ \<Rightarrow> attempt);
          c = set_state Reconnecting c
      in (u32_sat_succ attempt, backoff_duration attempt (cl_config c), c))"

subsection \<open>A connected session\<close>

text \<open>The push and the ping loop end when an iteration breaks; only the next connection starts
  them again.\<close>

record ('p, 'd, 'h, 'hint, 'k, 'dl, 'w) sync_session =
  se_link :: "('p, 'd, 'h, 'hint, 'k, 'dl, 'w) link"
  se_push_alive :: bool
  se_ping_alive :: bool

datatype ('p, 'dl, 'hint, 'am, 'reason, 'ea) sync_event =
    EvPushTick instant u64 "'p \<Rightarrow> provider_reply" "'dl \<Rightarrow> 'dl"
  | EvPingTick instant u64 "'p \<Rightarrow> provider_reply"
  | EvFrame instant u64 "('hint, 'am, 'reason, 'ea) in_frame"

fun sync_step ::
  "('dl, 'hint, 'meta, 'am, 'reason) sync_delegate \<Rightarrow> ('desc, 'meta, 'w) transport_env \<Rightarrow> ('d, 'hint, 'k, 'reason, 'ea, 'p, 'h, 'dl) dispatch_env \<Rightarrow> (('p, 'd, 'h, 'hint, 'k, 'dl, 'w) link \<Rightarrow> bool \<times> ('p, 'd, 'h, 'hint, 'k, 'dl, 'w) link) list \<Rightarrow>
   ('p, 'dl, 'hint, 'am, 'reason, 'ea) sync_event \<Rightarrow> ('p, 'd, 'h, 'hint, 'k, 'dl, 'w) sync_session \<Rightarrow> ('p, 'd, 'h, 'hint, 'k, 'dl, 'w) sync_session" where
  "sync_step dg te de engines (EvPushTick now now_ms call writes) s =
     (if \<not> se_push_alive s then s
      else case delta_push_tick dg te (ce_crc32c (de_client de)) engines now now_ms call writes (se_link s) of
             (alive, l) \<Rightarrow> s\<lparr>se_link := l, se_push_alive := alive\<rparr>)"
| "sync_step dg te de engines (EvPingTick now now_ms call) s =
     (if \<not> se_ping_alive s then s
      else case ping_tick te now now_ms call (se_link s) of
             (alive, l) \<Rightarrow> s\<lparr>se_link := l, se_ping_alive := alive\<rparr>)"
| "sync_step dg te de engines (EvFrame now now_ms frame) s =
     (case dispatch_frame dg de now now_ms frame (lk_client (se_link s), lk_delegate (se_link s)) of
        (c, dl) \<Rightarrow> s\<lparr>se_link := (se_link s)\<lparr>lk_client := c, lk_delegate := dl\<rparr>\<rparr>)"

subsection \<open>What the pieces send\<close>

definition socket_law :: "('desc, 'meta, 'w) transport_env \<Rightarrow> ('w \<Rightarrow> 'desc out_frame list) \<Rightarrow> bool" where
  "socket_law te sent \<longleftrightarrow>
     (\<forall>f w ok w'. te_send te f w = (ok, w') \<longrightarrow>
        sent w' = sent w @ [f] \<or> (\<not> ok \<and> sent w' = sent w))"

lemma link_send_True:
  assumes "link_send te frame l = (True, l')" "socket_law te sent"
  shows "sent (lk_sink l') = sent (lk_sink l) @ [frame] \<and> lk_client l' = lk_client l \<and> lk_delegate l' = lk_delegate l"
  using assms by (force simp: link_send_def socket_law_def split: prod.splits)

lemma link_send_sent:
  assumes "link_send te frame l = (ok, l')" "socket_law te sent"
  shows "sent (lk_sink l') = sent (lk_sink l) @ [frame] \<or> sent (lk_sink l') = sent (lk_sink l)"
  using assms by (force simp: link_send_def socket_law_def split: prod.splits)

lemma and_then_True: "and_then r f = (True, y) \<longleftrightarrow> (\<exists>x. r = (True, x) \<and> f x = (True, y))"
  by (auto simp: and_then_def split: prod.splits bool.splits)

definition unannounceable :: "('dl, 'hint, 'meta, 'am, 'reason) sync_delegate \<Rightarrow> ('desc, 'meta, 'w) transport_env \<Rightarrow> ('p, 'd, 'h, 'hint, 'k, 'dl, 'w) link \<Rightarrow> string \<Rightarrow> bool" where
  "unannounceable dg te l name =
     (case dg_get_collection_meta dg name (lk_delegate l) of
        None \<Rightarrow> True
      | Some meta \<Rightarrow>
          (case te_descriptor te meta (sc_tenant_id (cl_config (lk_client l))) of
             None \<Rightarrow> True
           | Some descriptor \<Rightarrow> \<not> te_encodes te (OCollectionSchema name descriptor)))"

text \<open>What announcing does: schema frames go out, the collections they name are recorded, and
  the names asked for are then recorded or have no schema frame.\<close>

definition announced_by :: "('dl, 'hint, 'meta, 'am, 'reason) sync_delegate \<Rightarrow> ('desc, 'meta, 'w) transport_env \<Rightarrow> ('w \<Rightarrow> 'desc out_frame list) \<Rightarrow> string set \<Rightarrow> ('p, 'd, 'h, 'hint, 'k, 'dl, 'w) link \<Rightarrow> ('p, 'd, 'h, 'hint, 'k, 'dl, 'w) link \<Rightarrow> bool" where
  "announced_by dg te sent names l l' \<longleftrightarrow>
     (\<exists>schemas. sent (lk_sink l') = sent (lk_sink l) @ map (\<lambda>(n, d). OCollectionSchema n d) schemas \<and>
        cl_announced_collections (lk_client l') = cl_announced_collections (lk_client l) \<union> fst ` set schemas) \<and>
     lk_client l' = (lk_client l)\<lparr>cl_announced_collections := cl_announced_collections (lk_client l')\<rparr> \<and>
     lk_delegate l' = lk_delegate l \<and>
     (\<forall>n\<in>names. n \<in> cl_announced_collections (lk_client l') \<or> unannounceable dg te l n)"

lemma announced_by_same: "(\<And>n. n \<in> names \<Longrightarrow> n \<in> cl_announced_collections (lk_client l) \<or> unannounceable dg te l n) \<Longrightarrow>
  announced_by dg te sent names l l"
  unfolding announced_by_def by (auto intro!: exI [of _ "[]"])

lemma ensure_announced:
  assumes "ensure_collection_announced dg te name l = (True, l')" "socket_law te sent"
  shows "announced_by dg te sent {name} l l'"
proof (cases "name \<in> cl_announced_collections (lk_client l) \<or> unannounceable dg te l name")
  case True
  then have "l' = l"
    using assms(1) by (auto simp: ensure_collection_announced_def unannounceable_def split: if_splits option.splits)
  then show ?thesis
    using True by (auto intro: announced_by_same)
next
  case False
  then obtain d l1 where l1: "link_send te (OCollectionSchema name d) l = (True, l1)"
      "l' = on_client (\<lambda>c. c\<lparr>cl_announced_collections := insert name (cl_announced_collections c)\<rparr>) l1"
    using assms(1)
    by (auto simp: ensure_collection_announced_def unannounceable_def split: if_splits option.splits prod.splits bool.splits)
  show ?thesis
    using link_send_True [OF l1(1) assms(2)] unfolding announced_by_def l1(2) on_client_def
    by (auto intro!: exI [of _ "[(name, d)]"])
qed

lemma announced_by_trans:
  assumes "announced_by dg te sent A l l1" "announced_by dg te sent B l1 l2"
  shows "announced_by dg te sent (A \<union> B) l l2"
proof -
  obtain s1 s2 where s: "sent (lk_sink l1) = sent (lk_sink l) @ map (\<lambda>(n, d). OCollectionSchema n d) s1"
      "cl_announced_collections (lk_client l1) = cl_announced_collections (lk_client l) \<union> fst ` set s1"
      "sent (lk_sink l2) = sent (lk_sink l1) @ map (\<lambda>(n, d). OCollectionSchema n d) s2"
      "cl_announced_collections (lk_client l2) = cl_announced_collections (lk_client l1) \<union> fst ` set s2"
    using assms unfolding announced_by_def by blast
  have c1: "lk_client l1 = (lk_client l)\<lparr>cl_announced_collections := cl_announced_collections (lk_client l1)\<rparr>"
    and c2: "lk_client l2 = (lk_client l1)\<lparr>cl_announced_collections := cl_announced_collections (lk_client l2)\<rparr>"
    and d: "lk_delegate l1 = lk_delegate l" "lk_delegate l2 = lk_delegate l1"
    using assms unfolding announced_by_def by blast+
  have cfg: "cl_config (lk_client l1) = cl_config (lk_client l)"
    by (subst c1) simp
  have un: "unannounceable dg te l1 n = unannounceable dg te l n" for n
    unfolding unannounceable_def d(1) cfg ..
  have "lk_client l2 = (lk_client l)\<lparr>cl_announced_collections := cl_announced_collections (lk_client l2)\<rparr>"
    by (subst c2, subst c1) simp
  then show ?thesis
    using assms s d unfolding announced_by_def un
    by (intro conjI exI [of _ "s1 @ s2"]) auto
qed

lemma announce_all_announced:
  "announce_all dg te names l = (True, l') \<Longrightarrow> socket_law te sent \<Longrightarrow> announced_by dg te sent (set names) l l'"
proof (induction names arbitrary: l)
  case Nil
  then show ?case by (auto intro: announced_by_same)
next
  case (Cons name names)
  then obtain l1 where l1: "ensure_collection_announced dg te name l = (True, l1)" "announce_all dg te names l1 = (True, l')"
    by (auto simp: and_then_True)
  show ?case
    using announced_by_trans [OF ensure_announced [OF l1(1) Cons.prems(2)] Cons.IH [OF l1(2) Cons.prems(2)]] by simp
qed

lemma schemas_announced:
  assumes "push_collection_schemas dg te l = (True, l')" "socket_law te sent"
  shows "announced_by dg te sent (pd_collection ` set (dg_pending_deltas dg (lk_delegate l))) l l'"
proof (cases "dg_pending_deltas dg (lk_delegate l) = []")
  case True
  then show ?thesis
    using assms(1) by (auto simp: push_collection_schemas_def intro: announced_by_same)
next
  case False
  then show ?thesis
    using announce_all_announced [OF _ assms(2)] assms(1) by (fastforce simp: push_collection_schemas_def)
qed

lemma send_deltas_sent:
  "send_deltas te msgs l = (True, l') \<Longrightarrow> socket_law te sent \<Longrightarrow>
   sent (lk_sink l') = sent (lk_sink l) @ map ODelta msgs \<and> lk_client l' = lk_client l \<and> lk_delegate l' = lk_delegate l"
proof (induction msgs arbitrary: l)
  case (Cons msg msgs)
  then obtain l1 where l1: "link_send te (ODelta msg) l = (True, l1)" "send_deltas te msgs l1 = (True, l')"
    by (auto split: if_splits prod.splits bool.splits)
  show ?case
    using link_send_True [OF l1(1) Cons.prems(2)] Cons.IH [OF l1(2) Cons.prems(2)] by simp
qed simp

text \<open>The message of a pending delta: identity and payload as queued, the stream number kept once
  it has one.\<close>

definition stamped :: "pending_delta \<Rightarrow> delta_push_msg \<Rightarrow> bool" where
  "stamped d m \<longleftrightarrow>
     dp_mutation_id m = pd_mutation_id d \<and> dp_collection m = pd_collection d \<and>
     dp_document_id m = pd_document_id d \<and> dp_delta m = pd_delta_bytes d \<and> (pd_seq d \<noteq> 0 \<longrightarrow> dp_seq m = pd_seq d)"

lemma stamp_deltas_stamped:
  assumes "stamp_deltas dg seqs producer_id epoch msgs dl = (out, dl')"
    and "list_all2 (\<lambda>d m. dp_mutation_id m = pd_mutation_id d \<and> dp_collection m = pd_collection d \<and>
           dp_document_id m = pd_document_id d \<and> dp_delta m = pd_delta_bytes d \<and>
           hm_get seqs (pd_mutation_id d) = Some (pd_seq d)) ds msgs"
  shows "list_all2 stamped ds out"
  using assms(2,1)
  by (induction ds msgs arbitrary: dl out rule: list_all2_induct)
    (auto simp: stamped_def split: option.splits prod.splits if_splits)

lemma build_pushes_shape:
  assumes "build_delta_pushes crc32c now_ms pending peer_id c = (msgs, c')" "distinct (map pd_mutation_id pending)"
  shows "cl_flow c' = cl_flow c" "cl_announced_collections c' = cl_announced_collections c"
    and "list_all2 (\<lambda>d m. dp_mutation_id m = pd_mutation_id d \<and> dp_collection m = pd_collection d \<and>
           dp_document_id m = pd_document_id d \<and> dp_delta m = pd_delta_bytes d \<and>
           hm_get (hm_collect (map (\<lambda>d. (pd_mutation_id d, pd_seq d)) pending)) (pd_mutation_id d) = Some (pd_seq d))
         (take (next_batch_size (cl_flow c)) pending) msgs"
proof -
  let ?seqs = "map (\<lambda>d. (pd_mutation_id d, pd_seq d)) pending"
  have dist: "distinct (map fst ?seqs)"
    using assms(2) by (simp add: comp_def)
  have "hm_get (hm_collect ?seqs) (pd_mutation_id d) = Some (pd_seq d)" if "d \<in> set pending" for d
    using that map_of_eq_Some_iff [OF dist] by (simp add: hm_collect_distinct [OF dist])
  then show "list_all2 (\<lambda>d m. dp_mutation_id m = pd_mutation_id d \<and> dp_collection m = pd_collection d \<and>
           dp_document_id m = pd_document_id d \<and> dp_delta m = pd_delta_bytes d \<and>
           hm_get (hm_collect ?seqs) (pd_mutation_id d) = Some (pd_seq d))
         (take (next_batch_size (cl_flow c)) pending) msgs"
    using assms(1) by (auto simp: build_delta_pushes_def Let_def list_all2_conv_all_nth in_set_conv_nth split: if_splits)
qed (use assms(1) in \<open>auto simp: build_delta_pushes_def Let_def split: if_splits\<close>)

definition link_flow :: "('p, 'd, 'h, 'hint, 'k, 'dl, 'w) link \<Rightarrow> flow_controller" where
  "link_flow l = cl_flow (lk_client l)"

lemma push_crdt_cases:
  assumes "push_crdt_deltas dg te crc32c now now_ms l = (True, l')" "socket_law te sent"
    and "distinct (map pd_mutation_id (dg_pending_deltas dg (lk_delegate l)))"
  shows "\<exists>deltas. sent (lk_sink l') = sent (lk_sink l) @ map ODelta deltas \<and>
     list_all2 stamped (take (next_batch_size (link_flow l)) (dg_pending_deltas dg (lk_delegate l))) deltas \<and>
     cl_announced_collections (lk_client l') = cl_announced_collections (lk_client l) \<and>
     fc_config (link_flow l') = fc_config (link_flow l) \<and> fc_current_batch_size (link_flow l') = fc_current_batch_size (link_flow l) \<and>
     fc_in_flight (link_flow l') = fold (\<lambda>m. hm_insert (dp_mutation_id m) now) deltas (fc_in_flight (link_flow l))"
proof (cases "dg_pending_deltas dg (lk_delegate l) = []")
  case True
  then show ?thesis
    using assms(1) by (auto simp: push_crdt_deltas_def intro!: exI [of _ "[]"])
next
  case False
  let ?pending = "dg_pending_deltas dg (lk_delegate l)"
  let ?l1 = "on_client (update_pending_stats (length ?pending) (sum_list (map (length \<circ> pd_delta_bytes) ?pending))) l"
  have flow1: "next_batch_size (cl_flow (lk_client ?l1)) = next_batch_size (link_flow l)"
      "fc_config (cl_flow (lk_client ?l1)) = fc_config (link_flow l)"
      "fc_current_batch_size (cl_flow (lk_client ?l1)) = fc_current_batch_size (link_flow l)"
      "fc_in_flight (cl_flow (lk_client ?l1)) = fc_in_flight (link_flow l)"
    by (simp_all add: on_client_def update_pending_stats_def update_pending_def next_batch_size_def link_flow_def)
  have l1: "lk_sink ?l1 = lk_sink l" "lk_delegate ?l1 = lk_delegate l"
      "cl_announced_collections (lk_client ?l1) = cl_announced_collections (lk_client l)"
    by (simp_all add: on_client_def update_pending_stats_def)
  obtain msgs c where msgs: "build_delta_pushes crc32c now_ms ?pending (li_peer_id (dg_sync_identity dg (lk_delegate l))) (lk_client ?l1) = (msgs, c)"
    by fastforce
  note b = build_pushes_shape [OF msgs assms(3)]
  show ?thesis
  proof (cases "msgs = []")
    case True
    then have "l' = ?l1\<lparr>lk_client := c\<rparr>"
      using assms(1) False msgs l1 by (simp add: push_crdt_deltas_def take_from_client_def Let_def)
    then show ?thesis
      using b True l1 flow1 by (auto simp: link_flow_def intro!: exI [of _ "[]"])
  next
    case sends: False
    obtain out dl where out: "stamp_deltas dg (hm_collect (map (\<lambda>d. (pd_mutation_id d, pd_seq d)) ?pending))
        (client_producer_id c) (client_accepted_epoch c) msgs (lk_delegate l) = (out, dl)"
      by fastforce
    obtain l2 where l2: "send_deltas te out (?l1\<lparr>lk_client := c, lk_delegate := dl\<rparr>) = (True, l2)"
        "l' = on_client (client_record_push now now_ms (map dp_mutation_id out)) l2"
      using assms(1) False sends msgs out l1
      by (auto simp: push_crdt_deltas_def take_from_client_def Let_def and_then_True)
    have "list_all2 stamped (take (next_batch_size (link_flow l)) ?pending) out"
      using stamp_deltas_stamped [OF out b(3)] flow1(1) by simp
    then show ?thesis
      using send_deltas_sent [OF l2(1) assms(2)] b(1,2) l1 flow1
      by (auto simp: l2(2) on_client_def client_record_push_def fc_record_push_def link_flow_def fold_map comp_def
          intro!: exI [of _ out])
  qed
qed

lemma stamped_mids: "list_all2 stamped ds ms \<Longrightarrow> map dp_mutation_id ms = map pd_mutation_id ds"
  by (induction rule: list_all2_induct) (simp_all add: stamped_def)

lemma fold_insert_grows: "length m \<le> length (fold (\<lambda>x. hm_insert (f x) v) xs m)"
proof (induction xs arbitrary: m)
  case (Cons x xs)
  show ?case
    using Cons.IH [of "hm_insert (f x) v m"] by (simp add: length_hm_insert split: if_splits)
qed simp

lemma list_all2_right: "list_all2 P xs ys \<Longrightarrow> y \<in> set ys \<Longrightarrow> \<exists>x\<in>set xs. P x y"
  by (induction rule: list_all2_induct) auto

subsection \<open>A dead push loop\<close>

definition is_keepalive :: "'desc out_frame \<Rightarrow> bool" where
  "is_keepalive f = (case f of OPing _ \<Rightarrow> True | OTokenRefresh _ \<Rightarrow> True | _ \<Rightarrow> False)"

definition data_sent :: "('w \<Rightarrow> 'desc out_frame list) \<Rightarrow> ('p, 'd, 'h, 'hint, 'k, 'dl, 'w) link \<Rightarrow> 'desc out_frame list" where
  "data_sent sent l = filter (\<lambda>f. \<not> is_keepalive f) (sent (lk_sink l))"

lemma encode_and_send_keepalive:
  assumes "encode_and_send te frame l = (ok, l')" "socket_law te sent" "is_keepalive frame"
  shows "data_sent sent l' = data_sent sent l"
  using assms link_send_sent [OF _ assms(2)]
  by (fastforce simp: encode_and_send_def data_sent_def split: if_splits)

lemma take_from_client_sink: "take_from_client f l = (x, l') \<Longrightarrow> lk_sink l' = lk_sink l"
  by (auto simp: take_from_client_def split: prod.splits)

lemma reactive_refresh_keepalive:
  fixes l :: "('p, 'd, 'h, 'hint, 'k, 'dl, 'w) link"
  assumes "socket_law te sent"
  shows "data_sent sent (reactive_refresh te now_ms call l) = data_sent sent l"
proof -
  have "data_sent sent (snd (encode_and_send te (OTokenRefresh token) l')) = data_sent sent l'"
    for token and l' :: "('p, 'd, 'h, 'hint, 'k, 'dl, 'w) link"
    using encode_and_send_keepalive [OF _ assms, of "OTokenRefresh token" l'] by (simp add: is_keepalive_def prod_eq_iff)
  moreover have "data_sent sent l' = data_sent sent l"
    if "take_from_client (initiate_token_refresh now_ms call) l = (x, l')" for x l'
    using take_from_client_sink [OF that] by (simp add: data_sent_def)
  ultimately show ?thesis
    by (auto simp: reactive_refresh_def split: prod.splits option.splits)
qed

lemma ping_tick_keepalive:
  fixes l :: "('p, 'd, 'h, 'hint, 'k, 'dl, 'w) link"
  assumes "ping_tick te now now_ms call l = (alive, l')" "socket_law te sent"
  shows "data_sent sent l' = data_sent sent l"
proof -
  have pro: "data_sent sent l2 = data_sent sent l1" if "proactive_refresh te now_ms call l1 = (ok, l2)"
    for ok and l1 l2 :: "('p, 'd, 'h, 'hint, 'k, 'dl, 'w) link"
    using that encode_and_send_keepalive [OF _ assms(2)] take_from_client_sink
    by (fastforce simp: proactive_refresh_def is_keepalive_def data_sent_def split: if_splits prod.splits option.splits)
  have ping: "data_sent sent l2 = data_sent sent l1" if "link_send te (OPing t) l1 = (ok, l2)"
    for ok t and l1 l2 :: "('p, 'd, 'h, 'hint, 'k, 'dl, 'w) link"
    using link_send_sent [OF that assms(2)] by (auto simp: data_sent_def is_keepalive_def)
  have "data_sent sent (on_client f l) = data_sent sent l" for f
    by (simp add: data_sent_def on_client_def)
  then show ?thesis
    using assms(1) pro ping
    by (fastforce simp: ping_tick_def Let_def and_then_def split: if_splits prod.splits bool.splits)
qed

lemma dead_step:
  assumes "\<not> se_push_alive s" "socket_law te sent"
  shows "\<not> se_push_alive (sync_step dg te de engines e s) \<and>
    data_sent sent (se_link (sync_step dg te de engines e s)) = data_sent sent (se_link s)"
proof (cases e)
  case (EvPingTick now now_ms call)
  obtain alive l where l: "ping_tick te now now_ms call (se_link s) = (alive, l)"
    by fastforce
  show ?thesis
    using assms(1) EvPingTick l ping_tick_keepalive [OF l assms(2)] by simp
qed (use assms in \<open>auto simp: data_sent_def split: prod.splits\<close>)

lemma dead_run:
  assumes "\<not> se_push_alive s" "socket_law te sent"
  shows "\<not> se_push_alive (fold (sync_step dg te de engines) es s) \<and>
    data_sent sent (se_link (fold (sync_step dg te de engines) es s)) = data_sent sent (se_link s)"
  using assms(1)
proof (induction es arbitrary: s)
  case (Cons e es)
  show ?case
    using Cons.IH [of "sync_step dg te de engines e s"] dead_step [OF Cons.prems assms(2), of dg de engines e] by simp
qed simp

subsection \<open>Properties\<close>


text \<open>Until an acknowledgement arrives, a tick sends again what the tick before it sent: the
  batch is always taken from the head of the pending list, in flight or not. When only new writes
  were queued between two ticks, the second sends the deltas of the first, in order, ahead of any
  new one, and after a full batch it sends nothing new at all, however much room the window has.\<close>

theorem crdt_unacked_resent:
  assumes "push_crdt_deltas dg te crc32c now now_ms l = (True, l1)" "push_crdt_deltas dg te crc32c now' now_ms' l1' = (True, l2)"
    and "socket_law te sent" "distinct (map pd_mutation_id (dg_pending_deltas dg (lk_delegate l1')))"
    and "lk_sink l1' = lk_sink l1" "link_flow l1' = link_flow l1"
    and "map pd_mutation_id (dg_pending_deltas dg (lk_delegate l1')) =
         map pd_mutation_id (dg_pending_deltas dg (lk_delegate l)) @ queued"
  shows "\<exists>first again. sent (lk_sink l1) = sent (lk_sink l) @ map ODelta first \<and>
     sent (lk_sink l2) = sent (lk_sink l1) @ map ODelta again \<and>
     prefix (map dp_mutation_id again) (map dp_mutation_id first @ queued) \<and>
     (length first = next_batch_size (link_flow l) \<longrightarrow> prefix (map dp_mutation_id again) (map dp_mutation_id first))"
proof -
  let ?mids = "map pd_mutation_id (dg_pending_deltas dg (lk_delegate l))"
  let ?n = "next_batch_size (link_flow l)" and ?n1 = "next_batch_size (link_flow l1)"
  have "distinct ?mids"
    using assms(4) unfolding assms(7) by simp
  then obtain first where f: "sent (lk_sink l1) = sent (lk_sink l) @ map ODelta first"
      "list_all2 stamped (take ?n (dg_pending_deltas dg (lk_delegate l))) first"
      "fc_config (link_flow l1) = fc_config (link_flow l)"
      "fc_current_batch_size (link_flow l1) = fc_current_batch_size (link_flow l)"
      "fc_in_flight (link_flow l1) = fold (\<lambda>m. hm_insert (dp_mutation_id m) now) first (fc_in_flight (link_flow l))"
    using push_crdt_cases [OF assms(1,3)] by blast
  obtain again where g: "sent (lk_sink l2) = sent (lk_sink l1) @ map ODelta again"
      "list_all2 stamped (take ?n1 (dg_pending_deltas dg (lk_delegate l1'))) again"
    using push_crdt_cases [OF assms(2-4)] unfolding assms(5,6) by blast
  have le: "?n1 \<le> ?n"
    unfolding next_batch_size_def Let_def f(3-5) by (intro min.mono diff_le_mono2 fold_insert_grows) simp
  have mids: "map dp_mutation_id first = take ?n ?mids" "map dp_mutation_id again = take ?n1 (?mids @ queued)"
    using stamped_mids [OF f(2)] stamped_mids [OF g(2)] assms(7) by (simp_all flip: take_map)
  have full: "prefix (take ?n1 (?mids @ queued)) (take ?n ?mids)" if "?n \<le> length ?mids"
    using le that take_is_prefix [of ?n1 "take ?n ?mids"] by (simp add: min_def)
  have all: "prefix (take ?n1 (?mids @ queued)) (take ?n ?mids @ queued)" if "length ?mids \<le> ?n"
    using that take_is_prefix [of ?n1 "?mids @ queued"] by simp
  have "prefix (take ?n1 (?mids @ queued)) (take ?n ?mids @ queued)"
    using full all prefix_prefix by (cases "?n \<le> length ?mids") fastforce+
  moreover have "?n \<le> length ?mids" if "length first = ?n"
    using arg_cong [OF mids(1), of length] that by simp
  ultimately show ?thesis
    using f(1) g(1) full unfolding mids [symmetric] by blast
qed

text \<open>C32. Once push is paused for authentication, the next tick ends the push loop, and the loop
  stays dead for the rest of the session: whatever happens then, also an accepted token that lifts
  the pause, only pings and token refreshes go out until the connection is lost.\<close>

theorem auth_pause_ends_push:
  assumes "cl_state (lk_client (se_link s)) = Connected" "cl_push_paused_for_auth (lk_client (se_link s))"
    and "\<not> cl_fenced (lk_client (se_link s))" "socket_law te sent" "se_push_alive s"
  shows "let s' = fold (sync_step dg te de engines) (EvPushTick now now_ms call writes # es) s
    in \<not> se_push_alive s' \<and> data_sent sent (se_link s') = data_sent sent (se_link s)"
proof -
  have tick: "sync_step dg te de engines (EvPushTick now now_ms call writes) s
      = s\<lparr>se_link := reactive_refresh te now_ms call (se_link s), se_push_alive := False\<rparr>"
    using assms(1-3,5)
    by (simp add: delta_push_tick_def push_control_messages_def is_push_paused_for_auth_def and_then_def)
  then show ?thesis
    using dead_run [OF _ assms(4), of "sync_step dg te de engines (EvPushTick now now_ms call writes) s" dg de engines es]
      reactive_refresh_keepalive [OF assms(4)]
    by (simp add: Let_def)
qed

subsection \<open>Witnesses\<close>

definition demo_delegate :: "(pending_delta list, unit, unit, unit, unit) sync_delegate" where
  "demo_delegate =
     \<lparr>dg_sync_identity = (\<lambda>_. \<lparr>li_lite_id = ''l'', li_epoch = 1, li_peer_id = 9\<rparr>), dg_regenerate_identity = id,
      dg_rotate_peer_id = id, dg_pending_deltas = id,
      dg_set_pending_delta_seq = (\<lambda>mid n. map (\<lambda>d. if pd_mutation_id d = mid then d\<lparr>pd_seq := n\<rparr> else d)),
      dg_next_stream_seq = (\<lambda>_ ds. (4, ds)), dg_acknowledge = (\<lambda>mid. filter (\<lambda>d. pd_mutation_id d \<noteq> mid)),
      dg_reject = (\<lambda>_. id), dg_reject_with_policy = (\<lambda>_ _. id), dg_import_remote = (\<lambda>_ _. id),
      dg_apply_remote_row = (\<lambda>_ ds. (None, ds)), dg_import_definition = (\<lambda>_. id), dg_import_collection_schema = (\<lambda>_. id),
      dg_get_collection_meta = (\<lambda>_ _. Some ()), dg_handle_array_delta = (\<lambda>_ ds. (None, ds)),
      dg_handle_array_delta_batch = (\<lambda>_ ds. (None, ds)), dg_handle_array_snapshot = (\<lambda>_. id),
      dg_handle_array_snapshot_chunk = (\<lambda>_ ds. (None, ds)), dg_handle_array_reject = (\<lambda>_ ds. (None, ds)),
      dg_begin_array_catchup = (\<lambda>_. []), dg_load_producer_state = (\<lambda>_. (0, 0)),
      dg_persist_producer_state = (\<lambda>_ _. id), dg_clear_engine_in_flight = id\<rparr>"

definition demo_transport :: "(unit, unit, unit out_frame list) transport_env" where
  "demo_transport = \<lparr>te_encodes = (\<lambda>_. True), te_send = (\<lambda>f w. (True, w @ [f])), te_descriptor = (\<lambda>_ _. Some ())\<rparr>"

definition demo_link :: "(unit, unit, unit, unit, u64, pending_delta list, unit out_frame list) link" where
  "demo_link =
     \<lparr>lk_client = demo_client\<lparr>cl_state := Connected\<rparr>,
      lk_delegate = [\<lparr>pd_mutation_id = 3, pd_collection = ''c'', pd_document_id = ''d'', pd_delta_bytes = [1], pd_seq = 0\<rparr>],
      lk_sink = []\<rparr>"

lemma demo_socket: "socket_law demo_transport id"
  by (simp add: socket_law_def demo_transport_def)

lemmas demo_sync_defs = demo_transport_def demo_link_def demo_client_def SyncClient_new_def with_flow_control_def
  FlowControlConfig_default_def FlowController_new_def

lemmas demo_push_defs = push_collection_schemas_def ensure_collection_announced_def link_send_def on_client_def
  push_crdt_deltas_def take_from_client_def build_delta_pushes_def next_batch_size_def update_pending_stats_def
  update_pending_def client_record_push_def fc_record_push_def and_then_def Let_def hm_collect_def

lemma demo_crdt_tick:
  "\<exists>l1 l2 l3. push_collection_schemas demo_delegate demo_transport demo_link = (True, l1) \<and>
     push_crdt_deltas demo_delegate demo_transport (\<lambda>_. 0) 0 0 l1 = (True, l2) \<and>
     push_crdt_deltas demo_delegate demo_transport (\<lambda>_. 0) 1 1 l2 = (True, l3) \<and>
     map pd_mutation_id (lk_delegate l1) = [3] \<and> map pd_mutation_id (lk_delegate l2) = [3] \<and>
     length (lk_sink l2) = 2 \<and> length (lk_sink l3) = 3"
  by (simp add: demo_sync_defs demo_push_defs demo_delegate_def)

text \<open>The second case of the announcement does occur: a first write to a collection that lands
  between the two reads of a tick goes out before the schema of its collection.\<close>

lemma crdt_race_unannounced:
  "\<exists>l2 m. delta_push_tick demo_delegate demo_transport (\<lambda>_. 0) [] 0 0 (\<lambda>_. NoToken) (\<lambda>_. lk_delegate demo_link)
       (demo_link\<lparr>lk_delegate := []\<rparr>) = (True, l2) \<and>
     lk_sink l2 = [ODelta m] \<and> dp_collection m \<notin> cl_announced_collections (lk_client l2) \<and>
     \<not> unannounceable demo_delegate demo_transport demo_link (dp_collection m)"
  by (simp add: delta_push_tick_def push_control_messages_def is_push_paused_for_auth_def take_pending_resync_def
      drain_row_push_rejects_def drain_pending_array_acks_def drain_array_catchups_def unannounceable_def
      demo_sync_defs demo_push_defs demo_delegate_def)


theorem crdt_unacked_resent_witness:
  "\<exists>l1 l2 l3 first again. push_collection_schemas demo_delegate demo_transport demo_link = (True, l1) \<and>
     push_crdt_deltas demo_delegate demo_transport (\<lambda>_. 0) 0 0 l1 = (True, l2) \<and>
     push_crdt_deltas demo_delegate demo_transport (\<lambda>_. 0) 1 1 l2 = (True, l3) \<and>
     lk_sink l2 = lk_sink l1 @ map ODelta first \<and> lk_sink l3 = lk_sink l2 @ map ODelta again \<and> length again = 1 \<and>
     prefix (map dp_mutation_id again) (map dp_mutation_id first)"
proof -
  obtain l1 l2 l3 where t: "push_crdt_deltas demo_delegate demo_transport (\<lambda>_. 0) 0 0 l1 = (True, l2)"
      "push_crdt_deltas demo_delegate demo_transport (\<lambda>_. 0) 1 1 l2 = (True, l3)"
      "map pd_mutation_id (lk_delegate l1) = [3]" "map pd_mutation_id (lk_delegate l2) = [3]"
      "length (lk_sink l2) = 2" "length (lk_sink l3) = 3"
      "push_collection_schemas demo_delegate demo_transport demo_link = (True, l1)"
    using demo_crdt_tick by (elim exE conjE) (erule that; assumption)
  have dg: "dg_pending_deltas demo_delegate = id"
    by (simp add: demo_delegate_def)
  have pre: "distinct (map pd_mutation_id (dg_pending_deltas demo_delegate (lk_delegate l2)))"
      "map pd_mutation_id (dg_pending_deltas demo_delegate (lk_delegate l2)) =
       map pd_mutation_id (dg_pending_deltas demo_delegate (lk_delegate l1)) @ []"
    using t(3,4) by (simp_all add: dg)
  obtain first again where r: "lk_sink l2 = lk_sink l1 @ map ODelta first" "lk_sink l3 = lk_sink l2 @ map ODelta again"
      "prefix (map dp_mutation_id again) (map dp_mutation_id first)"
    using crdt_unacked_resent [OF t(1,2) demo_socket pre(1) refl refl pre(2)] unfolding id_apply append_Nil2 by blast
  moreover from this have "length again = 1"
    using t(5,6) by simp
  ultimately show ?thesis
    using t(1,2,7) by metis
qed

definition demo_dispatch :: "(unit, unit, u64, unit, unit, unit, unit, pending_delta list) dispatch_env" where
  "demo_dispatch =
     \<lparr>de_client = demo_client_env, de_collection = (\<lambda>_. None), de_is_peer_id_collision = (\<lambda>_. False), de_hlc = demo_hlc,
      de_class = (\<lambda>_. Permanent), de_engine_ack = (\<lambda>_ x. x), de_ping_pong = (\<lambda>_ _ x. x)\<rparr>"

definition demo_paused :: "(unit, unit, unit, unit, u64, pending_delta list, unit out_frame list) sync_session" where
  "demo_paused =
     \<lparr>se_link = on_client pause_for_auth demo_link, se_push_alive = True, se_ping_alive = True\<rparr>"

text \<open>The refreshed token is accepted, the pause is lifted, and the queued delta is still not sent.\<close>

theorem auth_pause_ends_push_witness:
  "let s' = fold (sync_step demo_delegate demo_transport demo_dispatch [])
       [EvPushTick 0 1 (\<lambda>_. NewToken ''n'') id, EvFrame 2 2 (ITokenRefreshAck True), EvPushTick 3 3 (\<lambda>_. NoToken) id] demo_paused
   in \<not> se_push_alive s' \<and> data_sent id (se_link s') = [] \<and> \<not> cl_push_paused_for_auth (lk_client (se_link s'))"
proof -
  have s: "cl_state (lk_client (se_link demo_paused)) = Connected" "cl_push_paused_for_auth (lk_client (se_link demo_paused))"
      "\<not> cl_fenced (lk_client (se_link demo_paused))" "se_push_alive demo_paused" "data_sent id (se_link demo_paused) = []"
    by (simp_all add: demo_paused_def on_client_def pause_for_auth_def demo_sync_defs data_sent_def)
  have "\<not> cl_push_paused_for_auth (lk_client (se_link (fold (sync_step demo_delegate demo_transport demo_dispatch [])
       [EvPushTick 0 1 (\<lambda>_. NewToken ''n'') id, EvFrame 2 2 (ITokenRefreshAck True), EvPushTick 3 3 (\<lambda>_. NoToken) id] demo_paused)))"
    using s by (simp add: delta_push_tick_def push_control_messages_def is_push_paused_for_auth_def and_then_def
        handle_token_refresh_ack_def Let_def)
  then show ?thesis
    using auth_pause_ends_push [OF s(1-3) demo_socket s(4), of demo_delegate demo_dispatch "[]" 0 1 "\<lambda>_. NewToken ''n''" id
        "[EvFrame 2 2 (ITokenRefreshAck True), EvPushTick 3 3 (\<lambda>_. NoToken) id]"] s(5)
    by (simp only: Let_def) simp
qed

end
