(* ===== verification/Document_History.thy ===== *)
theory Document_History
  imports Text_Lib Encrypted_Storage
begin

text \<open>
  Bitemporal history of document collections (\<open>engine/document/history\<close>): the key and value
  layouts, the collection flag, appending versions, reading the current version and the version
  of a point in time, the scan of the live documents, the rebuild of the index of latest versions,
  and the pages of current documents.

  A store is any implementation of the trait \<open>StorageEngine\<close>. Message texts of errors are not
  modelled. The decoder of document bodies belongs to \<open>nodedb_types\<close> and is a parameter.
\<close>

subsection \<open>Keys\<close>

definition format_sys_from :: "i64 \<Rightarrow> string" where
  "format_sys_from system_from_ms = fmt_020 system_from_ms"

definition versioned_doc_key :: "string \<Rightarrow> string \<Rightarrow> i64 \<Rightarrow> bytes lite_result" where
  "versioned_doc_key collection doc_id system_from_ms =
     (if 0 \<in> set (str_bytes doc_id) then Inl BadRequest
      else Inr (str_bytes (collection @ '':'' @ doc_id @ [CHR 0x00] @ format_sys_from system_from_ms)))"

definition doc_prefix :: "string \<Rightarrow> string \<Rightarrow> bytes" where
  "doc_prefix collection doc_id = str_bytes (collection @ '':'' @ doc_id @ [CHR 0x00])"

definition doc_prefix_end :: "string \<Rightarrow> string \<Rightarrow> bytes" where
  "doc_prefix_end collection doc_id = str_bytes (collection @ '':'' @ doc_id @ [CHR 0x01])"

definition coll_prefix :: "string \<Rightarrow> bytes" where
  "coll_prefix collection = str_bytes (collection @ '':'')"

definition coll_prefix_end :: "string \<Rightarrow> bytes" where
  "coll_prefix_end collection = str_bytes (collection @ '';'')"

definition latest_version_key :: "string \<Rightarrow> string \<Rightarrow> bytes" where
  "latest_version_key collection doc_id = str_bytes (collection @ '':'' @ doc_id)"

text \<open>The suffix after the last NUL.\<close>

definition parse_sys_from :: "bytes \<Rightarrow> i64 option" where
  "parse_sys_from key =
     (if 0 \<notin> set key then None
      else let suffix = rev (takeWhile (\<lambda>b. b \<noteq> 0) (rev key))
           in if valid_utf8 suffix then parse_i64 (bytes_str suffix) else None)"

subsection \<open>Values\<close>

definition HEADER_LEN :: usize where
  "HEADER_LEN = 17"

datatype version_tag = Live | Tombstone | GdprErased

primrec tag_u8 :: "version_tag \<Rightarrow> u8" where
  "tag_u8 Live = 0x00"
| "tag_u8 Tombstone = 0xFF"
| "tag_u8 GdprErased = 0xFE"

definition VersionTag_from_u8 :: "u8 \<Rightarrow> version_tag option" where
  "VersionTag_from_u8 v =
     (if v = 0x00 then Some Live else if v = 0xFF then Some Tombstone
      else if v = 0xFE then Some GdprErased else None)"

record decoded_version =
  dv_tag :: version_tag
  dv_valid_from_ms :: i64
  dv_valid_until_ms :: i64
  dv_body :: bytes

definition is_live :: "decoded_version \<Rightarrow> bool" where
  "is_live v \<longleftrightarrow> dv_tag v = Live"

definition encode_value :: "version_tag \<Rightarrow> i64 \<Rightarrow> i64 \<Rightarrow> bytes \<Rightarrow> bytes" where
  "encode_value tag valid_from_ms valid_until_ms body =
     [tag_u8 tag] @ u64_to_le_bytes valid_from_ms @ u64_to_le_bytes valid_until_ms @ body"

definition decode_value :: "bytes \<Rightarrow> decoded_version lite_result" where
  "decode_value bs =
     (if length bs < HEADER_LEN then Inl Serialization
      else case VersionTag_from_u8 (hd bs) of
             None \<Rightarrow> Inl Serialization
           | Some tag \<Rightarrow>
               Inr \<lparr>dv_tag = tag, dv_valid_from_ms = u64_from_le_bytes (take 8 (drop 1 bs)),
                    dv_valid_until_ms = u64_from_le_bytes (take 8 (drop 9 bs)),
                    dv_body = drop HEADER_LEN bs\<rparr>)"

subsection \<open>The collection flag\<close>

definition META_DOCUMENT_BITEMPORAL_PREFIX :: string where
  "META_DOCUMENT_BITEMPORAL_PREFIX = ''document_bitemporal:''"

definition is_bitemporal :: "'s storage_ops \<Rightarrow> 's \<Rightarrow> string \<Rightarrow> bool lite_result" where
  "is_bitemporal so s collection =
     rbind (so_get so s Meta (str_bytes (META_DOCUMENT_BITEMPORAL_PREFIX @ collection))) (\<lambda>found.
       Inr (case found of Some (b # _) \<Rightarrow> b = 1 | _ \<Rightarrow> False))"

definition set_bitemporal :: "'s storage_ops \<Rightarrow> string \<Rightarrow> bool \<Rightarrow> 's \<Rightarrow> unit lite_result \<times> 's" where
  "set_bitemporal so collection bitemporal s =
     so_put so s Meta (str_bytes (META_DOCUMENT_BITEMPORAL_PREFIX @ collection))
       [if bitemporal then 1 else 0]"

subsection \<open>Appending versions\<close>

definition unwrap_or :: "'a option \<Rightarrow> 'a \<Rightarrow> 'a" where
  "unwrap_or x d = (case x of None \<Rightarrow> d | Some v \<Rightarrow> v)"

definition versioned_put ::
  "'s storage_ops \<Rightarrow> string \<Rightarrow> string \<Rightarrow> bytes \<Rightarrow> i64 \<Rightarrow> i64 option \<Rightarrow> i64 option \<Rightarrow> 's \<Rightarrow>
   unit lite_result \<times> 's" where
  "versioned_put so collection doc_id body system_from_ms valid_from_ms valid_until_ms s =
     (case versioned_doc_key collection doc_id system_from_ms of
        Inl e \<Rightarrow> (Inl e, s)
      | Inr history_key \<Rightarrow>
          let vf = unwrap_or valid_from_ms system_from_ms;
              vu = unwrap_or valid_until_ms i64_max
          in so_batch_write so s
               [Put DocumentHistory history_key (encode_value Live vf vu body),
                Put LatestVersion (latest_version_key collection doc_id)
                  (str_bytes (format_sys_from system_from_ms))])"

definition versioned_tombstone ::
  "'s storage_ops \<Rightarrow> string \<Rightarrow> string \<Rightarrow> i64 \<Rightarrow> i64 option \<Rightarrow> 's \<Rightarrow> unit lite_result \<times> 's" where
  "versioned_tombstone so collection doc_id system_from_ms valid_from_ms s =
     (case versioned_doc_key collection doc_id system_from_ms of
        Inl e \<Rightarrow> (Inl e, s)
      | Inr history_key \<Rightarrow>
          let vf = unwrap_or valid_from_ms system_from_ms
          in so_batch_write so s
               [Put DocumentHistory history_key (encode_value Tombstone vf i64_max []),
                Delete LatestVersion (latest_version_key collection doc_id)])"

subsection \<open>Reading\<close>

text \<open>A pointer is a decimal \<open>i64\<close>, possibly with white space around it.\<close>

definition parse_pointer :: "bytes \<Rightarrow> i64 lite_result" where
  "parse_pointer pointer =
     (if \<not> valid_utf8 pointer then Inl Serialization
      else case parse_i64 (str_trim (bytes_str pointer)) of
             None \<Rightarrow> Inl Serialization
           | Some t \<Rightarrow> Inr t)"

definition versioned_get_current ::
  "'s storage_ops \<Rightarrow> 's \<Rightarrow> string \<Rightarrow> string \<Rightarrow> decoded_version option lite_result" where
  "versioned_get_current so s collection doc_id =
     rbind (so_get so s LatestVersion (latest_version_key collection doc_id)) (\<lambda>pointer.
       case pointer of
         None \<Rightarrow> Inr None
       | Some pointer_bytes \<Rightarrow>
           rbind (parse_pointer pointer_bytes) (\<lambda>sys_from_ms.
           rbind (versioned_doc_key collection doc_id sys_from_ms) (\<lambda>history_key.
           rbind (so_get so s DocumentHistory history_key) (\<lambda>history.
             case history of
               None \<Rightarrow> Inl Serialization
             | Some history_bytes \<Rightarrow>
                 rbind (decode_value history_bytes) (\<lambda>decoded.
                   Inr (if is_live decoded then Some decoded else None))))))"

definition covers :: "i64 option \<Rightarrow> decoded_version \<Rightarrow> bool" where
  "covers valid_time_ms v \<longleftrightarrow>
     (case valid_time_ms of
        None \<Rightarrow> True
      | Some vt \<Rightarrow> \<not> (sint vt < sint (dv_valid_from_ms v) \<or> sint (dv_valid_until_ms v) \<le> sint vt))"

text \<open>The loop over the rows of a document, newest first.\<close>

fun as_of_rows :: "i64 \<Rightarrow> i64 option \<Rightarrow> kv_pair list \<Rightarrow> decoded_version option lite_result" where
  "as_of_rows system_as_of_ms valid_time_ms [] = Inr None"
| "as_of_rows system_as_of_ms valid_time_ms ((key, v) # rest) =
     rbind (decode_value v) (\<lambda>decoded.
       case parse_sys_from key of
         None \<Rightarrow> Inl Serialization
       | Some sys_from \<Rightarrow>
           if sint system_as_of_ms < sint sys_from then as_of_rows system_as_of_ms valid_time_ms rest
           else if dv_tag decoded \<noteq> Live then Inr None
           else if \<not> covers valid_time_ms decoded then Inr None
           else Inr (Some decoded))"

definition versioned_get_as_of ::
  "'s storage_ops \<Rightarrow> 's \<Rightarrow> string \<Rightarrow> string \<Rightarrow> i64 \<Rightarrow> i64 option \<Rightarrow>
   decoded_version option lite_result" where
  "versioned_get_as_of so s collection doc_id system_as_of_ms valid_time_ms =
     rbind (so_scan_prefix so s DocumentHistory (doc_prefix collection doc_id)) (\<lambda>entries.
       as_of_rows system_as_of_ms valid_time_ms (rev entries))"

text \<open>The document id of a row: the text between the collection prefix and the first NUL.\<close>

definition row_doc_id :: "bytes \<Rightarrow> bytes \<Rightarrow> string option" where
  "row_doc_id pre key =
     (let suffix = drop (length pre) key
      in if 0 \<notin> set suffix then None
         else let raw = takeWhile (\<lambda>b. b \<noteq> 0) suffix
              in if valid_utf8 raw then Some (bytes_str raw) else None)"

definition live_row ::
  "bytes \<Rightarrow> kv_pair \<Rightarrow> (string, version_tag \<times> bytes) hmap \<Rightarrow> (string, version_tag \<times> bytes) hmap" where
  "live_row pre row latest =
     (case row_doc_id pre (fst row) of
        None \<Rightarrow> latest
      | Some doc_id \<Rightarrow>
          (case decode_value (snd row) of
             Inl _ \<Rightarrow> latest
           | Inr decoded \<Rightarrow> hm_insert doc_id (dv_tag decoded, dv_body decoded) latest))"

definition scan_live_documents ::
  "'s storage_ops \<Rightarrow> 's \<Rightarrow> string \<Rightarrow> (string \<times> bytes) list lite_result" where
  "scan_live_documents so s collection =
     (let pre = coll_prefix collection
      in rbind (so_scan_prefix so s DocumentHistory pre) (\<lambda>entries.
           let latest = foldl (\<lambda>m row. live_row pre row m) [] entries
           in Inr (map (\<lambda>(doc_id, _, body). (doc_id, body))
                     (filter (\<lambda>(_, tag, _). tag = Live) latest))))"

subsection \<open>Rebuilding the index of latest versions\<close>

record backfill =
  bf_cursor :: "bytes option"
  bf_latest :: "(string \<times> i64 \<times> version_tag) option"
  bf_ops :: "write_op list"
  bf_bytes :: usize

definition pointer_value :: "i64 \<Rightarrow> version_tag \<Rightarrow> bytes" where
  "pointer_value timestamp tag = (if tag = Live then str_bytes (format_sys_from timestamp) else [])"

definition pointer_op :: "string \<Rightarrow> string \<times> i64 \<times> version_tag \<Rightarrow> write_op" where
  "pointer_op collection p =
     (case p of (doc_id, timestamp, tag) \<Rightarrow>
        let key = latest_version_key collection doc_id
        in if tag = Live then Put LatestVersion key (pointer_value timestamp tag)
           else Delete LatestVersion key)"

text \<open>The running byte count cannot overflow: it stays within \<open>max_bytes\<close>.\<close>

definition queue_pointer ::
  "'s storage_ops \<Rightarrow> string \<Rightarrow> string \<times> i64 \<times> version_tag \<Rightarrow> usize \<Rightarrow> usize \<Rightarrow> backfill \<Rightarrow> 's \<Rightarrow>
   backfill lite_result \<times> 's" where
  "queue_pointer so collection p max_records max_bytes st s =
     (case p of (doc_id, timestamp, tag) \<Rightarrow>
        let key = latest_version_key collection doc_id;
            cost = usize_sat_add (length key) (length (pointer_value timestamp tag));
            full = (bf_ops st \<noteq> [] \<and>
                    (max_records \<le> length (bf_ops st) \<or> max_bytes - bf_bytes st < cost))
        in if max_bytes < cost then (Inl Backpressure, s)
           else case (if full then so_batch_write so s (bf_ops st) else (Inr (), s)) of
                  (Inl e, s') \<Rightarrow> (Inl e, s')
                | (Inr _, s') \<Rightarrow>
                    (let st' = if full then st\<lparr>bf_ops := [], bf_bytes := 0\<rparr> else st
                     in (Inr (st'\<lparr>bf_ops := bf_ops st' @ [pointer_op collection p],
                                  bf_bytes := bf_bytes st' + cost\<rparr>), s')))"

text \<open>The \<open>continue\<close> branches of the loop over a page: a row that does not parse is skipped.\<close>

definition parse_row :: "bytes \<Rightarrow> kv_pair \<Rightarrow> (string \<times> i64 \<times> version_tag) option" where
  "parse_row pre row =
     (case row_doc_id pre (fst row) of
        None \<Rightarrow> None
      | Some doc_id \<Rightarrow>
          (case decode_value (snd row) of
             Inl _ \<Rightarrow> None
           | Inr decoded \<Rightarrow>
               (case parse_sys_from (fst row) of
                  None \<Rightarrow> None
                | Some timestamp \<Rightarrow> Some (doc_id, timestamp, dv_tag decoded))))"

definition latest_step ::
  "string \<times> i64 \<times> version_tag \<Rightarrow> (string \<times> i64 \<times> version_tag) option \<Rightarrow> string \<times> i64 \<times> version_tag" where
  "latest_step p latest =
     (case p of (doc_id, timestamp, tag) \<Rightarrow>
        (case latest of
           Some (cur, previous, t) \<Rightarrow>
             if sint previous \<le> sint timestamp then (cur, timestamp, tag) else (cur, previous, t)
         | None \<Rightarrow> (doc_id, timestamp, tag)))"

definition backfill_row ::
  "'s storage_ops \<Rightarrow> string \<Rightarrow> usize \<Rightarrow> usize \<Rightarrow> kv_pair \<Rightarrow> backfill \<Rightarrow> 's \<Rightarrow>
   backfill lite_result \<times> 's" where
  "backfill_row so collection max_records max_bytes row st0 s =
     (let st = st0\<lparr>bf_cursor := Some (fst row)\<rparr>
      in case parse_row (coll_prefix collection) row of
           None \<Rightarrow> (Inr st, s)
         | Some p \<Rightarrow>
             (case bf_latest st of
                Some previous \<Rightarrow>
                  if fst previous \<noteq> fst p then
                    (case queue_pointer so collection previous max_records max_bytes
                            (st\<lparr>bf_latest := None\<rparr>) s of
                       (Inl e, s') \<Rightarrow> (Inl e, s')
                     | (Inr st', s') \<Rightarrow> (Inr (st'\<lparr>bf_latest := Some (latest_step p None)\<rparr>), s'))
                  else (Inr (st\<lparr>bf_latest := Some (latest_step p (Some previous))\<rparr>), s)
              | None \<Rightarrow> (Inr (st\<lparr>bf_latest := Some (latest_step p None)\<rparr>), s)))"

fun backfill_rows ::
  "'s storage_ops \<Rightarrow> string \<Rightarrow> usize \<Rightarrow> usize \<Rightarrow> kv_pair list \<Rightarrow> backfill \<Rightarrow> 's \<Rightarrow>
   backfill lite_result \<times> 's" where
  "backfill_rows so collection max_records max_bytes [] st s = (Inr st, s)"
| "backfill_rows so collection max_records max_bytes (row # rows) st s =
     (case backfill_row so collection max_records max_bytes row st s of
        (Inl e, s') \<Rightarrow> (Inl e, s')
      | (Inr st', s') \<Rightarrow> backfill_rows so collection max_records max_bytes rows st' s')"

text \<open>The page loop ends when a page is empty; \<open>None\<close> stands for a loop that never ends.\<close>

partial_function (option) backfill_loop ::
  "'s storage_ops \<Rightarrow> string \<Rightarrow> usize \<Rightarrow> usize \<Rightarrow> backfill \<Rightarrow> 's \<Rightarrow> (backfill lite_result \<times> 's) option" where
  "backfill_loop so collection max_records max_bytes st s =
     (case so_scan_prefix_from_budgeted so s DocumentHistory (coll_prefix collection) (bf_cursor st)
             max_records max_bytes of
        Inl e \<Rightarrow> Some (Inl e, s)
      | Inr page \<Rightarrow>
          if ps_entries page = [] then Some (Inr st, s)
          else (case backfill_rows so collection max_records max_bytes (ps_entries page) st s of
                  (Inl e, s') \<Rightarrow> Some (Inl e, s')
                | (Inr st', s') \<Rightarrow> backfill_loop so collection max_records max_bytes st' s'))"

definition backfill_finish ::
  "'s storage_ops \<Rightarrow> string \<Rightarrow> usize \<Rightarrow> usize \<Rightarrow> backfill \<Rightarrow> 's \<Rightarrow> unit lite_result \<times> 's" where
  "backfill_finish so collection max_records max_bytes st s =
     (case (case bf_latest st of
              None \<Rightarrow> (Inr st, s)
            | Some previous \<Rightarrow> queue_pointer so collection previous max_records max_bytes st s) of
        (Inl e, s') \<Rightarrow> (Inl e, s')
      | (Inr st', s') \<Rightarrow>
          if bf_ops st' \<noteq> [] then so_batch_write so s' (bf_ops st') else (Inr (), s'))"

definition backfill_start :: backfill where
  "backfill_start = \<lparr>bf_cursor = None, bf_latest = None, bf_ops = [], bf_bytes = 0\<rparr>"

definition backfill_pages ::
  "'s storage_ops \<Rightarrow> string \<Rightarrow> usize \<Rightarrow> usize \<Rightarrow> 's \<Rightarrow> (unit lite_result \<times> 's) option" where
  "backfill_pages so collection max_records max_bytes s =
     (case backfill_loop so collection max_records max_bytes backfill_start s of
        None \<Rightarrow> None
      | Some (Inl e, s') \<Rightarrow> Some (Inl e, s')
      | Some (Inr st, s') \<Rightarrow> Some (backfill_finish so collection max_records max_bytes st s'))"

definition backfill_latest_version ::
  "'s storage_ops \<Rightarrow> string \<Rightarrow> 's \<Rightarrow> (unit lite_result \<times> 's) option" where
  "backfill_latest_version so collection s =
     backfill_pages so collection 128 (8 * 1024 * 1024) s"

subsection \<open>Pages of current documents\<close>

record ('val, 'fields) body_codec =
  bc_value_from_msgpack :: "bytes \<Rightarrow> 'val option"
  bc_object :: "'val \<Rightarrow> 'fields option"
  bc_empty :: 'fields

record 'fields current_page =
  cp_entries :: "(bytes \<times> string \<times> 'fields) list"
  cp_last_key :: "bytes option"

definition body_fields :: "('val, 'fields) body_codec \<Rightarrow> bytes \<Rightarrow> 'fields lite_result" where
  "body_fields bc body =
     (if body = [] then Inr (bc_empty bc)
      else case bc_value_from_msgpack bc body of
             None \<Rightarrow> Inl Serialization
           | Some v \<Rightarrow> (case bc_object bc v of None \<Rightarrow> Inl Serialization | Some f \<Rightarrow> Inr f))"

definition current_history ::
  "'s storage_ops \<Rightarrow> 's \<Rightarrow> bytes \<Rightarrow> usize \<Rightarrow> kv_pair option lite_result" where
  "current_history so s history_key remaining =
     rbind (so_scan_prefix_from_budgeted so s DocumentHistory history_key None 1 remaining) (\<lambda>history.
       Inr (case ps_entries history of
              (stored_key, v) # _ \<Rightarrow> if stored_key = history_key then Some (stored_key, v) else None
            | [] \<Rightarrow> None))"

fun current_rows ::
  "'s storage_ops \<Rightarrow> 's \<Rightarrow> ('val, 'fields) body_codec \<Rightarrow> string \<Rightarrow> usize \<Rightarrow> kv_pair list \<Rightarrow> usize \<Rightarrow>
   'fields current_page \<Rightarrow> 'fields current_page lite_result" where
  "current_rows so s bc collection max_bytes [] used result = Inr result"
| "current_rows so s bc collection max_bytes ((key, pointer) # rest) used result =
     (let raw = drop (length (coll_prefix collection)) key
      in if \<not> valid_utf8 raw then Inl Serialization
         else
           rbind (parse_pointer pointer) (\<lambda>timestamp.
           rbind (versioned_doc_key collection (bytes_str raw) timestamp) (\<lambda>history_key.
             let pointer_bytes = usize_sat_add (length key) (length pointer)
             in case current_history so s history_key (max_bytes - used - pointer_bytes) of
                  Inl e \<Rightarrow>
                    if e = Backpressure \<and> cp_last_key result \<noteq> None then Inr result else Inl e
                | Inr None \<Rightarrow> Inl Serialization
                | Inr (Some (stored_key, v)) \<Rightarrow>
                    rbind (decode_value v) (\<lambda>version.
                    rbind (if is_live version
                           then rbind (body_fields bc (dv_body version)) (\<lambda>fields.
                                  Inr (cp_entries result @ [(key, bytes_str raw, fields)]))
                           else Inr (cp_entries result)) (\<lambda>entries.
                      current_rows so s bc collection max_bytes rest
                        (usize_sat_add (usize_sat_add (usize_sat_add used pointer_bytes)
                           (length stored_key)) (length v))
                        (result\<lparr>cp_entries := entries, cp_last_key := Some key\<rparr>))))))"

definition current_document_page ::
  "'s storage_ops \<Rightarrow> 's \<Rightarrow> ('val, 'fields) body_codec \<Rightarrow> string \<Rightarrow> bytes option \<Rightarrow> usize \<Rightarrow> usize \<Rightarrow>
   'fields current_page lite_result" where
  "current_document_page so s bc collection after_key max_records max_bytes =
     rbind (so_scan_prefix_from_budgeted so s LatestVersion (coll_prefix collection) after_key
              max_records max_bytes) (\<lambda>pointers.
       current_rows so s bc collection max_bytes (ps_entries pointers) 0
         \<lparr>cp_entries = [], cp_last_key = None\<rparr>)"

subsection \<open>Layout facts\<close>

text \<open>The history key of a document key and a system time.\<close>

definition hist_key :: "bytes \<Rightarrow> i64 \<Rightarrow> bytes" where
  "hist_key dk t = dk @ 0 # str_bytes (fmt_020 t)"

lemma str_bytes_bytes_str [simp, codec_simps]: "str_bytes (bytes_str bs) = bs"
proof -
  have "(of_char (char_of (unat b)) :: u8) = b" for b :: u8
    by (rule word_unat_eq_iff [THEN iffD2]) simp
  then show ?thesis
    by (simp add: str_bytes_def bytes_str_def comp_def)
qed

lemma versioned_doc_key_eq:
  "versioned_doc_key c d t =
     (if 0 \<in> set (str_bytes d) then Inl BadRequest else Inr (hist_key (latest_version_key c d) t))"
  by (simp add: versioned_doc_key_def hist_key_def latest_version_key_def format_sys_from_def str_bytes_def)

lemma doc_prefix_eq: "doc_prefix c d = latest_version_key c d @ [0]"
  by (simp add: doc_prefix_def latest_version_key_def str_bytes_def)

lemma latest_version_key_eq: "latest_version_key c d = coll_prefix c @ str_bytes d"
  by (simp add: coll_prefix_def latest_version_key_def str_bytes_def)

lemma parse_sys_from_hist_key [simp]: "parse_sys_from (hist_key dk t) = Some t"
proof -
  have "takeWhile (\<lambda>b. b \<noteq> 0) (rev (str_bytes (fmt_020 t)) @ 0 # rev dk) = rev (str_bytes (fmt_020 t))"
    using fmt_020_no_nul [of t] by (subst takeWhile_append2) auto
  then show ?thesis
    by (simp add: parse_sys_from_def hist_key_def)
qed

lemma hist_key_less:
  "0 \<le> sint t \<Longrightarrow> 0 \<le> sint u \<Longrightarrow> hist_key dk t < hist_key dk u \<longleftrightarrow> sint t < sint u"
  by (simp add: hist_key_def fmt_020_less_nonneg)

lemma hist_key_inject [simp]: "hist_key dk t = hist_key dk u \<longleftrightarrow> t = u"
  by (simp add: hist_key_def)

text \<open>Without NULs in document keys a history key determines both parts, and the prefix of a
  document matches its own rows only.\<close>

lemma nul_split:
  assumes "0 \<notin> set dk" "0 \<notin> set dk'" "dk @ 0 # xs = dk' @ 0 # (ys :: bytes)"
  shows "dk = dk'"
proof -
  have "takeWhile (\<lambda>b. b \<noteq> 0) (dk @ 0 # xs) = dk" "takeWhile (\<lambda>b. b \<noteq> 0) (dk' @ 0 # ys) = dk'"
    using assms(1,2) by (subst takeWhile_append2; auto)+
  then show ?thesis
    using assms(3) by simp
qed

lemma hist_key_prefix:
  assumes "0 \<notin> set dk" "0 \<notin> set dk'"
  shows "prefix (dk @ [0]) (hist_key dk' t) \<longleftrightarrow> dk = dk'"
  using nul_split [OF assms(2,1)] by (auto simp: hist_key_def prefix_def)

lemma hist_key_eq_iff:
  "0 \<notin> set dk \<Longrightarrow> 0 \<notin> set dk' \<Longrightarrow> hist_key dk t = hist_key dk' u \<longleftrightarrow> dk = dk' \<and> t = u"
  using nul_split [of dk dk'] by (auto simp: hist_key_def)

lemma row_doc_id_hist_key:
  assumes "0 \<notin> set (str_bytes d)" "valid_utf8 (str_bytes d)"
  shows "row_doc_id (coll_prefix c) (hist_key (latest_version_key c d) t) = Some d"
proof -
  have "takeWhile (\<lambda>b. b \<noteq> 0) (str_bytes d @ 0 # str_bytes (fmt_020 t)) = str_bytes d"
    using assms(1) by (subst takeWhile_append2) auto
  then show ?thesis
    using assms by (simp add: row_doc_id_def hist_key_def latest_version_key_eq)
qed

lemma tag_roundtrip [simp]: "VersionTag_from_u8 (tag_u8 tag) = Some tag"
  by (cases tag) (simp_all add: VersionTag_from_u8_def)

lemma decode_encode_value [simp]:
  "decode_value (encode_value tag vf vu body)
     = Inr \<lparr>dv_tag = tag, dv_valid_from_ms = vf, dv_valid_until_ms = vu, dv_body = body\<rparr>"
  by (simp add: decode_value_def encode_value_def HEADER_LEN_def)

lemma parse_pointer_format [simp]: "parse_pointer (str_bytes (fmt_020 t)) = Inr t"
  by (simp add: parse_pointer_def)

subsection \<open>The abstract history of a document\<close>

text \<open>\<open>version_at h dk t u\<close>: of the versions of the document, the one of system time \<open>u\<close> is
  current at \<open>t\<close>. \<open>visible\<close> is what a read returns of a stored version.\<close>

definition version_at :: "(bytes \<rightharpoonup> bytes) \<Rightarrow> bytes \<Rightarrow> i64 \<Rightarrow> i64 \<Rightarrow> bool" where
  "version_at h dk t u \<longleftrightarrow>
     h (hist_key dk u) \<noteq> None \<and> 0 \<le> sint u \<and> sint u \<le> sint t \<and>
     (\<forall>w. h (hist_key dk w) \<noteq> None \<longrightarrow> 0 \<le> sint w \<longrightarrow> sint w \<le> sint t \<longrightarrow> sint w \<le> sint u)"

definition visible :: "i64 option \<Rightarrow> bytes \<Rightarrow> decoded_version option" where
  "visible vt v =
     (case decode_value v of
        Inl _ \<Rightarrow> None
      | Inr d \<Rightarrow> if is_live d \<and> covers vt d then Some d else None)"

definition answer_at :: "(bytes \<rightharpoonup> bytes) \<Rightarrow> bytes \<Rightarrow> i64 \<Rightarrow> i64 option \<Rightarrow> decoded_version option \<Rightarrow> bool" where
  "answer_at h dk t vt r \<longleftrightarrow>
     (\<forall>u. version_at h dk t u \<longrightarrow> r = visible vt (the (h (hist_key dk u)))) \<and>
     ((\<forall>u. \<not> version_at h dk t u) \<longrightarrow> r = None)"

definition history_wf :: "(bytes \<rightharpoonup> bytes) \<Rightarrow> bool" where
  "history_wf h \<longleftrightarrow>
     (\<forall>k v. h k = Some v \<longrightarrow>
        (\<exists>dk t. k = hist_key dk t \<and> 0 \<notin> set dk \<and> 0 \<le> sint t \<and> is_ok (decode_value v)))"

definition pointer_ok :: "(bytes \<rightharpoonup> bytes) \<Rightarrow> (bytes \<rightharpoonup> bytes) \<Rightarrow> bytes \<Rightarrow> bool" where
  "pointer_ok h lv dk \<longleftrightarrow>
     (\<forall>u. version_at h dk i64_max u \<longrightarrow>
        lv dk = (if visible None (the (h (hist_key dk u))) = None then None
                 else Some (str_bytes (format_sys_from u)))) \<and>
     ((\<forall>u. \<not> version_at h dk i64_max u) \<longrightarrow> lv dk = None)"

lemma answer_at_unique: "answer_at h dk t vt r \<Longrightarrow> answer_at h dk t vt r' \<Longrightarrow> r = r'"
  unfolding answer_at_def by metis

lemma sint_i64_max: "sint (u :: i64) \<le> sint i64_max"
  using sint_i64_range(2) [of u] by (simp add: i64_max_def)

lemma version_at_unique: "version_at h dk t u \<Longrightarrow> version_at h dk t u' \<Longrightarrow> u = u'"
  unfolding version_at_def by (metis antisym signed_word_eqI)

lemma answer_atI:
  assumes "version_at h dk t u" "r = visible vt (the (h (hist_key dk u)))"
  shows "answer_at h dk t vt r"
  unfolding answer_at_def using assms version_at_unique [OF assms(1)] by metis

text \<open>From the time of the last version on, the answer does not change.\<close>

lemma version_at_late:
  assumes "\<And>w. h (hist_key dk w) \<noteq> None \<Longrightarrow> 0 \<le> sint w \<Longrightarrow> sint w \<le> sint t"
  shows "version_at h dk t u \<longleftrightarrow> version_at h dk i64_max u"
  using assms sint_i64_max unfolding version_at_def by blast

lemma as_of_rows_find:
  assumes "\<And>k v. (k, v) \<in> set rs \<Longrightarrow> \<exists>u. k = hist_key dk u \<and> is_ok (decode_value v)"
  shows "as_of_rows t vt rs =
     Inr (case find (\<lambda>(k, v). sint (the (parse_sys_from k)) \<le> sint t) rs of
            None \<Rightarrow> None | Some (k, v) \<Rightarrow> visible vt v)"
  using assms
proof (induction rs)
  case (Cons row rs)
  obtain k v where row: "row = (k, v)"
    by (cases row)
  then obtain u d where "k = hist_key dk u" "decode_value v = Inr d"
    using Cons.prems [of k v] by (auto simp: is_ok_iff)
  then show ?case
    using Cons by (auto simp: row visible_def is_live_def not_less)
qed simp

lemma find_SomeD: "find P xs = Some x \<Longrightarrow> x \<in> set xs \<and> P x"
  by (induction xs) (auto split: if_splits)

lemma find_first_sorted:
  assumes "sorted_wrt R xs" "find P xs = Some x" "y \<in> set xs" "P y"
  shows "y = x \<or> R x y"
  using assms by (induction xs) (auto split: if_splits)

definition history_ok :: "rows \<Rightarrow> bool" where
  "history_ok m \<longleftrightarrow>
     history_wf (m DocumentHistory) \<and>
     (\<forall>dk. 0 \<notin> set dk \<longrightarrow> pointer_ok (m DocumentHistory) (m LatestVersion) dk)"

definition versions_before :: "int \<Rightarrow> rows \<Rightarrow> bool" where
  "versions_before b m \<longleftrightarrow>
     (\<forall>dk u. 0 \<notin> set dk \<longrightarrow> m DocumentHistory (hist_key dk u) \<noteq> None \<longrightarrow> sint u < b)"

definition version_ops :: "bytes \<Rightarrow> i64 \<Rightarrow> bytes \<Rightarrow> write_op list" where
  "version_ops dk t v =
     [Put DocumentHistory (hist_key dk t) v,
      if visible None v = None then Delete LatestVersion dk
      else Put LatestVersion dk (str_bytes (format_sys_from t))]"

lemma visible_None_encode [simp]:
  "visible None (encode_value tag vf vu body) = None \<longleftrightarrow> tag \<noteq> Live"
  by (simp add: visible_def is_live_def covers_def)

lemma version_ops_rows:
  "rows_apply_all m (version_ops dk t v) DocumentHistory = (m DocumentHistory)(hist_key dk t \<mapsto> v)"
  "rows_apply_all m (version_ops dk t v) LatestVersion = (m LatestVersion)
     (dk := (if visible None v = None then None else Some (str_bytes (format_sys_from t))))"
  by (simp_all add: version_ops_def)

lemma version_at_other:
  "0 \<notin> set dk \<Longrightarrow> 0 \<notin> set dk' \<Longrightarrow> dk' \<noteq> dk \<Longrightarrow>
   version_at (h(hist_key dk t \<mapsto> v)) dk' u w = version_at h dk' u w"
  unfolding version_at_def by (simp add: hist_key_eq_iff)

lemma version_at_newest:
  assumes "\<And>u. h (hist_key dk u) \<noteq> None \<Longrightarrow> sint u < sint t" "0 \<le> sint t"
  shows "version_at (h(hist_key dk t \<mapsto> v)) dk i64_max u \<longleftrightarrow> u = t"
proof -
  have "version_at (h(hist_key dk t \<mapsto> v)) dk i64_max t"
    unfolding version_at_def using assms sint_i64_max by (auto intro: less_imp_le)
  then show ?thesis
    using version_at_unique by blast
qed

lemma history_ok_append:
  assumes "history_ok m" "versions_before (sint t) m" "0 \<notin> set dk" "0 \<le> sint t" "is_ok (decode_value v)"
  shows "history_ok (rows_apply_all m (version_ops dk t v))"
proof -
  let ?h = "(m DocumentHistory)(hist_key dk t \<mapsto> v)"
  have "history_wf ?h"
    using assms unfolding history_ok_def history_wf_def by auto
  moreover have "pointer_ok ?h (rows_apply_all m (version_ops dk t v) LatestVersion) dk'" if "0 \<notin> set dk'" for dk'
  proof (cases "dk' = dk")
    case True
    have "version_at ?h dk i64_max u \<longleftrightarrow> u = t" for u
      using assms(2-4) by (intro version_at_newest) (auto simp: versions_before_def)
    then show ?thesis
      by (simp add: True pointer_ok_def version_ops_rows)
  next
    case False
    then show ?thesis
      using assms(1,3) that
      by (simp add: history_ok_def pointer_ok_def version_ops_rows version_at_other hist_key_eq_iff)
  qed
  ultimately show ?thesis
    by (simp add: history_ok_def version_ops_rows)
qed

lemma versions_before_mono: "versions_before b m \<Longrightarrow> b \<le> b' \<Longrightarrow> versions_before b' m"
  unfolding versions_before_def by (meson less_le_trans)

lemma versions_before_append:
  assumes "versions_before (sint t) m" "0 \<notin> set dk"
  shows "versions_before (sint t + 1) (rows_apply_all m (version_ops dk t v))"
  using assms versions_before_mono [OF assms(1), of "sint t + 1"]
  by (simp add: versions_before_def version_ops_rows hist_key_eq_iff)

subsection \<open>Runs of writes\<close>

datatype doc_write =
    DocPut string string bytes i64 "i64 option" "i64 option"
  | DocTombstone string string i64 "i64 option"

primrec write_time :: "doc_write \<Rightarrow> i64" where
  "write_time (DocPut c d body t vf vu) = t"
| "write_time (DocTombstone c d t vf) = t"

primrec write_collection :: "doc_write \<Rightarrow> string" where
  "write_collection (DocPut c d body t vf vu) = c"
| "write_collection (DocTombstone c d t vf) = c"

primrec write_doc :: "doc_write \<Rightarrow> string" where
  "write_doc (DocPut c d body t vf vu) = d"
| "write_doc (DocTombstone c d t vf) = d"

primrec write_value :: "doc_write \<Rightarrow> bytes" where
  "write_value (DocPut c d body t vf vu) =
     encode_value Live (unwrap_or vf t) (unwrap_or vu i64_max) body"
| "write_value (DocTombstone c d t vf) = encode_value Tombstone (unwrap_or vf t) i64_max []"

primrec doc_write_step :: "'s storage_ops \<Rightarrow> doc_write \<Rightarrow> 's \<Rightarrow> unit lite_result \<times> 's" where
  "doc_write_step so (DocPut c d body t vf vu) s = versioned_put so c d body t vf vu s"
| "doc_write_step so (DocTombstone c d t vf) s = versioned_tombstone so c d t vf s"

definition doc_run :: "'s storage_ops \<Rightarrow> doc_write list \<Rightarrow> 's \<Rightarrow> 's" where
  "doc_run so ws s = foldl (\<lambda>s w. snd (doc_write_step so w s)) s ws"

definition run_times_ok :: "doc_write list \<Rightarrow> bool" where
  "run_times_ok ws \<longleftrightarrow>
     sorted_wrt (\<lambda>a b. sint (write_time a) < sint (write_time b)) ws \<and>
     list_all (\<lambda>w. 0 \<le> sint (write_time w) \<and> 0 \<notin> set (str_bytes (write_collection w))) ws"

lemma doc_write_step_eq:
  "doc_write_step so w s =
     (if 0 \<in> set (str_bytes (write_doc w)) then (Inl BadRequest, s)
      else so_batch_write so s
        (version_ops (latest_version_key (write_collection w) (write_doc w)) (write_time w) (write_value w)))"
  by (cases w) (simp_all add: versioned_put_def versioned_tombstone_def versioned_doc_key_eq version_ops_def)

lemma write_value_ok [simp]: "is_ok (decode_value (write_value w))"
  by (cases w) simp_all

lemma latest_version_key_nul:
  "0 \<in> set (latest_version_key c d) \<longleftrightarrow> 0 \<in> set (str_bytes c) \<or> 0 \<in> set (str_bytes d)"
  by (auto simp: latest_version_key_def str_bytes_def)

subsection \<open>The rebuilt index, abstractly\<close>

text \<open>\<open>best\<close> is the latest version of each document among parsed rows; of rows with equal times
  the last counts. \<open>indexed\<close> says what an index with these latest versions holds.\<close>

definition best :: "(string \<times> i64 \<times> version_tag) list \<Rightarrow> string \<rightharpoonup> i64 \<times> version_tag" where
  "best ps = foldl (\<lambda>b (d, t, g).
     case b d of
       Some (t0, g0) \<Rightarrow> if sint t0 \<le> sint t then b(d \<mapsto> (t, g)) else b
     | None \<Rightarrow> b(d \<mapsto> (t, g))) Map.empty ps"

definition indexed ::
  "string \<Rightarrow> (string \<rightharpoonup> i64 \<times> version_tag) \<Rightarrow> rows \<Rightarrow> rows \<Rightarrow> bool" where
  "indexed c b m m' \<longleftrightarrow>
     (\<forall>ns. ns \<noteq> LatestVersion \<longrightarrow> m' ns = m ns) \<and>
     (\<forall>d. m' LatestVersion (latest_version_key c d) =
        (case b d of
           None \<Rightarrow> m LatestVersion (latest_version_key c d)
         | Some (t, g) \<Rightarrow> if g = Live then Some (str_bytes (format_sys_from t)) else None)) \<and>
     (\<forall>k. (\<forall>d. k \<noteq> latest_version_key c d) \<longrightarrow> m' LatestVersion k = m LatestVersion k)"

lemma best_Nil [simp]: "best [] = Map.empty"
  by (simp add: best_def)

lemma best_snoc:
  "best (ps @ [(d, t, g)]) =
     (case best ps d of
        Some (t0, g0) \<Rightarrow> if sint t0 \<le> sint t then (best ps)(d \<mapsto> (t, g)) else best ps
      | None \<Rightarrow> (best ps)(d \<mapsto> (t, g)))"
  unfolding best_def by (simp only: foldl_append foldl_Cons foldl_Nil prod.case)

lemma best_single: "best [(d, t, g)] = Map.empty(d \<mapsto> (t, g))"
  using best_snoc [of "[]"] by simp

lemma best_None: "d \<notin> fst ` set ps \<Longrightarrow> best ps d = None"
  by (induction ps rule: rev_induct) (auto simp: best_snoc split: option.splits)

lemma best_in: "best ps d = Some (t, g) \<Longrightarrow> (d, t, g) \<in> set ps"
  by (induction ps rule: rev_induct) (auto simp: best_snoc split: option.splits if_splits)

lemma best_max: "(d, u, g') \<in> set ps \<Longrightarrow> \<exists>t g. best ps d = Some (t, g) \<and> sint u \<le> sint t"
proof (induction ps rule: rev_induct)
  case (snoc p ps)
  obtain d' t' h where p: "p = (d', t', h)"
    by (cases p)
  show ?case
  proof (cases "(d, u, g') \<in> set ps")
    case True
    then obtain t g where b: "best ps d = Some (t, g)" "sint u \<le> sint t"
      using snoc.IH by blast
    show ?thesis
    proof (cases "d' = d")
      case True
      then show ?thesis
        using b by (cases "sint t \<le> sint t'") (simp_all add: p best_snoc)
    next
      case False
      then show ?thesis
        using b by (simp add: p best_snoc split: option.split)
    qed
  next
    case False
    then have "p = (d, u, g')"
      using snoc.prems by simp
    then show ?thesis
      by (cases "best ps d") (auto simp: best_snoc)
  qed
qed simp

lemma latest_version_key_inject [simp]: "latest_version_key c d = latest_version_key c d' \<longleftrightarrow> d = d'"
  by (simp add: latest_version_key_def)

lemma indexed_refl: "indexed c Map.empty m m"
  by (simp add: indexed_def)

lemma indexed_pointer:
  "indexed c b m m' \<Longrightarrow> indexed c (b(d \<mapsto> (t, g))) m (rows_apply m' (pointer_op c (d, t, g)))"
  by (auto simp: indexed_def pointer_op_def pointer_value_def)

text \<open>Rows of one document are adjacent in key order.\<close>

definition parsed :: "bytes \<Rightarrow> kv_pair list \<Rightarrow> (string \<times> i64 \<times> version_tag) list" where
  "parsed pre rows = List.map_filter (parse_row pre) rows"

definition grouped :: "(string \<times> i64 \<times> version_tag) list \<Rightarrow> bool" where
  "grouped ps \<longleftrightarrow>
     (\<forall>ys q zs. ps = ys @ q # zs \<longrightarrow> fst q \<in> fst ` set ys \<longrightarrow> fst q = fst (last ys))"

lemma parsed_simps [simp]:
  "parsed pre [] = []"
  "parsed pre (r # rs) = (case parse_row pre r of None \<Rightarrow> parsed pre rs | Some p \<Rightarrow> p # parsed pre rs)"
  "parsed pre (rs @ rs') = parsed pre rs @ parsed pre rs'"
  by (simp_all add: parsed_def List.map_filter_def split: option.splits)

lemma row_doc_id_prefix:
  assumes "row_doc_id pre k = Some d" "prefix pre k"
  shows "prefix (pre @ str_bytes d @ [0]) k"
proof -
  obtain z where z: "k = pre @ z"
    using assms(2) by (auto simp: prefix_def)
  let ?raw = "takeWhile (\<lambda>b. b \<noteq> 0) z"
  have "0 \<in> set z" "d = bytes_str ?raw"
    using assms(1) by (auto simp: row_doc_id_def z Let_def split: if_splits)
  then have "dropWhile (\<lambda>b. b \<noteq> 0) z \<noteq> []" "str_bytes d = ?raw"
    by auto
  moreover have "dropWhile (\<lambda>b. b \<noteq> 0) z = 0 # tl (dropWhile (\<lambda>b. b \<noteq> 0) z)"
    using calculation(1) hd_dropWhile [of "\<lambda>b. b \<noteq> 0" z] by (cases "dropWhile (\<lambda>b. b \<noteq> 0) z") simp_all
  ultimately have "z = str_bytes d @ 0 # tl (dropWhile (\<lambda>b. b \<noteq> 0) z)"
    using takeWhile_dropWhile_id [of "\<lambda>b. b \<noteq> 0" z] by simp
  then show ?thesis
    unfolding z prefix_def by (metis append.assoc append_Cons append_Nil)
qed

lemma row_doc_id_block:
  assumes "row_doc_id pre k = Some d" "row_doc_id pre k' = Some d" "row_doc_id pre b = Some e"
    and "prefix pre k" "prefix pre k'" "prefix pre b" "k \<le> b" "b \<le> k'"
  shows "e = d"
proof -
  let ?p = "pre @ str_bytes d @ [0]"
  have k: "prefix ?p k" "prefix ?p k'"
    using assms row_doc_id_prefix by blast+
  have "?p \<le> b"
    using prefix_le [OF k(1)] assms(7) by (rule order_trans)
  then have b: "prefix ?p b"
    using prefix_block [OF k(2)] assms(8) by (meson leD)
  then obtain w where w: "b = pre @ str_bytes d @ 0 # w"
    by (auto simp: prefix_def)
  have "0 \<notin> set (str_bytes d)"
    using assms(1) by (auto simp: row_doc_id_def Let_def dest: set_takeWhileD split: if_splits)
  then have "takeWhile (\<lambda>b. b \<noteq> 0) (str_bytes d @ 0 # w) = str_bytes d"
    by (subst takeWhile_append2) auto
  then show ?thesis
    using assms(3) by (simp add: row_doc_id_def w Let_def split: if_splits)
qed

lemma parse_row_doc_id: "parse_row pre r = Some p \<Longrightarrow> row_doc_id pre (fst r) = Some (fst p)"
  by (auto simp: parse_row_def split: option.splits sum.splits)

lemma parsed_grouped:
  assumes "sorted_wrt (<) (map fst rows)" "\<And>k. k \<in> fst ` set rows \<Longrightarrow> prefix pre k"
  shows "grouped (parsed pre rows)"
  unfolding grouped_def
proof (intro allI impI)
  fix ys q zs
  assume split: "parsed pre rows = ys @ q # zs" and seen: "fst q \<in> fst ` set ys"
  let ?F = "filter (\<lambda>r. parse_row pre r \<noteq> None) rows" and ?p = "\<lambda>r. the (parse_row pre r)"
  have "map ?p ?F = ys @ q # zs"
    using split by (simp add: parsed_def List.map_filter_def comp_def)
  then obtain F1 r F2 where F: "?F = F1 @ r # F2" "ys = map ?p F1" "q = ?p r"
    by (auto simp: map_eq_append_conv Cons_eq_map_conv)
  have sorted: "sorted_wrt (\<lambda>a b. fst a < fst b) (F1 @ r # F2)"
    unfolding F(1) [symmetric] using assms(1) by (intro sorted_wrt_filter) (simp add: sorted_wrt_map)
  have some: "\<exists>p. parse_row pre x = Some p \<and> prefix pre (fst x)" if "x \<in> set (F1 @ r # F2)" for x
    using that assms(2) unfolding F(1) [symmetric] by auto
  have ne: "F1 \<noteq> []"
    using seen F(2) by auto
  obtain a where a: "a \<in> set F1" "fst (?p a) = fst q"
    using seen F(2) by auto
  let ?l = "last F1"
  have le: "fst a \<le> fst ?l"
    using sorted a(1) ne by (cases F1 rule: rev_cases) (auto simp: sorted_wrt_append less_imp_le)
  have lt: "fst ?l < fst r"
    using sorted ne by (simp add: sorted_wrt_append)
  have id: "row_doc_id pre (fst x) = Some (fst (?p x))" "prefix pre (fst x)" if "x \<in> set (F1 @ r # F2)" for x
    using some [OF that] parse_row_doc_id [of pre x] by auto
  have in_F: "a \<in> set (F1 @ r # F2)" "r \<in> set (F1 @ r # F2)" "?l \<in> set (F1 @ r # F2)"
    using a(1) ne by simp_all
  have "fst (?p ?l) = fst q"
    using id [OF in_F(1)] id [OF in_F(2)] id [OF in_F(3)] a(2) F(3) le less_imp_le [OF lt]
    by (intro row_doc_id_block [of pre "fst a" "fst q" "fst r" "fst ?l"]) simp_all
  then show "fst q = fst (last ys)"
    using ne F(2) by (simp add: last_map)
qed

text \<open>The state of the rebuild after some parsed rows: with the queued writes applied, the index holds
  the latest versions of the finished documents, and the current document is pending.\<close>

definition pointer_writes :: "write_op list \<Rightarrow> bool" where
  "pointer_writes ops \<longleftrightarrow> list_all (\<lambda>op. \<exists>k v. op = Put LatestVersion k v \<or> op = Delete LatestVersion k) ops"

definition backfill_inv ::
  "string \<Rightarrow> rows \<Rightarrow> (string \<times> i64 \<times> version_tag) list \<Rightarrow> backfill \<Rightarrow> rows \<Rightarrow> bool" where
  "backfill_inv c m0 ps st m \<longleftrightarrow>
     pointer_writes (bf_ops st) \<and>
     (case bf_latest st of
        None \<Rightarrow> ps = [] \<and> indexed c Map.empty m0 (rows_apply_all m (bf_ops st))
      | Some (d, t, g) \<Rightarrow>
          ps \<noteq> [] \<and> fst (last ps) = d \<and>
          (\<exists>b. best ps = b(d \<mapsto> (t, g)) \<and> indexed c b m0 (rows_apply_all m (bf_ops st))))"

lemma pointer_writes_history:
  "pointer_writes ops \<Longrightarrow> rows_apply_all m ops DocumentHistory = m DocumentHistory"
  by (induction ops arbitrary: m) (auto simp: pointer_writes_def)

lemma pointer_op_writes: "pointer_writes [pointer_op c p]"
  by (cases p) (simp add: pointer_writes_def pointer_op_def Let_def)

lemma backfill_inv_cursor [simp]:
  "backfill_inv c m0 ps (st\<lparr>bf_cursor := x\<rparr>) m = backfill_inv c m0 ps st m"
  by (simp add: backfill_inv_def split: option.split)

lemma pointer_writes_append [simp]: "pointer_writes (xs @ ys) \<longleftrightarrow> pointer_writes xs \<and> pointer_writes ys"
  by (simp add: pointer_writes_def)

lemma cursor_resume:
  assumes "finite (dom m)" "prefix es (entries_where (cursor_match pre cur) m)" "es \<noteq> []"
  shows "entries_where (cursor_match pre cur) m
       = es @ entries_where (cursor_match pre (Some (fst (last es)))) m"
proof -
  have "last es \<in> set (entries_where (cursor_match pre cur) m)"
    using assms(2,3) set_mono_prefix by fastforce
  then have "cursor_match pre cur (fst (last es))"
    by (auto simp: entries_where_set [OF assms(1)] case_prod_unfold)
  then have "(cursor_match pre cur k \<and> fst (last es) < k) = cursor_match pre (Some (fst (last es))) k" for k
    by (auto simp: cursor_match_def split: option.splits)
  then show ?thesis
    using entries_where_resume [OF assms] by simp
qed

text \<open>A page entry shows the live version its pointer names.\<close>

definition current_entry ::
  "('val, 'fields) body_codec \<Rightarrow> rows \<Rightarrow> string \<Rightarrow> bytes \<Rightarrow> string \<Rightarrow> 'fields \<Rightarrow> bool" where
  "current_entry bc m c k d f \<longleftrightarrow>
     k = latest_version_key c d \<and>
     (\<exists>p t hb v. m LatestVersion k = Some p \<and> parse_pointer p = Inr t \<and>
        m DocumentHistory (hist_key k t) = Some hb \<and> decode_value hb = Inr v \<and> is_live v \<and>
        body_fields bc (dv_body v) = Inr f)"

subsection \<open>The history over a store\<close>

locale history_store = storage_engine +
  assumes history_visible: "\<not> hidden DocumentHistory k"
    and pointers_visible: "\<not> hidden LatestVersion k"
begin

lemma as_of_answer:
  assumes "store_inv s" "history_wf (rows_of s DocumentHistory)" "0 \<notin> set (latest_version_key c d)"
    and "versioned_get_as_of so s c d t vt = Inr r"
  shows "answer_at (rows_of s DocumentHistory) (latest_version_key c d) t vt r"
proof -
  let ?h = "rows_of s DocumentHistory" and ?dk = "latest_version_key c d"
  let ?P = "\<lambda>(k, v :: bytes). sint (the (parse_sys_from k)) \<le> sint t"
  note fin = finite_rows [OF assms(1), of DocumentHistory]
  define es where "es = entries_where (prefix (?dk @ [0])) ?h"
  have rows: "\<exists>u. k = hist_key ?dk u \<and> 0 \<le> sint u \<and> is_ok (decode_value v)" if "(k, v) \<in> set es" for k v
    using that assms(2,3) unfolding es_def entries_where_set [OF fin] history_wf_def
    by (fastforce simp: hist_key_prefix)
  have mem: "(hist_key ?dk u, v) \<in> set es \<longleftrightarrow> ?h (hist_key ?dk u) = Some v" for u v
    unfolding es_def entries_where_set [OF fin] by (simp add: hist_key_def prefix_def)
  have desc: "sorted_wrt (\<lambda>a b. fst b < fst a) (rev es)"
    using entries_where_sorted [of "prefix (?dk @ [0])" ?h] unfolding es_def sorted_wrt_map sorted_wrt_rev .
  have r: "r = (case find ?P (rev es) of None \<Rightarrow> None | Some (k, v) \<Rightarrow> visible vt v)"
  proof -
    have "so_scan_prefix so s DocumentHistory (?dk @ [0]) = Inr es'" if "versioned_get_as_of so s c d t vt = Inr r"
        "es' = es" for es'
      using that scan_prefix_law [OF assms(1), of "?dk @ [0]" DocumentHistory] history_visible
      by (auto simp: versioned_get_as_of_def doc_prefix_eq es_def)
    then have "as_of_rows t vt (rev es) = Inr r"
      using assms(4) by (simp add: versioned_get_as_of_def doc_prefix_eq)
    then show ?thesis
      using as_of_rows_find [of "rev es" ?dk t vt] rows by auto
  qed
  show ?thesis
  proof (cases "find ?P (rev es)")
    case None
    then have "\<not> version_at ?h ?dk t u" for u
      using mem by (fastforce simp: find_None_iff version_at_def)
    then show ?thesis
      using r None by (simp add: answer_at_def)
  next
    case (Some kv)
    obtain k v where kv: "kv = (k, v)"
      by (cases kv)
    have in_es: "(k, v) \<in> set es" "?P (k, v)"
      using find_SomeD [OF Some] by (simp_all add: kv)
    then obtain u where u: "k = hist_key ?dk u" "0 \<le> sint u"
      using rows by blast
    have "sint w \<le> sint u" if w: "?h (hist_key ?dk w) \<noteq> None" "0 \<le> sint w" "sint w \<le> sint t" for w
    proof -
      obtain v' where "?h (hist_key ?dk w) = Some v'"
        using w(1) by blast
      then have "(hist_key ?dk w, v') = (k, v) \<or> hist_key ?dk w < k"
        using find_first_sorted [OF desc Some, of "(hist_key ?dk w, v')"] w(3) mem by (auto simp: kv)
      then show ?thesis
        using w(2) u by (auto simp: hist_key_less)
    qed
    then have at: "version_at ?h ?dk t u"
      using in_es mem u by (auto simp: version_at_def)
    have "r = visible vt v" "?h (hist_key ?dk u) = Some v"
      using r Some in_es(1) mem by (auto simp: kv u(1))
    then show ?thesis
      by (intro answer_atI [OF at]) simp
  qed
qed

lemma current_answer:
  assumes "store_inv s" "pointer_ok (rows_of s DocumentHistory) (rows_of s LatestVersion) (latest_version_key c d)"
    and "versioned_get_current so s c d = Inr r"
  shows "answer_at (rows_of s DocumentHistory) (latest_version_key c d) i64_max None r"
proof -
  let ?h = "rows_of s DocumentHistory" and ?dk = "latest_version_key c d"
  have get: "so_get so s ns k = Inr v \<Longrightarrow> rows_of s ns k = v" for ns k v
    using get_law [OF assms(1)] by simp
  have none: "r = None" if "rows_of s LatestVersion ?dk = None"
    using assms(3) that by (auto simp: versioned_get_current_def dest!: get)
  have some: "r = visible None (the (?h (hist_key ?dk u)))"
    if "rows_of s LatestVersion ?dk = Some (str_bytes (format_sys_from u))" for u
    using assms(3) that
    by (auto simp: versioned_get_current_def format_sys_from_def versioned_doc_key_eq visible_def covers_def
        dest!: get split: option.splits if_splits)
  show ?thesis
    using assms(2) none some unfolding answer_at_def pointer_ok_def by (metis (no_types, lifting))
qed

lemma doc_write_ok:
  assumes "store_inv s" "history_ok (rows_of s)" "versions_before (sint (write_time w)) (rows_of s)"
    and "run_times_ok [w]" "doc_write_step so w s = (r, s')"
  shows "store_inv s' \<and> history_ok (rows_of s') \<and>
         versions_before (sint (write_time w) + 1) (rows_of s')"
proof -
  have keep: "?thesis" if "store_inv s'" "rows_of s' = rows_of s"
    using that assms(2) versions_before_mono [OF assms(3), of "sint (write_time w) + 1"] by simp
  show ?thesis
  proof (cases "0 \<in> set (str_bytes (write_doc w))")
    case True
    then show ?thesis
      using keep assms(1,5) by (simp add: doc_write_step_eq)
  next
    case False
    let ?dk = "latest_version_key (write_collection w) (write_doc w)"
    have dk: "0 \<notin> set ?dk" and t: "0 \<le> sint (write_time w)"
      using False assms(4) by (simp_all add: latest_version_key_nul run_times_ok_def)
    have b: "so_batch_write so s (version_ops ?dk (write_time w) (write_value w)) = (r, s')"
      using False assms(5) by (simp add: doc_write_step_eq)
    show ?thesis
    proof (cases "is_ok r")
      case True
      then have "rows_of s' = rows_apply_all (rows_of s) (version_ops ?dk (write_time w) (write_value w))"
        using batch_atomic [OF assms(1) b] by simp
      then show ?thesis
        using history_ok_append [OF assms(2,3) dk t] versions_before_append [OF assms(3) dk]
          batch_inv [OF assms(1) b] by simp
    next
      case False
      then show ?thesis
        using keep batch_inv [OF assms(1) b] batch_atomic [OF assms(1) b] by simp
    qed
  qed
qed

lemma doc_run_ok:
  assumes "store_inv s" "history_ok (rows_of s)" "run_times_ok ws"
    and "ws \<noteq> [] \<Longrightarrow> versions_before (sint (write_time (hd ws))) (rows_of s)"
  shows "store_inv (doc_run so ws s) \<and> history_ok (rows_of (doc_run so ws s)) \<and>
         (ws \<noteq> [] \<longrightarrow> versions_before (sint (write_time (last ws)) + 1) (rows_of (doc_run so ws s)))"
  using assms
proof (induction ws arbitrary: s)
  case (Cons w ws)
  obtain r s' where step: "doc_write_step so w s = (r, s')"
    by (cases "doc_write_step so w s")
  have w: "run_times_ok [w]" "run_times_ok ws"
    using Cons.prems(3) by (simp_all add: run_times_ok_def)
  have s': "store_inv s'" "history_ok (rows_of s')"
      "versions_before (sint (write_time w) + 1) (rows_of s')"
    using doc_write_ok [OF Cons.prems(1,2) _ w(1) step] Cons.prems(4) by simp_all
  have "sint (write_time w) < sint (write_time (hd ws))" if "ws \<noteq> []"
    using Cons.prems(3) that by (cases ws) (simp_all add: run_times_ok_def)
  then show ?case
    using Cons.IH [OF s'(1,2) w(2)] s'(3) versions_before_mono [OF s'(3)] step
    by (cases ws) (simp_all add: doc_run_def)
qed (simp add: doc_run_def)

lemma queue_pointer_view:
  assumes "store_inv s" "pointer_writes (bf_ops st)"
    and "queue_pointer so c p mr mb st s = (Inr st', s')"
  shows "store_inv s' \<and> pointer_writes (bf_ops st') \<and> bf_latest st' = bf_latest st \<and> bf_cursor st' = bf_cursor st \<and>
         rows_of s' DocumentHistory = rows_of s DocumentHistory \<and>
         rows_apply_all (rows_of s') (bf_ops st')
           = rows_apply (rows_apply_all (rows_of s) (bf_ops st)) (pointer_op c p)"
proof -
  obtain d t g where p: "p = (d, t, g)"
    by (cases p)
  define full where "full \<longleftrightarrow> bf_ops st \<noteq> [] \<and> (mr \<le> length (bf_ops st) \<or>
    mb - bf_bytes st < usize_sat_add (length (latest_version_key c d)) (length (pointer_value t g)))"
  show ?thesis
  proof (cases full)
    case True
    then obtain u where w: "so_batch_write so s (bf_ops st) = (Inr u, s')"
        "bf_ops st' = [pointer_op c p]" "bf_latest st' = bf_latest st" "bf_cursor st' = bf_cursor st"
      using assms(3) unfolding p full_def
      by (auto simp: queue_pointer_def Let_def split: if_splits prod.splits sum.splits)
    then show ?thesis
      using batch_inv [OF assms(1) w(1)] batch_ok [OF assms(1) w(1)] pointer_writes_history [OF assms(2)]
        pointer_op_writes by simp
  next
    case False
    then have "s' = s" "bf_ops st' = bf_ops st @ [pointer_op c p]" "bf_latest st' = bf_latest st"
        "bf_cursor st' = bf_cursor st"
      using assms(3) unfolding p full_def by (auto simp: queue_pointer_def Let_def split: if_splits)
    then show ?thesis
      using assms(1,2) pointer_op_writes by simp
  qed
qed

lemma backfill_row_inv:
  assumes "store_inv s" "backfill_inv c m0 ps st (rows_of s)" "grouped (ps @ parsed (coll_prefix c) [row])"
    and "backfill_row so c mr mb row st s = (Inr st', s')"
  shows "store_inv s' \<and> rows_of s' DocumentHistory = rows_of s DocumentHistory \<and>
         bf_cursor st' = Some (fst row) \<and>
         backfill_inv c m0 (ps @ parsed (coll_prefix c) [row]) st' (rows_of s')"
proof (cases "parse_row (coll_prefix c) row")
  case None
  then show ?thesis
    using assms(1,2,4) by (auto simp: backfill_row_def Let_def)
next
  case (Some p)
  obtain d t g where p: "p = (d, t, g)"
    by (cases p)
  let ?st = "st\<lparr>bf_cursor := Some (fst row)\<rparr>"
  have ps: "ps @ parsed (coll_prefix c) [row] = ps @ [(d, t, g)]"
    by (simp add: Some p)
  show ?thesis
  proof (cases "bf_latest st")
    case None
    then show ?thesis
      using assms(1,2,4) Some unfolding ps
      by (auto simp: backfill_row_def Let_def backfill_inv_def latest_step_def p best_single)
  next
    case (Some latest)
    then obtain d0 t0 g0 b where l: "bf_latest st = Some (d0, t0, g0)" "ps \<noteq> []" "fst (last ps) = d0"
        "best ps = b(d0 \<mapsto> (t0, g0))" "indexed c b m0 (rows_apply_all (rows_of s) (bf_ops st))"
        "pointer_writes (bf_ops st)"
      using assms(2) by (cases latest) (auto simp: backfill_inv_def)
    show ?thesis
    proof (cases "d = d0")
      case True
      then have st': "st' = ?st\<lparr>bf_latest := Some (latest_step p (Some (d0, t0, g0)))\<rparr>" "s' = s"
        using assms(4) l(1) \<open>parse_row (coll_prefix c) row = Some p\<close> by (auto simp: backfill_row_def Let_def p)
      have "best (ps @ [(d, t, g)]) = b(d \<mapsto> snd (latest_step p (Some (d0, t0, g0))))"
        using l(4) True by (simp add: best_snoc latest_step_def p)
      then show ?thesis
        unfolding ps using st' assms(1) l True
        by (auto simp: backfill_inv_def latest_step_def p)
    next
      case False
      have fresh: "d \<notin> fst ` set ps"
        using assms(3) False l(3) unfolding ps grouped_def by (metis fst_conv)
      obtain st1 where q: "queue_pointer so c (d0, t0, g0) mr mb (?st\<lparr>bf_latest := None\<rparr>) s = (Inr st1, s')"
          "st' = st1\<lparr>bf_latest := Some (latest_step p None)\<rparr>"
        using assms(4) l(1) False \<open>parse_row (coll_prefix c) row = Some p\<close>
        by (auto simp: backfill_row_def Let_def p split: prod.splits sum.splits)
      have v: "store_inv s'" "pointer_writes (bf_ops st1)" "bf_cursor st1 = Some (fst row)"
          "rows_of s' DocumentHistory = rows_of s DocumentHistory"
          "rows_apply_all (rows_of s') (bf_ops st1)
             = rows_apply (rows_apply_all (rows_of s) (bf_ops st)) (pointer_op c (d0, t0, g0))"
        using queue_pointer_view [OF assms(1) _ q(1)] l(6) by simp_all
      have "indexed c (best ps) m0 (rows_apply_all (rows_of s') (bf_ops st1))"
        unfolding v(5) l(4) by (rule indexed_pointer [OF l(5)])
      then show ?thesis
        unfolding ps using v q(2) best_None [OF fresh]
        by (auto simp: backfill_inv_def latest_step_def p best_snoc)
    qed
  qed
qed

lemma backfill_rows_inv:
  assumes "store_inv s" "backfill_inv c m0 ps st (rows_of s)" "grouped (ps @ parsed (coll_prefix c) rows)"
    and "backfill_rows so c mr mb rows st s = (Inr st', s')"
  shows "store_inv s' \<and> rows_of s' DocumentHistory = rows_of s DocumentHistory \<and>
         (rows \<noteq> [] \<longrightarrow> bf_cursor st' = Some (fst (last rows))) \<and>
         backfill_inv c m0 (ps @ parsed (coll_prefix c) rows) st' (rows_of s')"
  using assms
proof (induction rows arbitrary: ps st s)
  case (Cons row rows)
  have eq: "ps @ parsed (coll_prefix c) (row # rows)
      = (ps @ parsed (coll_prefix c) [row]) @ parsed (coll_prefix c) rows"
    by (simp split: option.split)
  have g: "grouped (ps @ parsed (coll_prefix c) [row])"
    using Cons.prems(3) unfolding eq grouped_def by (metis append.assoc append_Cons)
  obtain st1 s1 where s1: "backfill_row so c mr mb row st s = (Inr st1, s1)"
      "backfill_rows so c mr mb rows st1 s1 = (Inr st', s')"
    using Cons.prems(4) by (auto split: prod.splits sum.splits)
  have i: "store_inv s1" "rows_of s1 DocumentHistory = rows_of s DocumentHistory" "bf_cursor st1 = Some (fst row)"
      "backfill_inv c m0 (ps @ parsed (coll_prefix c) [row]) st1 (rows_of s1)"
    using backfill_row_inv [OF Cons.prems(1,2) g s1(1)] by simp_all
  show ?case
    using Cons.IH [OF i(1,4) Cons.prems(3) [unfolded eq] s1(2)] i(2,3) s1(2) unfolding eq
    by (cases rows) auto
qed simp

lemma backfill_rows_append:
  "backfill_rows so c mr mb (xs @ ys) st s =
     (case backfill_rows so c mr mb xs st s of
        (Inl e, s') \<Rightarrow> (Inl e, s')
      | (Inr st', s') \<Rightarrow> backfill_rows so c mr mb ys st' s')"
  by (induction xs arbitrary: st s) (auto split: prod.splits sum.splits)

text \<open>The loop ends, and what it did is one pass over the remaining rows of the collection.\<close>

lemma backfill_loop_returns:
  assumes "store_inv s" "0 < mr" "mb \<le> usize_max" "backfill_inv c m0 ps st (rows_of s)"
    and "grouped (ps @ parsed (coll_prefix c)
           (entries_where (cursor_match (coll_prefix c) (bf_cursor st)) (rows_of s DocumentHistory)))"
  shows "\<exists>r s'. backfill_loop so c mr mb st s = Some (r, s') \<and>
     (\<forall>st'. r = Inr st' \<longrightarrow>
        backfill_rows so c mr mb
          (entries_where (cursor_match (coll_prefix c) (bf_cursor st)) (rows_of s DocumentHistory)) st s
        = (Inr st', s'))"
  using assms(1,4,5)
proof (induction "length (entries_where (cursor_match (coll_prefix c) (bf_cursor st)) (rows_of s DocumentHistory))"
    arbitrary: ps st s rule: less_induct)
  case less
  let ?rest = "\<lambda>cur. entries_where (cursor_match (coll_prefix c) cur) (rows_of s DocumentHistory)"
  let ?scan = "so_scan_prefix_from_budgeted so s DocumentHistory (coll_prefix c) (bf_cursor st) mr mb"
  show ?case
  proof (cases ?scan)
    case (Inl e)
    then show ?thesis
      by (subst (1) backfill_loop.simps) simp
  next
    case (Inr page)
    let ?es = "ps_entries page"
    have page: "budget_ok (?rest (bf_cursor st)) mr mb page" "?es = [] \<longrightarrow> ps_limit page \<noteq> Some Bytes"
      using scan_prefix_from_budgeted_law [OF less.prems(1) _ Inr assms(2,3)] history_visible by blast+
    show ?thesis
    proof (cases "?es = []")
      case True
      then have "?rest (bf_cursor st) = []"
        using page assms(2) by (cases "ps_limit page"; cases "the (ps_limit page)") (auto simp: budget_ok_def)
      then show ?thesis
        using True Inr by (subst (1) backfill_loop.simps) simp
    next
      case False
      note fin = finite_rows [OF less.prems(1), of DocumentHistory]
      let ?last = "Some (fst (last ?es))"
      have "prefix ?es (?rest (bf_cursor st))"
        using page(1) by (simp add: budget_ok_def)
      then have split: "?rest (bf_cursor st) = ?es @ ?rest ?last"
        using cursor_resume [OF fin _ False] by simp
      then have g: "grouped (ps @ parsed (coll_prefix c) ?es)"
        using less.prems(3) unfolding grouped_def by (simp, metis append.assoc append_Cons)
      show ?thesis
      proof (cases "backfill_rows so c mr mb ?es st s")
        case (Pair r s1)
        show ?thesis
        proof (cases r)
          case (Inl e)
          then show ?thesis
            using False Inr Pair by (subst (1) backfill_loop.simps) simp
        next
          case (Inr st1)
          have i: "store_inv s1" "rows_of s1 DocumentHistory = rows_of s DocumentHistory"
              "bf_cursor st1 = ?last" "backfill_inv c m0 (ps @ parsed (coll_prefix c) ?es) st1 (rows_of s1)"
            using backfill_rows_inv [OF less.prems(1,2) g] Pair Inr False by simp_all
          have "length (?rest ?last) < length (?rest (bf_cursor st))"
            using False by (subst split) simp
          then have "\<exists>r s'. backfill_loop so c mr mb st1 s1 = Some (r, s') \<and>
              (\<forall>st'. r = Inr st' \<longrightarrow> backfill_rows so c mr mb (?rest ?last) st1 s1 = (Inr st', s'))"
            using less.hyps [of st1 s1 "ps @ parsed (coll_prefix c) ?es"] i less.prems(3) split by simp
          then show ?thesis
            using False Pair Inr \<open>?scan = Inr page\<close>
            by (subst (1) backfill_loop.simps) (simp add: split backfill_rows_append)
        qed
      qed
    qed
  qed
qed

lemma backfill_finish_view:
  assumes "store_inv s" "backfill_inv c m0 ps st (rows_of s)"
    and "backfill_finish so c mr mb st s = (Inr u, s')"
  shows "indexed c (best ps) m0 (rows_of s')"
proof -
  obtain st1 s1 where q: "(case bf_latest st of None \<Rightarrow> (Inr st, s)
        | Some previous \<Rightarrow> queue_pointer so c previous mr mb st s) = (Inr st1, s1)"
      "(if bf_ops st1 \<noteq> [] then so_batch_write so s1 (bf_ops st1) else (Inr (), s1)) = (Inr u, s')"
    using assms(3) by (auto simp: backfill_finish_def split: prod.splits sum.splits)
  have "store_inv s1 \<and> indexed c (best ps) m0 (rows_apply_all (rows_of s1) (bf_ops st1))"
  proof (cases "bf_latest st")
    case None
    then show ?thesis
      using q(1) assms(1,2) by (auto simp: backfill_inv_def)
  next
    case (Some previous)
    then obtain d t g b where l: "previous = (d, t, g)" "best ps = b(d \<mapsto> (t, g))"
        "indexed c b m0 (rows_apply_all (rows_of s) (bf_ops st))" "pointer_writes (bf_ops st)"
      using assms(2) by (cases previous) (auto simp: backfill_inv_def)
    show ?thesis
      using queue_pointer_view [OF assms(1) l(4), of c previous mr mb st1 s1] q(1) Some indexed_pointer [OF l(3)]
      by (simp add: l(1,2))
  qed
  then show ?thesis
    using q(2) batch_ok [of s1 "bf_ops st1"] by (cases "bf_ops st1 = []") auto
qed

lemma backfill_pages_index:
  assumes "store_inv s" "0 < mr" "mb \<le> usize_max"
  shows "\<exists>r s'. backfill_pages so c mr mb s = Some (r, s') \<and>
     (is_ok r \<longrightarrow> indexed c (best (parsed (coll_prefix c)
        (entries_where (prefix (coll_prefix c)) (rows_of s DocumentHistory)))) (rows_of s) (rows_of s'))"
proof -
  let ?rows = "entries_where (prefix (coll_prefix c)) (rows_of s DocumentHistory)"
  have inv: "backfill_inv c (rows_of s) [] backfill_start (rows_of s)"
    by (simp add: backfill_inv_def backfill_start_def pointer_writes_def indexed_refl)
  have rest: "entries_where (cursor_match (coll_prefix c) (bf_cursor backfill_start)) (rows_of s DocumentHistory) = ?rows"
    by (simp add: backfill_start_def cursor_match_def [abs_def])
  have "prefix (coll_prefix c) k" if "k \<in> fst ` set ?rows" for k
    using that by (auto simp: entries_where_set [OF finite_rows [OF assms(1)]])
  then have g: "grouped ([] @ parsed (coll_prefix c) ?rows)"
    using parsed_grouped [OF entries_where_sorted] by simp
  obtain r s1 where loop: "backfill_loop so c mr mb backfill_start s = Some (r, s1)"
      "\<And>st. r = Inr st \<Longrightarrow> backfill_rows so c mr mb ?rows backfill_start s = (Inr st, s1)"
    using backfill_loop_returns [OF assms inv, unfolded rest, OF g] by blast
  show ?thesis
  proof (cases r)
    case (Inl e)
    then show ?thesis
      using loop(1) by (simp add: backfill_pages_def)
  next
    case (Inr st)
    have i: "store_inv s1" "backfill_inv c (rows_of s) (parsed (coll_prefix c) ?rows) st (rows_of s1)"
      using backfill_rows_inv [OF assms(1) inv g loop(2) [OF Inr]] by simp_all
    obtain r' s' where f: "backfill_finish so c mr mb st s1 = (r', s')"
      by (cases "backfill_finish so c mr mb st s1")
    then show ?thesis
      using loop(1) Inr backfill_finish_view [OF i] by (auto simp: backfill_pages_def is_ok_iff)
  qed
qed

lemma current_history_row:
  assumes "store_inv s" "remaining \<le> usize_max" "current_history so s hk remaining = Inr (Some (sk, v))"
  shows "rows_of s DocumentHistory hk = Some v"
proof -
  obtain sc where sc: "so_scan_prefix_from_budgeted so s DocumentHistory hk None 1 remaining = Inr sc"
      "(case ps_entries sc of (k, v) # _ \<Rightarrow> if k = hk then Some (k, v) else None | [] \<Rightarrow> None) = Some (sk, v)"
    using assms(3) by (auto simp: current_history_def)
  then have v: "(hk, v) \<in> set (ps_entries sc)"
    by (cases "ps_entries sc") (auto split: if_splits)
  have "prefix (ps_entries sc) (entries_where (cursor_match hk None) (rows_of s DocumentHistory))"
    using scan_prefix_from_budgeted_law [OF assms(1) _ sc(1) _ assms(2)] history_visible
    by (simp add: budget_ok_def)
  then have "(hk, v) \<in> set (entries_where (cursor_match hk None) (rows_of s DocumentHistory))"
    using v set_mono_prefix by blast
  then show ?thesis
    by (simp add: entries_where_set [OF finite_rows [OF assms(1)]])
qed

lemma current_rows_sound:
  assumes "store_inv s" "mb \<le> usize_max"
    and "\<And>k p. (k, p) \<in> set ptrs \<Longrightarrow> rows_of s LatestVersion k = Some p \<and> prefix (coll_prefix c) k"
    and "current_rows so s bc c mb ptrs used res = Inr res'"
    and "\<And>k d f. (k, d, f) \<in> set (cp_entries res) \<Longrightarrow> current_entry bc (rows_of s) c k d f"
  shows "(k, d, f) \<in> set (cp_entries res') \<Longrightarrow> current_entry bc (rows_of s) c k d f"
  using assms(3-)
proof (induction ptrs arbitrary: used res)
  case Nil
  then show ?case by simp
next
  case (Cons ptr ptrs)
  obtain k0 p where ptr: "ptr = (k0, p)"
    by (cases ptr)
  let ?raw = "drop (length (coll_prefix c)) k0"
  have k0: "rows_of s LatestVersion k0 = Some p" "k0 = latest_version_key c (bytes_str ?raw)"
    using Cons.prems(2) [of k0 p] by (auto simp: ptr latest_version_key_eq prefix_def)
  show ?case
  proof (cases "res' = res")
    case True
    then show ?thesis
      using Cons.prems(1,4) by simp
  next
    case False
    then obtain t v version entries where h: "parse_pointer p = Inr t" "0 \<notin> set ?raw"
        "current_history so s (hist_key k0 t) (mb - used - usize_sat_add (length k0) (length p)) = Inr (Some (hist_key k0 t, v))"
        "decode_value v = Inr version"
        "(if is_live version then rbind (body_fields bc (dv_body version)) (\<lambda>fields.
            Inr (cp_entries res @ [(k0, bytes_str ?raw, fields)])) else Inr (cp_entries res)) = Inr entries"
        "current_rows so s bc c mb ptrs (usize_sat_add (usize_sat_add (usize_sat_add used
            (usize_sat_add (length k0) (length p))) (length (hist_key k0 t))) (length v))
            (res\<lparr>cp_entries := entries, cp_last_key := Some k0\<rparr>) = Inr res'"
      using Cons.prems(3) k0(2) unfolding ptr current_rows.simps Let_def
      by (auto simp: versioned_doc_key_eq current_history_def split: if_splits sum.splits option.splits list.splits)
    have "rows_of s DocumentHistory (hist_key k0 t) = Some v"
      using current_history_row [OF assms(1) _ h(3)] assms(2) by simp
    then have "current_entry bc (rows_of s) c k0 (bytes_str ?raw) fields"
      if "is_live version" "body_fields bc (dv_body version) = Inr fields" for fields
      using that h(1,4) k0 by (auto simp: current_entry_def)
    then have "current_entry bc (rows_of s) c k d f" if "(k, d, f) \<in> set entries" for k d f
      using that h(5) Cons.prems(4) by (auto split: if_splits)
    moreover have "rows_of s LatestVersion k = Some p \<and> prefix (coll_prefix c) k" if "(k, p) \<in> set ptrs" for k p
      using Cons.prems(2) that by (meson list.set_intros(2))
    ultimately show ?thesis
      using Cons.IH [OF Cons.prems(1) _ h(6)] by simp
  qed
qed

lemma current_page_sound:
  assumes "store_inv s" "0 < mr" "mb \<le> usize_max"
    and "current_document_page so s bc c after_key mr mb = Inr page" "(k, d, f) \<in> set (cp_entries page)"
  shows "current_entry bc (rows_of s) c k d f"
proof -
  obtain ptrs where p: "so_scan_prefix_from_budgeted so s LatestVersion (coll_prefix c) after_key mr mb = Inr ptrs"
      "current_rows so s bc c mb (ps_entries ptrs) 0 \<lparr>cp_entries = [], cp_last_key = None\<rparr> = Inr page"
    using assms(4) by (auto simp: current_document_page_def)
  have pre: "prefix (ps_entries ptrs) (entries_where (cursor_match (coll_prefix c) after_key) (rows_of s LatestVersion))"
    using scan_prefix_from_budgeted_law [OF assms(1) _ p(1) assms(2,3)] pointers_visible by (simp add: budget_ok_def)
  have "rows_of s LatestVersion k = Some v \<and> prefix (coll_prefix c) k" if "(k, v) \<in> set (ps_entries ptrs)" for k v
    using set_mono_prefix [OF pre, THEN subsetD, OF that]
    by (simp add: entries_where_set [OF finite_rows [OF assms(1)]] cursor_match_def)
  then show ?thesis
    using current_rows_sound [OF assms(1,3) _ p(2)] assms(5) by simp
qed

end


subsection \<open>The stores of the program\<close>

interpretation mem_hist: history_store "pagedb_engine mem_pagedb demo_nsb" "pagedb_rows map_of demo_nsb"
  "\<lambda>_. True" "\<lambda>_ _. False"
  by unfold_locales simp_all

interpretation enc_hist: history_store "encrypted_engine (pagedb_engine mem_pagedb demo_nsb) demo_env"
  "enc_rows demo_env (pagedb_rows map_of demo_nsb)"
  "enc_inv demo_env (pagedb_rows map_of demo_nsb) (\<lambda>_. True)" "enc_hidden (\<lambda>_ _. False)"
  by unfold_locales (simp_all add: enc_hidden_def is_salt_def)

subsection \<open>Parsed rows of a well-formed history\<close>

lemma parse_row_hist_key:
  assumes "0 \<notin> set (str_bytes c)" "0 \<notin> set dk" "prefix (coll_prefix c) (hist_key dk t)" "decode_value v = Inr dv"
    and "0 \<notin> set (str_bytes d)" "valid_utf8 (str_bytes d)"
  shows "parse_row (coll_prefix c) (hist_key dk t, v) = Some (d, u, g)
     \<longleftrightarrow> dk = latest_version_key c d \<and> t = u \<and> dv_tag dv = g"
proof -
  have c: "0 \<notin> set (coll_prefix c)"
    using assms(1) by (simp add: coll_prefix_def str_bytes_def)
  obtain z where z: "dk @ 0 # str_bytes (fmt_020 t) = coll_prefix c @ z"
    using assms(3) by (auto simp: hist_key_def prefix_def)
  have "dk = coll_prefix c @ drop (length (coll_prefix c)) dk"
    using z c [unfolded in_set_conv_decomp]
    by (auto simp: append_eq_append_conv2 Cons_eq_append_conv dest: sym)
  then obtain raw where raw: "dk = coll_prefix c @ raw" ..
  have nul: "0 \<notin> set raw"
    using assms(2) by (simp add: raw)
  then have "takeWhile (\<lambda>b. b \<noteq> 0) (raw @ 0 # str_bytes (fmt_020 t)) = raw"
    by (subst takeWhile_append2) auto
  then have "row_doc_id (coll_prefix c) (hist_key dk t) = (if valid_utf8 raw then Some (bytes_str raw) else None)"
    by (simp add: row_doc_id_def hist_key_def raw)
  moreover have "raw = str_bytes d \<longleftrightarrow> bytes_str raw = d"
    by (metis bytes_str_str_bytes str_bytes_bytes_str)
  ultimately show ?thesis
    using assms(4,6) by (auto simp: parse_row_def latest_version_key_eq raw)
qed

lemma parsed_versions:
  assumes "finite (dom h)" "history_wf h" "0 \<notin> set (str_bytes c)" "0 \<notin> set (str_bytes d)" "valid_utf8 (str_bytes d)"
  shows "(d, u, g) \<in> set (parsed (coll_prefix c) (entries_where (prefix (coll_prefix c)) h)) \<longleftrightarrow>
     (\<exists>v dv. h (hist_key (latest_version_key c d) u) = Some v \<and> decode_value v = Inr dv \<and> dv_tag dv = g)"
    (is "?l \<longleftrightarrow> ?r")
proof
  assume ?l
  then obtain k v where k: "h k = Some v" "prefix (coll_prefix c) k" "parse_row (coll_prefix c) (k, v) = Some (d, u, g)"
    by (force simp: parsed_def List.map_filter_def entries_where_set [OF assms(1)])
  then obtain dk t dv where "k = hist_key dk t" "0 \<notin> set dk" "decode_value v = Inr dv"
    using assms(2) unfolding history_wf_def by (metis is_ok_iff)
  then show ?r
    using k parse_row_hist_key [OF assms(3), of dk t v dv d u g] assms(4,5) by auto
next
  assume ?r
  then obtain v dv where v: "h (hist_key (latest_version_key c d) u) = Some v" "decode_value v = Inr dv" "dv_tag dv = g"
    by blast
  have "0 \<notin> set (latest_version_key c d)"
    using assms(3,4) by (simp add: latest_version_key_nul)
  moreover have "prefix (coll_prefix c) (hist_key (latest_version_key c d) u)"
    by (simp add: hist_key_def latest_version_key_eq prefix_def)
  ultimately have "parse_row (coll_prefix c) (hist_key (latest_version_key c d) u, v) = Some (d, u, g)"
    using parse_row_hist_key [OF assms(3) _ _ v(2) assms(4,5)] v(3) by simp
  moreover have "(hist_key (latest_version_key c d) u, v) \<in> set (entries_where (prefix (coll_prefix c)) h)"
    using v(1) by (simp add: entries_where_set [OF assms(1)] hist_key_def latest_version_key_eq prefix_def)
  ultimately show ?l
    unfolding parsed_def List.map_filter_def by force
qed

lemma indexed_pointer_ok:
  assumes "finite (dom h)" "history_wf h" "0 \<notin> set (str_bytes c)" "0 \<notin> set (str_bytes d)" "valid_utf8 (str_bytes d)"
    and "indexed c (best (parsed (coll_prefix c) (entries_where (prefix (coll_prefix c)) h))) m m'"
    and "version_at h (latest_version_key c d) i64_max u"
  shows "pointer_ok h (m' LatestVersion) (latest_version_key c d)"
proof -
  let ?ps = "parsed (coll_prefix c) (entries_where (prefix (coll_prefix c)) h)"
  note iff = parsed_versions [OF assms(1-5)]
  obtain v where hv: "h (hist_key (latest_version_key c d) u) = Some v"
    using assms(7) by (auto simp: version_at_def)
  then obtain dv where v: "h (hist_key (latest_version_key c d) u) = Some v" "decode_value v = Inr dv"
    using assms(2) unfolding history_wf_def is_ok_iff by blast
  then obtain t g where best: "best ?ps d = Some (t, g)" "sint u \<le> sint t"
    using best_max [of d u "dv_tag dv" ?ps] iff by blast
  obtain v' dv' where v': "h (hist_key (latest_version_key c d) t) = Some v'" "decode_value v' = Inr dv'" "dv_tag dv' = g"
    using best_in [OF best(1)] iff by blast
  have "sint t \<le> sint u"
    using assms(7) best(2) v'(1) sint_i64_max [of t] by (simp add: version_at_def)
  then have "t = u"
    using best(2) by (intro signed_word_eqI) simp
  then have "m' LatestVersion (latest_version_key c d)
      = (if visible None v = None then None else Some (str_bytes (format_sys_from u)))"
    using assms(6) best(1) v v' by (simp add: indexed_def visible_def is_live_def covers_def)
  moreover have "w = u" if "version_at h (latest_version_key c d) i64_max w" for w
    using version_at_unique [OF that assms(7)] .
  ultimately show ?thesis
    using v(1) assms(7) unfolding pointer_ok_def by (metis option.sel)
qed

subsection \<open>A small history\<close>

text \<open>One document with one live version, before and after its pointer is written.\<close>

abbreviation hist_engine :: "kv_pair list storage_ops" where
  "hist_engine \<equiv> pagedb_engine mem_pagedb demo_nsb"

definition demo_version :: bytes where
  "demo_version = encode_value Live 5 i64_max [1]"

definition demo_time :: bytes where
  "demo_time = str_bytes (fmt_020 5)"

definition demo_hist_db :: "kv_pair list" where
  "demo_hist_db = [([14, 97, 58, 120, 0] @ demo_time, demo_version)]"

definition demo_writes :: "doc_write list" where
  "demo_writes = [DocPut ''a'' ''x'' [1] 5 None None]"

lemma demo_latest_key: "latest_version_key ''a'' ''x'' = [97, 58, 120]"
  by (simp add: latest_version_key_def str_bytes_def)

lemma demo_hist_key: "hist_key [97, 58, 120] 5 = [97, 58, 120, 0] @ demo_time"
  by (simp add: hist_key_def demo_time_def)

lemma demo_coll_prefix: "coll_prefix ''a'' = [97, 58]"
  by (simp add: coll_prefix_def str_bytes_def)

lemma demo_version_ok [simp]: "is_ok (decode_value demo_version)" "visible None demo_version \<noteq> None"
  by (simp_all add: demo_version_def)

lemma demo_run:
  "doc_run hist_engine demo_writes [] = demo_hist_db @ [([11, 97, 58, 120], demo_time)]"
  by (simp add: doc_run_def demo_writes_def doc_write_step_eq demo_latest_key version_ops_def demo_hist_key
     str_bytes_def [of "''x''"] unwrap_or_def demo_hist_db_def demo_version_def demo_time_def [symmetric] format_sys_from_def
     batch_write_rows_def mem_pagedb_def commit_txn_def Let_def apply_batched_def prefix_key_def)

definition demo_current :: decoded_version where
  "demo_current = \<lparr>dv_tag = Live, dv_valid_from_ms = 5, dv_valid_until_ms = i64_max, dv_body = [1]\<rparr>"

lemma demo_scan:
  "so_scan_prefix hist_engine (demo_hist_db @ xs) DocumentHistory [97, 58, 120, 0] = Inr [([97, 58, 120, 0] @ demo_time, demo_version)]"
  if "filter (prefix [14, 97, 58, 120, 0]) (map fst xs) = []"
  using that
  by (simp add: scan_prefix_rows_def mem_pagedb_def mem_scan_def prefix_key_def demo_hist_db_def strip_rows_def strip_prefix_def)

lemma demo_parse: "parse_sys_from ([97, 58, 120, 0] @ demo_time) = Some 5"
  unfolding demo_hist_key [symmetric] by simp

lemma demo_as_of:
  "versioned_get_as_of hist_engine (demo_hist_db @ [([11, 97, 58, 120], demo_time)]) ''a'' ''x'' 9 None = Inr (Some demo_current)"
  using demo_scan [of "[([11, 97, 58, 120], demo_time)]"] demo_parse
  by (simp add: versioned_get_as_of_def doc_prefix_eq demo_latest_key demo_version_def covers_def demo_current_def)

lemma demo_current_get:
  "versioned_get_current hist_engine (demo_hist_db @ [([11, 97, 58, 120], demo_time)]) ''a'' ''x'' = Inr (Some demo_current)"
  by (simp add: versioned_get_current_def demo_latest_key get_rows_def mem_pagedb_def prefix_key_def demo_hist_db_def demo_time_def
     versioned_doc_key_eq hist_key_def str_bytes_def [of "''x''"] demo_version_def is_live_def demo_current_def)

lemma demo_lengths [simp]: "length demo_time = 20" "length demo_version = 18"
  by (simp_all add: demo_time_def demo_version_def encode_value_def)

lemma demo_page:
  "so_scan_prefix_from_budgeted hist_engine demo_hist_db DocumentHistory [97, 58] None 128 8388608
     = Inr \<lparr>ps_entries = [([97, 58, 120, 0] @ demo_time, demo_version)], ps_limit = None\<rparr>"
  by (simp add: scan_budgeted_def check_prefix_cursor_def demo_hist_db_def mem_pagedb_def Let_def
      prefix_key_def mem_scan_def usize_sat_add_def usize_checked_add_def usize_max_def strip_prefix_def)

lemma demo_page_end:
  "so_scan_prefix_from_budgeted hist_engine demo_hist_db DocumentHistory [97, 58]
     (Some ([97, 58, 120, 0] @ demo_time)) 128 8388608 = Inr \<lparr>ps_entries = [], ps_limit = None\<rparr>"
  by (simp add: scan_budgeted_def check_prefix_cursor_def demo_hist_db_def mem_pagedb_def Let_def
      prefix_key_def mem_scan_def usize_sat_add_def usize_checked_add_def usize_max_def snoc_zero_le_iff)

lemma demo_parse_row: "parse_row [97, 58] ([97, 58, 120, 0] @ demo_time, demo_version) = Some (''x'', 5, Live)"
proof -
  have "valid_utf8 (str_bytes ''x'')" "0 \<notin> set (str_bytes ''x'')"
    by (simp_all add: str_bytes_def)
  then show ?thesis
    using row_doc_id_hist_key [of "''x''" "''a''" 5] demo_parse
    by (simp add: demo_latest_key demo_coll_prefix demo_hist_key parse_row_def demo_version_def)
qed

lemma demo_backfill:
  "backfill_latest_version hist_engine ''a'' demo_hist_db = Some (Inr (), demo_hist_db @ [([11, 97, 58, 120], demo_time)])"
proof -
  let ?st = "\<lparr>bf_cursor = Some ([97, 58, 120, 0] @ demo_time), bf_latest = Some (''x'', 5, Live), bf_ops = [], bf_bytes = 0\<rparr>"
  have rows: "backfill_rows hist_engine ''a'' 128 8388608 [([97, 58, 120, 0] @ demo_time, demo_version)] backfill_start demo_hist_db
      = (Inr ?st, demo_hist_db)"
    using demo_parse_row by (simp add: backfill_row_def demo_coll_prefix backfill_start_def latest_step_def)
  have "backfill_loop hist_engine ''a'' 128 8388608 ?st demo_hist_db = Some (Inr ?st, demo_hist_db)"
    using demo_page_end by (subst backfill_loop.simps) (simp add: demo_coll_prefix)
  then have "backfill_loop hist_engine ''a'' 128 8388608 backfill_start demo_hist_db = Some (Inr ?st, demo_hist_db)"
    using demo_page rows by (subst backfill_loop.simps) (simp add: demo_coll_prefix backfill_start_def)
  moreover have "backfill_finish hist_engine ''a'' 128 8388608 ?st demo_hist_db
      = (Inr (), demo_hist_db @ [([11, 97, 58, 120], demo_time)])"
    by (simp add: backfill_finish_def queue_pointer_def demo_latest_key pointer_value_def format_sys_from_def
      demo_time_def [symmetric] usize_sat_add_def usize_max_def pointer_op_def Let_def
      batch_write_rows_def mem_pagedb_def commit_txn_def apply_batched_def prefix_key_def demo_hist_db_def)
  ultimately show ?thesis
    by (simp add: backfill_latest_version_def backfill_pages_def)
qed

definition demo_current_db :: "kv_pair list" where
  "demo_current_db = demo_hist_db @ [([11, 97, 58, 120], demo_time)]"

lemma demo_history_rows:
  "pagedb_rows map_of demo_nsb demo_current_db DocumentHistory = [hist_key [97, 58, 120] 5 \<mapsto> demo_version]"
  "pagedb_rows map_of demo_nsb demo_hist_db DocumentHistory = [hist_key [97, 58, 120] 5 \<mapsto> demo_version]"
  by (auto simp: pagedb_rows_def demo_current_db_def demo_hist_db_def demo_hist_key fun_eq_iff)

lemma demo_history_wf: "history_wf [hist_key [97, 58, 120] 5 \<mapsto> demo_version]"
  unfolding history_wf_def
  by (auto intro!: exI [of _ "[97, 58, 120]"] exI [of _ 5])

lemma demo_version_at: "5 \<le> sint t \<Longrightarrow> version_at [hist_key [97, 58, 120] 5 \<mapsto> demo_version] [97, 58, 120] t 5"
  by (simp add: version_at_def)

subsection \<open>Properties\<close>

text \<open>C36. The decimal keys of system times order as the times do for non-negative times only: among
  negative times the order is reversed.\<close>

theorem format_sys_from_order:
  "str_bytes (format_sys_from a) < str_bytes (format_sys_from b) \<longleftrightarrow>
     (if sint a < 0 \<and> sint b < 0 then sint b < sint a else sint a < sint b)"
proof (cases "sint a < 0 \<longleftrightarrow> sint b < 0")
  case True
  then show ?thesis
    using fmt_020_less_neg [of a b] fmt_020_less_nonneg [of a b] by (auto simp: format_sys_from_def)
next
  case False
  have digits: "\<exists>x xs. dec_digits 20 n = x # xs \<and> is_digit x" for n
    using length_dec_digits [of 20 n] dec_digits_digit [of _ 20 n] by (cases "dec_digits 20 n") simp_all
  show ?thesis
  proof (cases "sint a < 0")
    case True
    then show ?thesis
      using False digits [of "nat (sint b)"]
      by (auto simp: format_sys_from_def fmt_020_def str_bytes_def is_digit_def word_less_nat_alt)
  next
    case neg: False
    then show ?thesis
      using False digits [of "nat (sint a)"]
      by (auto simp: format_sys_from_def fmt_020_def str_bytes_def is_digit_def word_less_nat_alt word_unat_eq_iff)
  qed
qed

text \<open>C35. A read as of a system time returns the version with the greatest system time up to it, if that
  version is live and covers the valid time asked for, and nothing otherwise.\<close>

theorem get_as_of_exact:
  assumes "history_store so rows_of store_inv hidden" "store_inv s" "history_wf (rows_of s DocumentHistory)"
    and "0 \<notin> set (latest_version_key c d)" "versioned_get_as_of so s c d t vt = Inr r"
  shows "(\<forall>u. version_at (rows_of s DocumentHistory) (latest_version_key c d) t u \<longrightarrow>
            r = visible vt (the (rows_of s DocumentHistory (hist_key (latest_version_key c d) u)))) \<and>
         ((\<forall>u. \<not> version_at (rows_of s DocumentHistory) (latest_version_key c d) t u) \<longrightarrow> r = None)"
  using history_store.as_of_answer [OF assms] unfolding answer_at_def .

theorem get_as_of_exact_witness:
  "versioned_get_as_of hist_engine demo_current_db ''a'' ''x'' 9 None = Inr (Some demo_current) \<and>
   Some demo_current = visible None demo_version"
  using get_as_of_exact [OF mem_hist.history_store_axioms TrueI _ _ demo_as_of [folded demo_current_db_def]]
    demo_as_of demo_history_wf demo_version_at [of 9]
  by (simp add: demo_history_rows demo_latest_key demo_current_db_def [symmetric])

text \<open>C34. After any run of writes with increasing system times, failed ones included, the index answers what
  the history answers: the current version is the version as of any time from the last write on.\<close>

theorem current_is_as_of:
  assumes "history_store so rows_of store_inv hidden" "store_inv s"
    and "rows_of s DocumentHistory = Map.empty" "rows_of s LatestVersion = Map.empty"
    and "run_times_ok ws" "ws \<noteq> []" "sint (write_time (last ws)) \<le> sint t"
    and "0 \<notin> set (latest_version_key c d)"
    and "versioned_get_current so (doc_run so ws s) c d = Inr r"
    and "versioned_get_as_of so (doc_run so ws s) c d t None = Inr r'"
  shows "r = r'"
proof -
  let ?s = "doc_run so ws s" and ?dk = "latest_version_key c d"
  have "\<not> version_at Map.empty dk i64_max u" for dk u
    by (simp add: version_at_def)
  then have "history_ok (rows_of s)" "versions_before b (rows_of s)" for b
    using assms(3,4) by (simp_all add: history_ok_def history_wf_def pointer_ok_def versions_before_def)
  then have ok: "store_inv ?s" "history_ok (rows_of ?s)" "versions_before (sint (write_time (last ws)) + 1) (rows_of ?s)"
    using history_store.doc_run_ok [OF assms(1,2) _ assms(5)] assms(6) by simp_all
  have wf: "history_wf (rows_of ?s DocumentHistory)"
      "pointer_ok (rows_of ?s DocumentHistory) (rows_of ?s LatestVersion) ?dk"
    using ok(2) assms(8) by (simp_all add: history_ok_def)
  have "version_at (rows_of ?s DocumentHistory) ?dk t u = version_at (rows_of ?s DocumentHistory) ?dk i64_max u" for u
    using ok(3) assms(7,8) by (intro version_at_late) (force simp: versions_before_def)
  then have "answer_at (rows_of ?s DocumentHistory) ?dk i64_max None r'"
    using history_store.as_of_answer [OF assms(1) ok(1) wf(1) assms(8,10)] by (simp add: answer_at_def)
  then show ?thesis
    using history_store.current_answer [OF assms(1) ok(1) wf(2) assms(9)] answer_at_unique by blast
qed

theorem current_is_as_of_witness:
  "versioned_get_current hist_engine (doc_run hist_engine demo_writes []) ''a'' ''x''
     = versioned_get_as_of hist_engine (doc_run hist_engine demo_writes []) ''a'' ''x'' 9 None"
proof -
  let ?s = "doc_run hist_engine demo_writes []"
  obtain r r' where r: "versioned_get_current hist_engine ?s ''a'' ''x'' = Inr r"
      "versioned_get_as_of hist_engine ?s ''a'' ''x'' 9 None = Inr r'"
    using demo_as_of demo_current_get by (simp add: demo_run)
  have "r = r'"
    by (rule current_is_as_of [OF mem_hist.history_store_axioms TrueI _ _ _ _ _ _ r])
      (auto simp: demo_writes_def demo_latest_key run_times_ok_def str_bytes_def pagedb_rows_def)
  then show ?thesis
    using r by simp
qed

text \<open>C33. The rebuild of the index ends on every store, whatever its rows are; when it succeeds on a
  well-formed history, the pointer of every document of the collection names its latest version, or is
  absent when that version is not live, and no other namespace has changed.\<close>

theorem backfill_ends_correct:
  assumes "history_store so rows_of store_inv hidden" "store_inv s"
  shows "\<exists>r s'. backfill_latest_version so c s = Some (r, s') \<and>
     (is_ok r \<longrightarrow>
        (\<forall>ns. ns \<noteq> LatestVersion \<longrightarrow> rows_of s' ns = rows_of s ns) \<and>
        (history_wf (rows_of s DocumentHistory) \<longrightarrow> 0 \<notin> set (str_bytes c) \<longrightarrow>
           (\<forall>d u. 0 \<notin> set (str_bytes d) \<longrightarrow> valid_utf8 (str_bytes d) \<longrightarrow>
              version_at (rows_of s DocumentHistory) (latest_version_key c d) i64_max u \<longrightarrow>
              pointer_ok (rows_of s' DocumentHistory) (rows_of s' LatestVersion) (latest_version_key c d))))"
proof -
  let ?h = "rows_of s DocumentHistory"
  have fin: "finite (dom ?h)"
    using assms kv_store.finite_rows [of so rows_of store_inv s] storage_engine.axioms(1) [of so rows_of store_inv hidden]
      history_store.axioms(1) [OF assms(1)] by blast
  obtain r s' where b: "backfill_latest_version so c s = Some (r, s')"
      "is_ok r \<Longrightarrow> indexed c (best (parsed (coll_prefix c) (entries_where (prefix (coll_prefix c)) ?h)))
         (rows_of s) (rows_of s')"
    using history_store.backfill_pages_index [OF assms, of 128 "8 * 1024 * 1024" c]
    unfolding backfill_latest_version_def by (auto simp: usize_max_def)
  have "rows_of s' ns = rows_of s ns" if "is_ok r" "ns \<noteq> LatestVersion" for ns
    using b(2) that by (simp add: indexed_def)
  then show ?thesis
    using b indexed_pointer_ok [OF fin] by (intro exI [of _ r] exI [of _ s']) (simp, blast)
qed

theorem backfill_ends_correct_witness:
  "backfill_latest_version hist_engine ''a'' demo_hist_db = Some (Inr (), demo_current_db) \<and>
   pointer_ok [hist_key [97, 58, 120] 5 \<mapsto> demo_version]
     (pagedb_rows map_of demo_nsb demo_current_db LatestVersion) [97, 58, 120]"
proof -
  have x: "valid_utf8 (str_bytes ''x'')" "0 \<notin> set (str_bytes ''x'')" "0 \<notin> set (str_bytes ''a'')"
    by (simp_all add: str_bytes_def)
  have "\<exists>u. version_at [hist_key [97, 58, 120] 5 \<mapsto> demo_version] [97, 58, 120] i64_max u"
    using demo_version_at [of i64_max] by (auto simp: i64_max_def)
  then show ?thesis
    using backfill_ends_correct [OF mem_hist.history_store_axioms TrueI, of "''a''" demo_hist_db] demo_backfill x demo_history_wf
      demo_history_rows demo_latest_key
    by (auto simp: demo_current_db_def [symmetric])
qed

end
