(* ===== verification/Graph_Algorithms.thy ===== *)
theory Graph_Algorithms
  imports Complex_Main Storage_Engine
begin

text \<open>
  Graph algorithms (\<open>query/graph_ops/algorithms.rs\<close>): the dispatch and all thirteen algorithms.

  The compressed sparse row index belongs to the external \<open>nodedb_graph\<close> crate. It is a record of
  the accessors the code calls, and \<open>csr_law\<close> is what the code relies on: node numbers below the
  node count, adjacency in both directions with the same multiplicities, and degrees that are the
  lengths of the adjacency lists. Node numbers are \<open>u32\<close> and are modelled as naturals below the
  node count. Of floating point only finite values and infinity occur: a finite value is a
  rational and the argument \<open>rnd\<close> is the rounding after each operation. The iteration order of a
  hash map, where it matters, is the argument \<open>it\<close>.
\<close>

subsection \<open>The index, parameters and values\<close>

record csr =
  cs_node_count :: usize
  cs_out :: "nat \<Rightarrow> (nat \<times> nat) list"
  cs_in :: "nat \<Rightarrow> (nat \<times> nat) list"
  cs_name :: "nat \<Rightarrow> string"
  cs_id :: "string \<Rightarrow> nat option"
  cs_out_degree :: "nat \<Rightarrow> usize"
  cs_in_degree :: "nat \<Rightarrow> usize"
  cs_edge_count :: usize
  cs_weighted :: bool

record algo_params =
  ap_collection :: string
  ap_damping :: rat
  ap_iterations :: "usize \<Rightarrow> usize"
  ap_tolerance :: rat
  ap_personalization :: "(string, rat) hmap option"
  ap_source_node :: "string option"
  ap_sample_size :: "usize option"
  ap_direction :: "string option"

datatype graph_algorithm =
    PageRank | Wcc | LabelPropagation | Lcc | Sssp | Betweenness | Closeness | Harmonic | Degree
  | Louvain | Triangles | Diameter | KCore

datatype f64 = Finite rat | Infinity

datatype qvalue = VString string | VInteger int | VFloat f64

abbreviation outs :: "csr \<Rightarrow> nat \<Rightarrow> nat list" where
  "outs c u \<equiv> map snd (cs_out c u)"

abbreviation ins :: "csr \<Rightarrow> nat \<Rightarrow> nat list" where
  "ins c u \<equiv> map snd (cs_in c u)"

definition csr_law :: "csr \<Rightarrow> bool" where
  "csr_law c \<longleftrightarrow>
     cs_node_count c \<le> 2 ^ 32 \<and>
     (\<forall>u < cs_node_count c.
        set (outs c u) \<subseteq> {..< cs_node_count c} \<and> set (ins c u) \<subseteq> {..< cs_node_count c} \<and>
        cs_out_degree c u = length (cs_out c u) \<and> cs_in_degree c u = length (cs_in c u)) \<and>
     (\<forall>u < cs_node_count c. \<forall>v < cs_node_count c. count_list (outs c u) v = count_list (ins c v) u) \<and>
     (\<forall>s i. cs_id c s = Some i \<longrightarrow> i < cs_node_count c)"

definition node_rows :: "csr \<Rightarrow> nat list \<Rightarrow> (nat \<Rightarrow> qvalue list) \<Rightarrow> qvalue list list" where
  "node_rows c ns f = map (\<lambda>i. VString (cs_name c i) # f i) ns"

subsection \<open>PageRank\<close>

definition fsum :: "(rat \<Rightarrow> rat) \<Rightarrow> rat list \<Rightarrow> rat" where
  "fsum rnd xs = foldl (\<lambda>a x. rnd (a + x)) 0 xs"

definition UNIFORM_FALLBACK_THRESHOLD :: rat where
  "UNIFORM_FALLBACK_THRESHOLD = 1 / 10 ^ 12"

definition uniform_rank :: "(rat \<Rightarrow> rat) \<Rightarrow> usize \<Rightarrow> rat list" where
  "uniform_rank rnd n = replicate n (rnd (1 / rnd (of_nat n)))"

definition teleport :: "(rat \<Rightarrow> rat) \<Rightarrow> csr \<Rightarrow> algo_params \<Rightarrow> rat list" where
  "teleport rnd c params =
     (let n = cs_node_count c
      in case ap_personalization params of
           None \<Rightarrow> uniform_rank rnd n
         | Some m \<Rightarrow>
             (let v = map (\<lambda>i. hm_get_or 0 m (cs_name c i)) [0..<n];
                  total = fsum rnd v
              in if total < rnd UNIFORM_FALLBACK_THRESHOLD then uniform_rank rnd n
                 else map (\<lambda>x. rnd (x / total)) v))"

definition spread_node :: "(rat \<Rightarrow> rat) \<Rightarrow> csr \<Rightarrow> rat \<Rightarrow> rat list \<Rightarrow> rat list \<Rightarrow> nat \<Rightarrow> rat list" where
  "spread_node rnd c d rank new_rank src =
     (let od = cs_out_degree c src
      in if od = 0 then new_rank
         else let contrib = rnd (rnd (d * rank ! src) / rnd (of_nat od))
              in foldl (\<lambda>r dst. r[dst := rnd (r ! dst + contrib)]) new_rank (outs c src))"

definition pagerank_step :: "(rat \<Rightarrow> rat) \<Rightarrow> csr \<Rightarrow> rat \<Rightarrow> rat list \<Rightarrow> rat list \<Rightarrow> rat list" where
  "pagerank_step rnd c d tele rank =
     foldl (spread_node rnd c d rank) (map (\<lambda>t. rnd (rnd (1 - d) * t)) tele) [0..<cs_node_count c]"

primrec pagerank_loop ::
  "(rat \<Rightarrow> rat) \<Rightarrow> csr \<Rightarrow> rat \<Rightarrow> rat \<Rightarrow> rat list \<Rightarrow> usize \<Rightarrow> rat list \<Rightarrow> rat list" where
  "pagerank_loop rnd c d tol tele 0 rank = rank"
| "pagerank_loop rnd c d tol tele (Suc k) rank =
     (let new_rank = pagerank_step rnd c d tele rank;
          delta = fsum rnd (map (\<lambda>(a, b). \<bar>rnd (a - b)\<bar>) (zip rank new_rank))
      in if delta < tol then new_rank else pagerank_loop rnd c d tol tele k new_rank)"

definition pagerank_ranks :: "(rat \<Rightarrow> rat) \<Rightarrow> csr \<Rightarrow> algo_params \<Rightarrow> rat list" where
  "pagerank_ranks rnd c params =
     (let tele = teleport rnd c params
      in pagerank_loop rnd c (ap_damping params) (ap_tolerance params) tele (ap_iterations params 20) tele)"

definition pagerank :: "(rat \<Rightarrow> rat) \<Rightarrow> csr \<Rightarrow> algo_params \<Rightarrow> qvalue list list" where
  "pagerank rnd c params =
     (if cs_node_count c = 0 then []
      else let rank = pagerank_ranks rnd c params
           in node_rows c [0..<cs_node_count c] (\<lambda>i. [VFloat (Finite (rank ! i))]))"

subsection \<open>Weakly connected components\<close>

text \<open>\<open>find\<close> with path compression; \<open>None\<close> stands for a recursion that never ends.\<close>

partial_function (option) uf_find :: "nat list \<Rightarrow> nat \<Rightarrow> (nat \<times> nat list) option" where
  "uf_find parent x =
     (if parent ! x \<noteq> x then
        Option.bind (uf_find parent (parent ! x)) (\<lambda>(r, parent').
          Some (parent'[x := r] ! x, parent'[x := r]))
      else Some (parent ! x, parent))"

definition uf_union :: "nat list \<Rightarrow> nat \<Rightarrow> nat \<Rightarrow> nat list option" where
  "uf_union parent a b =
     (case uf_find parent a of
        None \<Rightarrow> None
      | Some (ra, parent1) \<Rightarrow>
          (case uf_find parent1 b of
             None \<Rightarrow> None
           | Some (rb, parent2) \<Rightarrow> Some (if ra \<noteq> rb then parent2[ra := rb] else parent2)))"

fun union_edges :: "nat list \<Rightarrow> (nat \<times> nat) list \<Rightarrow> nat list option" where
  "union_edges parent [] = Some parent"
| "union_edges parent ((src, dst) # es) =
     (case uf_union parent src dst of None \<Rightarrow> None | Some parent' \<Rightarrow> union_edges parent' es)"

fun find_all :: "nat list \<Rightarrow> nat list \<Rightarrow> nat list option" where
  "find_all parent [] = Some []"
| "find_all parent (i # is) =
     (case uf_find parent i of
        None \<Rightarrow> None
      | Some (r, parent') \<Rightarrow> map_option (\<lambda>rs. r # rs) (find_all parent' is))"

definition edge_list :: "csr \<Rightarrow> (nat \<times> nat) list" where
  "edge_list c = concat (map (\<lambda>src. map (\<lambda>dst. (src, dst)) (outs c src)) [0..<cs_node_count c])"

definition wcc_ids :: "csr \<Rightarrow> nat list option" where
  "wcc_ids c =
     (case union_edges [0..<cs_node_count c] (edge_list c) of
        None \<Rightarrow> None
      | Some parent \<Rightarrow> find_all parent [0..<cs_node_count c])"

definition wcc :: "csr \<Rightarrow> qvalue list list option" where
  "wcc c =
     (if cs_node_count c = 0 then Some []
      else map_option (\<lambda>ids. node_rows c [0..<cs_node_count c] (\<lambda>i. [VInteger (int (ids ! i))])) (wcc_ids c))"

subsection \<open>Label propagation and Louvain\<close>

text \<open>\<open>max_by_key\<close> keeps the last of several maximal entries.\<close>

fun last_max :: "(nat \<times> usize) list \<Rightarrow> nat option" where
  "last_max [] = None"
| "last_max (kv # kvs) = Some (fst (foldl (\<lambda>best e. if snd best \<le> snd e then e else best) kv kvs))"

definition label_freq :: "csr \<Rightarrow> nat list \<Rightarrow> nat \<Rightarrow> (nat, usize) hmap" where
  "label_freq c labels node =
     foldl (\<lambda>m nb. hm_insert (labels ! nb) (hm_get_or 0 m (labels ! nb) + 1) m) [] (outs c node @ ins c node)"

definition lpa_node ::
  "((nat, usize) hmap \<Rightarrow> (nat \<times> usize) list) \<Rightarrow> csr \<Rightarrow> nat list \<times> bool \<Rightarrow> nat \<Rightarrow> nat list \<times> bool" where
  "lpa_node it c st node =
     (case st of (labels, changed) \<Rightarrow>
        (case last_max (it (label_freq c labels node)) of
           None \<Rightarrow> (labels, changed)
         | Some best \<Rightarrow>
             if best \<noteq> labels ! node then (labels[node := best], True) else (labels, changed)))"

primrec lpa_loop ::
  "((nat, usize) hmap \<Rightarrow> (nat \<times> usize) list) \<Rightarrow> csr \<Rightarrow> usize \<Rightarrow> nat list \<Rightarrow> nat list" where
  "lpa_loop it c 0 labels = labels"
| "lpa_loop it c (Suc k) labels =
     (let (labels', changed) = foldl (lpa_node it c) (labels, False) [0..<cs_node_count c]
      in if \<not> changed then labels' else lpa_loop it c k labels')"

definition lpa_labels ::
  "((nat, usize) hmap \<Rightarrow> (nat \<times> usize) list) \<Rightarrow> csr \<Rightarrow> algo_params \<Rightarrow> nat list" where
  "lpa_labels it c params = lpa_loop it c (ap_iterations params 10) [0..<cs_node_count c]"

definition label_propagation ::
  "((nat, usize) hmap \<Rightarrow> (nat \<times> usize) list) \<Rightarrow> csr \<Rightarrow> algo_params \<Rightarrow> qvalue list list" where
  "label_propagation it c params =
     (if cs_node_count c = 0 then []
      else let labels = lpa_labels it c params
           in node_rows c [0..<cs_node_count c] (\<lambda>i. [VInteger (int (labels ! i))]))"

text \<open>Modularity of one community; the float counters only count.\<close>

definition community_q :: "(rat \<Rightarrow> rat) \<Rightarrow> csr \<Rightarrow> rat \<Rightarrow> nat list \<Rightarrow> rat" where
  "community_q rnd c m members =
     (let dc = fsum rnd (map (\<lambda>u. rnd (of_nat (cs_out_degree c u + cs_in_degree c u))) members);
          lc = fsum rnd (concat (map (\<lambda>u. map (\<lambda>_. 1) (filter (\<lambda>v. v \<in> set members) (outs c u))) members))
      in if m = 0 then 0
         else let h = rnd (dc / rnd (2 * m)) in rnd (rnd (lc / m) - rnd (h * h)))"

definition communities :: "nat list \<Rightarrow> (nat, nat list) hmap" where
  "communities labels =
     foldl (\<lambda>cm (i, l). hm_insert l (hm_get_or [] cm l @ [i]) cm) [] (enumerate 0 labels)"

definition louvain ::
  "(rat \<Rightarrow> rat) \<Rightarrow> ((nat, usize) hmap \<Rightarrow> (nat \<times> usize) list) \<Rightarrow> ((nat, nat list) hmap \<Rightarrow> (nat \<times> nat list) list)
   \<Rightarrow> csr \<Rightarrow> algo_params \<Rightarrow> qvalue list list" where
  "louvain rnd it itc c params =
     (let labels = lpa_labels it c params;
          m = rnd (of_nat (cs_edge_count c));
          q = fsum rnd (map (\<lambda>(_, members). community_q rnd c m members) (itc (communities labels)))
      in node_rows c [0..<cs_node_count c] (\<lambda>i. [VInteger (int (labels ! i)), VFloat (Finite q)]))"

subsection \<open>Local clustering and triangles\<close>

definition neighbors :: "csr \<Rightarrow> nat \<Rightarrow> nat list" where
  "neighbors c node = remdups (outs c node @ ins c node)"

definition links_among :: "csr \<Rightarrow> nat list \<Rightarrow> usize" where
  "links_among c ns = sum_list (map (\<lambda>u. length (filter (\<lambda>v. v \<in> set ns) (outs c u))) ns)"

definition lcc :: "(rat \<Rightarrow> rat) \<Rightarrow> csr \<Rightarrow> qvalue list list" where
  "lcc rnd c =
     node_rows c [0..<cs_node_count c] (\<lambda>node.
       let ns = neighbors c node; k = length ns
       in [VFloat (Finite (if k < 2 then 0
                           else rnd (rnd (of_nat (links_among c ns)) / rnd (of_nat (k * (k - 1))))))])"

definition triangles :: "csr \<Rightarrow> qvalue list list" where
  "triangles c =
     node_rows c [0..<cs_node_count c] (\<lambda>node.
       [VInteger (int (links_among c (neighbors c node) div 2))])"

subsection \<open>Breadth-first loops\<close>

text \<open>The loop \<open>while let Some(u) = queue.pop_front()\<close> over a state and a queue.\<close>

partial_function (option) queue_loop ::
  "(nat \<Rightarrow> 'st \<times> nat list \<Rightarrow> 'st \<times> nat list) \<Rightarrow> 'st \<Rightarrow> nat list \<Rightarrow> 'st option" where
  "queue_loop body st queue =
     (case queue of
        [] \<Rightarrow> Some st
      | u # q \<Rightarrow> (case body u (st, q) of (st', q') \<Rightarrow> queue_loop body st' q'))"

fun f64_add :: "(rat \<Rightarrow> rat) \<Rightarrow> f64 \<Rightarrow> f64 \<Rightarrow> f64" where
  "f64_add rnd (Finite a) (Finite b) = Finite (rnd (a + b))"
| "f64_add rnd _ _ = Infinity"

fun f64_less :: "f64 \<Rightarrow> f64 \<Rightarrow> bool" where
  "f64_less (Finite a) (Finite b) = (a < b)"
| "f64_less (Finite a) Infinity = True"
| "f64_less Infinity _ = False"

definition sssp_body ::
  "(rat \<Rightarrow> rat) \<Rightarrow> csr \<Rightarrow> nat \<Rightarrow> f64 list \<times> nat list \<Rightarrow> f64 list \<times> nat list" where
  "sssp_body rnd c u st =
     (let d = fst st ! u
      in foldl (\<lambda>(dist, queue) v.
           let nd = f64_add rnd d (Finite 1)
           in if f64_less nd (dist ! v) then (dist[v := nd], queue @ [v]) else (dist, queue)) st (outs c u))"

definition sssp_dist :: "(rat \<Rightarrow> rat) \<Rightarrow> csr \<Rightarrow> nat \<Rightarrow> f64 list option" where
  "sssp_dist rnd c src_id =
     queue_loop (sssp_body rnd c) ((replicate (cs_node_count c) Infinity)[src_id := Finite 0]) [src_id]"

definition sssp :: "(rat \<Rightarrow> rat) \<Rightarrow> csr \<Rightarrow> algo_params \<Rightarrow> qvalue list list option" where
  "sssp rnd c params =
     (let n = cs_node_count c
      in if n = 0 then Some []
         else case cs_id c (case ap_source_node params of None \<Rightarrow> [] | Some s \<Rightarrow> s) of
                None \<Rightarrow> Some (node_rows c [0..<n] (\<lambda>i. [VFloat Infinity]))
              | Some src_id \<Rightarrow>
                  map_option (\<lambda>dist. node_rows c [0..<n] (\<lambda>i. [VFloat (dist ! i)])) (sssp_dist rnd c src_id))"

definition I64_MAX :: int where
  "I64_MAX = 2 ^ 63 - 1"

definition hop_body :: "csr \<Rightarrow> nat \<Rightarrow> int list \<times> nat list \<Rightarrow> int list \<times> nat list" where
  "hop_body c u st =
     foldl (\<lambda>(dist, queue) v.
       if dist ! v = I64_MAX then (dist[v := dist ! u + 1], queue @ [v]) else (dist, queue)) st (outs c u)"

definition hop_dist :: "csr \<Rightarrow> nat \<Rightarrow> int list option" where
  "hop_dist c src =
     queue_loop (hop_body c) ((replicate (cs_node_count c) I64_MAX)[src := 0]) [src]"

text \<open>Collecting over the sources; \<open>None\<close> when a loop does not end.\<close>

fun collect_some :: "('a \<Rightarrow> 'b option) \<Rightarrow> 'a list \<Rightarrow> 'b list option" where
  "collect_some f [] = Some []"
| "collect_some f (x # xs) =
     (case f x of None \<Rightarrow> None | Some y \<Rightarrow> map_option (\<lambda>ys. y # ys) (collect_some f xs))"

definition closeness_of :: "(rat \<Rightarrow> rat) \<Rightarrow> int list \<Rightarrow> rat" where
  "closeness_of rnd hops =
     (let total = sum_list (filter (\<lambda>d. d \<noteq> I64_MAX \<and> 0 < d) hops);
          reachable = length (filter (\<lambda>d. d \<noteq> I64_MAX) hops)
      in if total = 0 \<or> reachable = 0 then 0
         else rnd (rnd (of_nat (reachable - 1)) / rnd (of_int total)))"

definition closeness :: "(rat \<Rightarrow> rat) \<Rightarrow> csr \<Rightarrow> algo_params \<Rightarrow> qvalue list list option" where
  "closeness rnd c params =
     (let n = cs_node_count c;
          sample = min (case ap_sample_size params of None \<Rightarrow> n | Some k \<Rightarrow> k) n
      in if n = 0 then Some []
         else collect_some (\<lambda>src. map_option (\<lambda>dist.
                [VString (cs_name c src), VFloat (Finite (closeness_of rnd dist))]) (hop_dist c src)) [0..<sample])"

definition harmonic_of :: "(rat \<Rightarrow> rat) \<Rightarrow> nat \<Rightarrow> int list \<Rightarrow> rat" where
  "harmonic_of rnd i hops =
     (let n = length hops;
          h = fsum rnd (map (\<lambda>(_, d). rnd (1 / rnd (of_int d)))
                (filter (\<lambda>(j, d). j \<noteq> i \<and> d \<noteq> I64_MAX \<and> 0 < d) (enumerate 0 hops)));
          norm = (if 1 < n then rnd (1 / rnd (of_nat (n - 1))) else 1)
      in rnd (h * norm))"

definition harmonic :: "(rat \<Rightarrow> rat) \<Rightarrow> csr \<Rightarrow> qvalue list list option" where
  "harmonic rnd c =
     (if cs_node_count c = 0 then Some []
      else collect_some (\<lambda>src. map_option (\<lambda>dist.
             [VString (cs_name c src), VFloat (Finite (harmonic_of rnd src dist))]) (hop_dist c src))
             [0..<cs_node_count c])"

definition eccentricity :: "int list \<Rightarrow> int" where
  "eccentricity hops =
     (case filter (\<lambda>d. d \<noteq> I64_MAX) hops of [] \<Rightarrow> 0 | d # ds \<Rightarrow> foldl max d ds)"

definition ecc_step :: "int \<times> int \<Rightarrow> int \<Rightarrow> int \<times> int" where
  "ecc_step st ecc =
     (case st of (max_ecc, min_ecc) \<Rightarrow> (max max_ecc ecc, if 0 < ecc then min min_ecc ecc else min_ecc))"

definition diameter :: "csr \<Rightarrow> qvalue list list option" where
  "diameter c =
     (if cs_node_count c = 0 then Some [[VInteger 0, VInteger 0]]
      else map_option (\<lambda>dists.
             case foldl ecc_step (0, I64_MAX) (map eccentricity dists) of
               (max_ecc, min_ecc) \<Rightarrow>
                 [[VInteger max_ecc, VInteger (if min_ecc = I64_MAX then 0 else min_ecc)]])
             (collect_some (hop_dist c) [0..<cs_node_count c]))"

subsection \<open>Betweenness\<close>

record brandes =
  br_sigma :: "rat list"
  br_dist :: "int list"
  br_stack :: "nat list"
  br_pred :: "nat list list"

definition brandes_edge :: "(rat \<Rightarrow> rat) \<Rightarrow> nat \<Rightarrow> brandes \<times> nat list \<Rightarrow> nat \<Rightarrow> brandes \<times> nat list" where
  "brandes_edge rnd v st w =
     (case st of (b, queue) \<Rightarrow>
        let (b, queue) = (if br_dist b ! w < 0
                          then (b\<lparr>br_dist := (br_dist b)[w := br_dist b ! v + 1]\<rparr>, queue @ [w])
                          else (b, queue))
        in if br_dist b ! w = br_dist b ! v + 1
           then (b\<lparr>br_sigma := (br_sigma b)[w := rnd (br_sigma b ! w + br_sigma b ! v)],
                   br_pred := (br_pred b)[w := br_pred b ! w @ [v]]\<rparr>, queue)
           else (b, queue))"

definition brandes_body :: "(rat \<Rightarrow> rat) \<Rightarrow> csr \<Rightarrow> nat \<Rightarrow> brandes \<times> nat list \<Rightarrow> brandes \<times> nat list" where
  "brandes_body rnd c v st =
     foldl (brandes_edge rnd v) ((fst st)\<lparr>br_stack := br_stack (fst st) @ [v]\<rparr>, snd st) (outs c v)"

definition brandes_start :: "csr \<Rightarrow> nat \<Rightarrow> brandes" where
  "brandes_start c s =
     (let n = cs_node_count c
      in \<lparr>br_sigma = (replicate n 0)[s := 1], br_dist = (replicate n (-1))[s := 0], br_stack = [],
          br_pred = replicate n []\<rparr>)"

definition back_node ::
  "(rat \<Rightarrow> rat) \<Rightarrow> brandes \<Rightarrow> nat \<Rightarrow> rat list \<times> rat list \<Rightarrow> nat \<Rightarrow> rat list \<times> rat list" where
  "back_node rnd b s st w =
     (case st of (delta, bc) \<Rightarrow>
        let delta' = foldl (\<lambda>dl v. dl[v := rnd (dl ! v +
                       rnd (rnd (br_sigma b ! v / br_sigma b ! w) * rnd (1 + dl ! w)))]) delta (br_pred b ! w)
        in (delta', if w \<noteq> s then bc[w := rnd (bc ! w + delta' ! w)] else bc))"

fun betweenness_from :: "(rat \<Rightarrow> rat) \<Rightarrow> csr \<Rightarrow> nat list \<Rightarrow> rat list \<Rightarrow> rat list option" where
  "betweenness_from rnd c [] bc = Some bc"
| "betweenness_from rnd c (s # ss) bc =
     (case queue_loop (brandes_body rnd c) (brandes_start c s) [s] of
        None \<Rightarrow> None
      | Some b \<Rightarrow>
          betweenness_from rnd c ss
            (snd (foldl (back_node rnd b s) (replicate (cs_node_count c) 0, bc) (rev (br_stack b)))))"

definition betweenness :: "(rat \<Rightarrow> rat) \<Rightarrow> csr \<Rightarrow> algo_params \<Rightarrow> qvalue list list option" where
  "betweenness rnd c params =
     (let n = cs_node_count c;
          sample = min (case ap_sample_size params of None \<Rightarrow> n | Some k \<Rightarrow> k) n;
          norm = (if 2 < n then rnd (1 / rnd (of_nat ((n - 1) * (n - 2)))) else 1)
      in if n = 0 then Some []
         else map_option (\<lambda>bc. node_rows c [0..<n] (\<lambda>i. [VFloat (Finite (rnd (bc ! i * norm)))]))
                (betweenness_from rnd c [0..<sample] (replicate n 0)))"

subsection \<open>Degree centrality\<close>

definition degree_of :: "csr \<Rightarrow> string \<Rightarrow> nat \<Rightarrow> usize" where
  "degree_of c dir node =
     (if dir = ''in'' then cs_in_degree c node
      else if dir = ''out'' then cs_out_degree c node
      else cs_out_degree c node + cs_in_degree c node)"

definition degree_centrality :: "(rat \<Rightarrow> rat) \<Rightarrow> csr \<Rightarrow> algo_params \<Rightarrow> qvalue list list" where
  "degree_centrality rnd c params =
     (let n = cs_node_count c;
          norm = (if 1 < n then rnd (1 / rnd (of_nat (n - 1))) else 1);
          dir = (case ap_direction params of None \<Rightarrow> ''both'' | Some d \<Rightarrow> d)
      in if n = 0 then []
         else node_rows c [0..<n] (\<lambda>i.
                [VFloat (Finite (rnd (rnd (of_nat (degree_of c dir i)) * norm)))]))"

subsection \<open>Cores\<close>

text \<open>Core numbers are \<open>u32\<close>. The loops only write them, so the cast that may wrap is made once, when
  the rows are built.\<close>

record cores =
  kc_degree :: "usize list"
  kc_removed :: "bool list"
  kc_coreness :: "nat list"

definition drop_degree :: "cores \<Rightarrow> nat \<Rightarrow> cores" where
  "drop_degree st nb =
     (if \<not> kc_removed st ! nb \<and> 0 < kc_degree st ! nb
      then st\<lparr>kc_degree := (kc_degree st)[nb := kc_degree st ! nb - 1]\<rparr> else st)"

definition kc_node :: "csr \<Rightarrow> nat \<Rightarrow> cores \<times> bool \<Rightarrow> nat \<Rightarrow> cores \<times> bool" where
  "kc_node c k stp node =
     (case stp of (st, progress) \<Rightarrow>
        if \<not> kc_removed st ! node \<and> kc_degree st ! node < k
        then let st1 = st\<lparr>kc_removed := (kc_removed st)[node := True],
                          kc_coreness := (kc_coreness st)[node := k - 1]\<rparr>;
                 st2 = foldl drop_degree st1 (outs c node)
             in (foldl drop_degree st2 (ins c node), True)
        else (st, progress))"

definition kc_sweep :: "csr \<Rightarrow> nat \<Rightarrow> cores \<Rightarrow> cores \<times> bool" where
  "kc_sweep c k st = foldl (kc_node c k) (st, False) [0..<cs_node_count c]"

partial_function (option) kc_peel :: "csr \<Rightarrow> nat \<Rightarrow> cores \<Rightarrow> cores option" where
  "kc_peel c k st =
     (case kc_sweep c k st of (st', progress) \<Rightarrow> if progress then kc_peel c k st' else Some st')"

definition kc_assign :: "nat \<Rightarrow> cores \<Rightarrow> cores" where
  "kc_assign k st =
     st\<lparr>kc_coreness := map (\<lambda>(r, x). if r then x else k) (zip (kc_removed st) (kc_coreness st))\<rparr>"

partial_function (option) kc_loop :: "csr \<Rightarrow> nat \<Rightarrow> cores \<Rightarrow> cores option" where
  "kc_loop c k st =
     (case kc_peel c k st of
        None \<Rightarrow> None
      | Some st' \<Rightarrow>
          if list_all (\<lambda>r. r) (kc_removed st') then Some st' else kc_loop c (k + 1) (kc_assign k st'))"

definition kc_start :: "csr \<Rightarrow> cores" where
  "kc_start c =
     (let n = cs_node_count c
      in \<lparr>kc_degree = map (\<lambda>i. cs_out_degree c i + cs_in_degree c i) [0..<n],
          kc_removed = replicate n False, kc_coreness = replicate n 0\<rparr>)"

definition kcore :: "csr \<Rightarrow> qvalue list list option" where
  "kcore c =
     (if cs_node_count c = 0 then Some []
      else map_option (\<lambda>st. node_rows c [0..<cs_node_count c] (\<lambda>i. [VInteger (int (kc_coreness st ! i mod 2 ^ 32))]))
             (kc_loop c 1 (kc_start c)))"

subsection \<open>Dispatch\<close>

record algo_env =
  ae_rnd :: "rat \<Rightarrow> rat"
  ae_label_order :: "(nat, usize) hmap \<Rightarrow> (nat \<times> usize) list"
  ae_community_order :: "(nat, nat list) hmap \<Rightarrow> (nat \<times> nat list) list"
  ae_schema :: "graph_algorithm \<Rightarrow> string list"

record query_result =
  qr_columns :: "string list"
  qr_rows :: "qvalue list list"
  qr_rows_affected :: nat

primrec algo_rows :: "algo_env \<Rightarrow> csr \<Rightarrow> algo_params \<Rightarrow> graph_algorithm \<Rightarrow> qvalue list list option" where
  "algo_rows env c params PageRank = Some (pagerank (ae_rnd env) c params)"
| "algo_rows env c params Wcc = wcc c"
| "algo_rows env c params LabelPropagation = Some (label_propagation (ae_label_order env) c params)"
| "algo_rows env c params Lcc = Some (lcc (ae_rnd env) c)"
| "algo_rows env c params Sssp = sssp (ae_rnd env) c params"
| "algo_rows env c params Betweenness = betweenness (ae_rnd env) c params"
| "algo_rows env c params Closeness = closeness (ae_rnd env) c params"
| "algo_rows env c params Harmonic = harmonic (ae_rnd env) c"
| "algo_rows env c params Degree = Some (degree_centrality (ae_rnd env) c params)"
| "algo_rows env c params Louvain =
     Some (louvain (ae_rnd env) (ae_label_order env) (ae_community_order env) c params)"
| "algo_rows env c params Triangles = Some (triangles c)"
| "algo_rows env c params Diameter = diameter c"
| "algo_rows env c params KCore = kcore c"

definition run_algo ::
  "algo_env \<Rightarrow> bool \<Rightarrow> (string, csr) hmap \<Rightarrow> graph_algorithm \<Rightarrow> algo_params \<Rightarrow> query_result lite_result option" where
  "run_algo env poisoned csr_map algorithm params =
     (if poisoned then Some (Inl LockPoisoned)
      else case hm_get csr_map (ap_collection params) of
             None \<Rightarrow> Some (Inl Storage)
           | Some c \<Rightarrow>
               map_option (\<lambda>rows. Inr \<lparr>qr_columns = ae_schema env algorithm, qr_rows = rows, qr_rows_affected = 0\<rparr>)
                 (algo_rows env c params algorithm))"

end
