(* ===== verification/Graph_Correct.thy ===== *)
theory Graph_Correct
  imports Graph_Algorithms
begin

text \<open>
  Correctness of the graph algorithms of \<open>Graph_Algorithms\<close>: union-find computes the weakly connected
  components, the breadth-first loops compute hop distances, peeling computes the cores, PageRank keeps
  its mass, and every algorithm ends.
\<close>

definition edges :: "csr \<Rightarrow> (nat \<times> nat) set" where
  "edges c = {(u, v). u < cs_node_count c \<and> v \<in> set (outs c u)}"

lemma edge_list_set: "set (edge_list c) = edges c"
  by (auto simp: edge_list_def edges_def)

lemma edges_bound: "csr_law c \<Longrightarrow> (u, v) \<in> edges c \<Longrightarrow> u < cs_node_count c \<and> v < cs_node_count c"
  unfolding csr_law_def edges_def by blast

subsection \<open>Union-find\<close>

text \<open>\<open>rooted p x r\<close>: following parents from \<open>x\<close> ends at the root \<open>r\<close>.\<close>

inductive rooted :: "nat list \<Rightarrow> nat \<Rightarrow> nat \<Rightarrow> bool" for p where
  root: "p ! x = x \<Longrightarrow> rooted p x x"
| step: "p ! x \<noteq> x \<Longrightarrow> rooted p (p ! x) r \<Longrightarrow> rooted p x r"

lemma rooted_self: "p ! r = r \<Longrightarrow> rooted p r s \<longleftrightarrow> s = r"
  using rooted.simps [of p r s] by auto

lemma rooted_step: "p ! x \<noteq> x \<Longrightarrow> rooted p x r \<longleftrightarrow> rooted p (p ! x) r"
  using rooted.simps [of p x r] by auto

definition forest :: "nat list \<Rightarrow> bool" where
  "forest p \<longleftrightarrow> (\<forall>x < length p. p ! x < length p \<and> (\<exists>r. rooted p x r))"

lemma rooted_det: "rooted p x r \<Longrightarrow> rooted p x s \<Longrightarrow> r = s"
  by (induction arbitrary: s rule: rooted.induct) (simp_all add: rooted_self rooted_step)

lemma rooted_root: "rooted p x r \<Longrightarrow> p ! r = r"
  by (induction rule: rooted.induct)

lemma rooted_bound: "rooted p x r \<Longrightarrow> forest p \<Longrightarrow> x < length p \<Longrightarrow> r < length p"
  by (induction rule: rooted.induct) (auto simp: forest_def)

text \<open>Redirecting a node to its root changes no root.\<close>

lemma rooted_compress_fwd:
  assumes "rooted p x r" "x < length p" "rooted p y s"
  shows "rooted (p[x := r]) y s"
  using assms(3)
proof (induction rule: rooted.induct)
  case (root y)
  show ?case
  proof (cases "y = x")
    case True
    then show ?thesis
      using root assms rooted_self by (intro rooted.root) auto
  qed (use root in \<open>auto intro: rooted.root\<close>)
next
  case (step y s)
  show ?case
  proof (cases "y = x")
    case True
    then have "s = r" "r \<noteq> x"
      using step assms(1) rooted_det rooted.step rooted_root by blast+
    then have "rooted (p[x := r]) r r"
      using rooted_root [OF assms(1)] by (intro rooted.root) simp
    then show ?thesis
      using True \<open>s = r\<close> \<open>r \<noteq> x\<close> assms(2) by (subst rooted_step) auto
  next
    case False
    then show ?thesis
      using step by (subst rooted_step) auto
  qed
qed

lemma rooted_compress:
  assumes "forest p" "rooted p x r" "x < length p" "y < length p"
  shows "rooted (p[x := r]) y s \<longleftrightarrow> rooted p y s"
  using assms rooted_compress_fwd rooted_det unfolding forest_def by metis

lemma forest_compress:
  assumes "forest p" "rooted p x r" "x < length p"
  shows "forest (p[x := r])"
  using assms rooted_bound [OF assms(2,1,3)] rooted_compress_fwd [OF assms(2,3)]
  by (auto simp: forest_def nth_list_update) blast+

lemma uf_find_ok:
  assumes "rooted p x r" "forest p" "x < length p"
  shows "\<exists>p'. uf_find p x = Some (r, p') \<and> length p' = length p \<and> forest p' \<and>
           (\<forall>y < length p. \<forall>s. rooted p' y s \<longleftrightarrow> rooted p y s)"
  using assms
proof (induction rule: rooted.induct)
  case (root x)
  then show ?case
    by (subst uf_find.simps) simp
next
  case (step x r)
  have b: "p ! x < length p"
    using step.prems by (simp add: forest_def)
  obtain p' where p': "uf_find p (p ! x) = Some (r, p')" "length p' = length p" "forest p'"
      "\<And>y s. y < length p \<Longrightarrow> rooted p' y s \<longleftrightarrow> rooted p y s"
    using step.IH [OF step.prems(1) b] by blast
  have x: "rooted p' x r" "x < length p'"
    using p'(2,4) step.hyps step.prems(2) rooted.step by simp_all
  have "uf_find p x = Some (r, p'[x := r])"
    using step.hyps(1) p'(1) x(2) by (subst uf_find.simps) simp
  then show ?case
    using p'(2,4) forest_compress [OF p'(3) x] rooted_compress [OF p'(3) x] by simp
qed

lemma rooted_link:
  assumes "forest p" "p ! a = a" "p ! b = b" "a \<noteq> b" "a < length p" "rooted p y s"
  shows "rooted (p[a := b]) y (if s = a then b else s)"
  using assms(6)
proof (induction rule: rooted.induct)
  case (root y)
  have "rooted (p[a := b]) b b"
    using assms(3,4) by (intro rooted.root) simp
  then show ?case
    using root assms(4,5) by (cases "y = a") (simp_all add: rooted_step rooted_self)
next
  case (step y s)
  then have "y \<noteq> a"
    using assms(2) by auto
  then show ?case
    using step by (subst rooted_step) auto
qed

lemma forest_link:
  assumes "forest p" "p ! a = a" "p ! b = b" "a \<noteq> b" "a < length p" "b < length p"
  shows "forest (p[a := b])"
  using assms rooted_link [OF assms(1-5)] by (auto simp: forest_def nth_list_update) blast+

text \<open>Two nodes are together when they have the same root.\<close>

definition together :: "nat list \<Rightarrow> (nat \<times> nat) set" where
  "together p = {(x, y). x < length p \<and> y < length p \<and> (\<exists>r. rooted p x r \<and> rooted p y r)}"

lemma uf_union_ok:
  assumes "forest p" "a < length p" "b < length p"
  shows "\<exists>p'. uf_union p a b = Some p' \<and> length p' = length p \<and> forest p' \<and>
     (\<forall>x < length p. \<forall>y < length p. (x, y) \<in> together p' \<longleftrightarrow>
        (x, y) \<in> together p \<or> (x, a) \<in> together p \<and> (b, y) \<in> together p \<or>
        (x, b) \<in> together p \<and> (a, y) \<in> together p)"
proof -
  obtain ra rb where r: "rooted p a ra" "rooted p b rb"
    using assms unfolding forest_def by blast
  obtain p1 where p1: "uf_find p a = Some (ra, p1)" "length p1 = length p" "forest p1"
      "\<And>y s. y < length p \<Longrightarrow> rooted p1 y s \<longleftrightarrow> rooted p y s"
    using uf_find_ok [OF r(1) assms(1,2)] by blast
  obtain p2 where p2: "uf_find p1 b = Some (rb, p2)" "length p2 = length p" "forest p2"
      "\<And>y s. y < length p \<Longrightarrow> rooted p2 y s \<longleftrightarrow> rooted p y s"
    using uf_find_ok [of p1 b rb] p1 r(2) assms(3) by auto
  have tog: "(x, y) \<in> together p \<longleftrightarrow> x < length p \<and> y < length p \<and> (\<exists>s. rooted p x s \<and> rooted p y s)" for x y
    by (simp add: together_def)
  have ex: "\<exists>s. rooted p x s" if "x < length p" for x
    using assms(1) that by (simp add: forest_def)
  show ?thesis
  proof (cases "ra = rb")
    case True
    then have "uf_union p a b = Some p2"
      using p1(1) p2(1) by (simp add: uf_union_def)
    moreover have "(x, y) \<in> together p2 \<longleftrightarrow> (x, y) \<in> together p" if "x < length p" "y < length p" for x y
      using that p2(2,4) by (simp add: together_def)
    ultimately show ?thesis
      using p2(2,3) r True rooted_det assms by (auto simp: tog) blast+
  next
    case False
    have root: "p2 ! ra = ra" "p2 ! rb = rb" "ra < length p2" "rb < length p2"
      using r p2 assms rooted_root [of p2 a ra] rooted_root [of p2 b rb] rooted_bound [of p2] by auto
    have "uf_union p a b = Some (p2[ra := rb])"
      using p1(1) p2(1) False by (simp add: uf_union_def)
    moreover have "forest (p2[ra := rb])"
      using forest_link [OF p2(3)] root False by blast
    moreover have link: "rooted (p2[ra := rb]) x (if s = ra then rb else s)" if "x < length p" "rooted p x s" for x s
      using rooted_link [OF p2(3) root(1,2) False root(3)] that p2(4) by blast
    have "(x, y) \<in> together (p2[ra := rb]) \<longleftrightarrow>
        (x, y) \<in> together p \<or> (x, a) \<in> together p \<and> (b, y) \<in> together p \<or>
        (x, b) \<in> together p \<and> (a, y) \<in> together p" if xy: "x < length p" "y < length p" for x y
    proof -
      obtain s t where st: "rooted p x s" "rooted p y t"
        using ex xy by blast
      have "(x, y) \<in> together (p2[ra := rb]) \<longleftrightarrow> (if s = ra then rb else s) = (if t = ra then rb else t)"
        using link [OF xy(1) st(1)] link [OF xy(2) st(2)] xy p2(2) rooted_det
        by (auto simp: together_def) blast+
      moreover have "(x, y) \<in> together p \<longleftrightarrow> s = t" "(x, a) \<in> together p \<longleftrightarrow> s = ra"
          "(b, y) \<in> together p \<longleftrightarrow> t = rb" "(x, b) \<in> together p \<longleftrightarrow> s = rb" "(a, y) \<in> together p \<longleftrightarrow> t = ra"
        using st r xy assms(2,3) rooted_det unfolding tog by blast+
      ultimately show ?thesis
        by auto
    qed
    ultimately show ?thesis
      using p2(2) by simp
  qed
qed

text \<open>The relation a set of edges connects, in either direction.\<close>

abbreviation weak :: "(nat \<times> nat) set \<Rightarrow> (nat \<times> nat) set" where
  "weak E \<equiv> (E \<union> E\<inverse>)\<^sup>*"

lemma weak_insert:
  "(x, y) \<in> weak (insert (a, b) E) \<longleftrightarrow>
     (x, y) \<in> weak E \<or> (x, a) \<in> weak E \<and> (b, y) \<in> weak E \<or> (x, b) \<in> weak E \<and> (a, y) \<in> weak E"
proof -
  have eq: "insert (a, b) E \<union> (insert (a, b) E)\<inverse> = insert (a, b) (insert (b, a) (E \<union> E\<inverse>))"
    by auto
  have "sym (E \<union> E\<inverse>)"
    by (auto intro: symI)
  then have "sym (weak E)"
    by (rule sym_rtrancl)
  then show ?thesis
    unfolding eq rtrancl_insert by (auto dest: symD intro: rtrancl_trans)
qed

lemma together_start: "x < n \<Longrightarrow> y < n \<Longrightarrow> (x, y) \<in> together [0..<n] \<longleftrightarrow> x = y"
  by (auto simp: together_def rooted_self)

lemma forest_start: "forest [0..<n]"
  by (simp add: forest_def rooted_self)

lemma union_edges_ok:
  assumes "forest p" "set es \<subseteq> {..<length p} \<times> {..<length p}"
    and "\<forall>x < length p. \<forall>y < length p. (x, y) \<in> together p \<longleftrightarrow> (x, y) \<in> weak E"
  shows "\<exists>p'. union_edges p es = Some p' \<and> length p' = length p \<and> forest p' \<and>
     (\<forall>x < length p. \<forall>y < length p. (x, y) \<in> together p' \<longleftrightarrow> (x, y) \<in> weak (E \<union> set es))"
  using assms
proof (induction es arbitrary: p E)
  case (Cons e es)
  obtain a b where e: "e = (a, b)"
    by (cases e)
  have ab: "a < length p" "b < length p"
    using Cons.prems(2) by (auto simp: e)
  obtain p1 where p1: "uf_union p a b = Some p1" "length p1 = length p" "forest p1"
      "\<And>x y. x < length p \<Longrightarrow> y < length p \<Longrightarrow> (x, y) \<in> together p1 \<longleftrightarrow> (x, y) \<in> weak (insert (a, b) E)"
    using uf_union_ok [OF Cons.prems(1) ab] Cons.prems(3) ab unfolding weak_insert by (metis (no_types, lifting))
  have "\<exists>p'. union_edges p1 es = Some p' \<and> length p' = length p1 \<and> forest p' \<and>
     (\<forall>x < length p1. \<forall>y < length p1. (x, y) \<in> together p' \<longleftrightarrow> (x, y) \<in> weak (insert (a, b) E \<union> set es))"
    using p1 Cons.prems(2) by (intro Cons.IH) auto
  then show ?case
    using p1(1,2) by (simp add: e)
qed simp

lemma find_all_ok:
  assumes "forest p" "set is \<subseteq> {..<length p}"
  shows "\<exists>rs. find_all p is = Some rs \<and> list_all2 (rooted p) is rs"
  using assms
proof (induction "is" arbitrary: p)
  case (Cons i "is")
  obtain r where r: "rooted p i r"
    using Cons.prems by (auto simp: forest_def)
  obtain p1 where p1: "uf_find p i = Some (r, p1)" "length p1 = length p" "forest p1"
      "\<And>y s. y < length p \<Longrightarrow> rooted p1 y s \<longleftrightarrow> rooted p y s"
    using uf_find_ok [OF r Cons.prems(1)] Cons.prems(2) by auto
  obtain rs where rs: "find_all p1 is = Some rs" "list_all2 (rooted p1) is rs"
    using Cons.IH [OF p1(3)] Cons.prems(2) p1(2) by auto
  have "list_all2 (rooted p) is rs"
    using rs(2) p1(4) Cons.prems(2) by (auto simp: list_all2_conv_all_nth subset_iff)
  then show ?case
    using r rs(1) p1(1) by simp
qed simp

lemma wcc_ids_ok:
  assumes "csr_law c"
  shows "\<exists>ids. wcc_ids c = Some ids \<and> length ids = cs_node_count c \<and>
     (\<forall>i < cs_node_count c. \<forall>j < cs_node_count c. ids ! i = ids ! j \<longleftrightarrow> (i, j) \<in> weak (edges c))"
proof -
  let ?n = "cs_node_count c"
  have es: "set (edge_list c) \<subseteq> {..<length [0..<?n]} \<times> {..<length [0..<?n]}"
    using edges_bound [OF assms] by (auto simp: edge_list_set)
  obtain p where p: "union_edges [0..<?n] (edge_list c) = Some p" "length p = ?n" "forest p"
      "\<And>x y. x < ?n \<Longrightarrow> y < ?n \<Longrightarrow> (x, y) \<in> together p \<longleftrightarrow> (x, y) \<in> weak (edges c)"
    using union_edges_ok [OF forest_start es, of "{}"] together_start by (auto simp: edge_list_set)
  obtain ids where ids: "find_all p [0..<?n] = Some ids" "list_all2 (rooted p) [0..<?n] ids"
    using find_all_ok [OF p(3), of "[0..<?n]"] p(2) by (auto simp: atLeast0LessThan)
  have root: "rooted p i (ids ! i)" if "i < ?n" for i
    using ids(2) that by (simp add: list_all2_conv_all_nth)
  have "ids ! i = ids ! j \<longleftrightarrow> (i, j) \<in> together p" if "i < ?n" "j < ?n" for i j
  proof -
    have "rooted p i r \<longleftrightarrow> r = ids ! i" "rooted p j r \<longleftrightarrow> r = ids ! j" for r
      using root [OF that(1)] root [OF that(2)] rooted_det [of p] by blast+
    then show ?thesis
      using that p(2) by (auto simp: together_def)
  qed
  then show ?thesis
    using p ids list_all2_lengthD [OF ids(2)] by (simp add: wcc_ids_def)
qed

subsection \<open>Breadth-first search\<close>

text \<open>A reference search over optional distances, and its invariant.\<close>

definition visit :: "nat \<Rightarrow> nat option list \<times> nat list \<Rightarrow> nat \<Rightarrow> nat option list \<times> nat list" where
  "visit k st v =
     (case st of (ds, q) \<Rightarrow> if ds ! v = None then (ds[v := Some (k + 1)], q @ [v]) else (ds, q))"

definition bfs_base :: "csr \<Rightarrow> nat \<Rightarrow> nat option list \<Rightarrow> nat list \<Rightarrow> bool" where
  "bfs_base c s ds q \<longleftrightarrow>
     length ds = cs_node_count c \<and> s < length ds \<and> ds ! s = Some 0 \<and>
     (\<forall>v \<in> set q. v < length ds \<and> ds ! v \<noteq> None) \<and>
     (\<forall>v < length ds. \<forall>k. ds ! v = Some k \<longrightarrow> (s, v) \<in> edges c ^^ k) \<and>
     (\<forall>v < length ds. \<forall>k. ds ! v = Some k \<longrightarrow> (\<forall>j \<le> k. \<exists>w < length ds. ds ! w = Some j)) \<and>
     sorted (map (\<lambda>v. the (ds ! v)) q)"

definition settled :: "csr \<Rightarrow> nat option list \<Rightarrow> nat \<Rightarrow> bool" where
  "settled c ds v \<longleftrightarrow>
     (\<forall>k w. ds ! v = Some k \<longrightarrow> (v, w) \<in> edges c \<longrightarrow> (\<exists>j \<le> k + 1. ds ! w = Some j))"

definition bfs_inv :: "csr \<Rightarrow> nat \<Rightarrow> nat option list \<Rightarrow> nat list \<Rightarrow> bool" where
  "bfs_inv c s ds q \<longleftrightarrow>
     bfs_base c s ds q \<and>
     (q \<noteq> [] \<longrightarrow> (\<forall>v < length ds. \<forall>k. ds ! v = Some k \<longrightarrow> k \<le> the (ds ! hd q) + 1)) \<and>
     (\<forall>v < length ds. v \<notin> set q \<longrightarrow> settled c ds v)"

definition hops :: "csr \<Rightarrow> nat \<Rightarrow> nat \<Rightarrow> nat \<Rightarrow> bool" where
  "hops c s v k \<longleftrightarrow> (s, v) \<in> edges c ^^ k \<and> (\<forall>j < k. (s, v) \<notin> edges c ^^ j)"

definition hop_table :: "csr \<Rightarrow> nat \<Rightarrow> nat option list \<Rightarrow> bool" where
  "hop_table c s ds \<longleftrightarrow>
     length ds = cs_node_count c \<and>
     (\<forall>v < length ds. \<forall>k. ds ! v = Some k \<longleftrightarrow> hops c s v k)"

lemma hops_unique: "hops c s v k \<Longrightarrow> hops c s v j \<Longrightarrow> k = j"
  unfolding hops_def by (metis linorder_neqE_nat)

lemma hops_reach: "(\<exists>k. hops c s v k) \<longleftrightarrow> (s, v) \<in> (edges c)\<^sup>*"
proof
  assume "(s, v) \<in> (edges c)\<^sup>*"
  then obtain n where "(s, v) \<in> edges c ^^ n"
    using rtrancl_imp_relpow by blast
  then have "hops c s v (LEAST n. (s, v) \<in> edges c ^^ n)"
    unfolding hops_def by (metis (mono_tags, lifting) LeastI not_less_Least)
  then show "\<exists>k. hops c s v k" ..
qed (auto simp: hops_def relpow_imp_rtrancl)

lemma bfs_inv_start:
  assumes "s < cs_node_count c"
  shows "bfs_inv c s ((replicate (cs_node_count c) None)[s := Some 0]) [s]"
  using assms by (auto simp: bfs_inv_def bfs_base_def settled_def nth_list_update split: if_splits)

lemma bfs_base_bound:
  assumes "bfs_base c s ds q" "v < length ds" "ds ! v = Some k"
  shows "k < cs_node_count c"
proof -
  have "\<forall>j \<in> {..k}. \<exists>w < length ds. ds ! w = Some j"
    using assms unfolding bfs_base_def by (metis atMost_iff)
  then obtain f where f: "\<And>j. j \<le> k \<Longrightarrow> f j < length ds \<and> ds ! f j = Some j"
    by (metis atMost_iff)
  have "inj_on f {..k}"
    by (rule inj_onI) (metis atMost_iff f option.inject)
  moreover have "f ` {..k} \<subseteq> {..<length ds}"
    using f by auto
  ultimately have "card {..k} \<le> card {..<length ds}"
    by (rule card_inj_on_le) simp
  then show ?thesis
    using assms(1) by (simp add: bfs_base_def)
qed

lemma bfs_inv_end:
  assumes "bfs_inv c s ds []" "csr_law c"
  shows "hop_table c s ds"
proof -
  have n: "length ds = cs_node_count c" "ds ! s = Some 0"
    using assms(1) by (simp_all add: bfs_inv_def bfs_base_def)
  have settled: "settled c ds v" if "v < length ds" for v
    using assms(1) that by (simp add: bfs_inv_def)
  have reach: "\<exists>j \<le> k. ds ! v = Some j" if "(s, v) \<in> edges c ^^ k" for v k
    using that
  proof (induction k arbitrary: v)
    case 0
    then show ?case
      using n by simp
  next
    case (Suc k)
    then obtain u where u: "(s, u) \<in> edges c ^^ k" "(u, v) \<in> edges c"
      by auto
    then obtain i where i: "i \<le> k" "ds ! u = Some i"
      using Suc.IH by blast
    have "u < length ds"
      using edges_bound [OF assms(2) u(2)] n by simp
    then obtain j where "j \<le> i + 1" "ds ! v = Some j"
      using settled u(2) i(2) unfolding settled_def by blast
    then show ?case
      using i(1) by (intro exI [of _ j]) simp
  qed
  have path: "(s, v) \<in> edges c ^^ k" if "v < length ds" "ds ! v = Some k" for v k
    using assms(1) that by (simp add: bfs_inv_def bfs_base_def)
  have fwd: "hops c s v k" if v: "v < length ds" "ds ! v = Some k" for v k
    using reach [of v] path [OF v] v(2) unfolding hops_def by (metis leD option.inject)
  moreover have "ds ! v = Some k" if v: "v < length ds" and h: "hops c s v k" for v k
  proof -
    obtain j where "ds ! v = Some j"
      using h reach [of v k] by (auto simp: hops_def)
    then show ?thesis
      using fwd [OF v] hops_unique h by blast
  qed
  ultimately show ?thesis
    using n(1) unfolding hop_table_def by blast
qed

text \<open>While the successors of a node \<open>u\<close> at distance \<open>k\<close> are visited, those in \<open>X\<close> are done.\<close>

definition bfs_mid :: "csr \<Rightarrow> nat \<Rightarrow> nat \<Rightarrow> nat \<Rightarrow> nat set \<Rightarrow> nat option list \<Rightarrow> nat list \<Rightarrow> bool" where
  "bfs_mid c s u k X ds q \<longleftrightarrow>
     bfs_base c s ds q \<and> u < length ds \<and> ds ! u = Some k \<and>
     (\<forall>v < length ds. \<forall>j. ds ! v = Some j \<longrightarrow> j \<le> k + 1) \<and>
     (\<forall>v \<in> set q. k \<le> the (ds ! v)) \<and>
     (\<forall>w \<in> X. ds ! w \<noteq> None) \<and>
     (\<forall>v < length ds. v \<noteq> u \<longrightarrow> v \<notin> set q \<longrightarrow> settled c ds v)"

lemma bfs_mid_start:
  assumes "bfs_inv c s ds (u # q)"
  obtains k where "ds ! u = Some k" "bfs_mid c s u k {} ds q"
proof -
  obtain k where k: "ds ! u = Some k"
    using assms by (auto simp: bfs_inv_def bfs_base_def)
  have "bfs_mid c s u k {} ds q"
    using assms k by (auto simp: bfs_inv_def bfs_mid_def bfs_base_def)
  then show ?thesis
    using that k by blast
qed

lemma bfs_mid_end:
  assumes "bfs_mid c s u k (set (outs c u)) ds q" "csr_law c"
  shows "bfs_inv c s ds q"
proof -
  have n: "length ds = cs_node_count c" "ds ! u = Some k" "u < length ds"
    using assms(1) by (simp_all add: bfs_mid_def bfs_base_def)
  have le: "j \<le> k + 1" if "v < length ds" "ds ! v = Some j" for v j
    using assms(1) that by (simp add: bfs_mid_def)
  have "settled c ds u"
    unfolding settled_def
  proof (intro allI impI)
    fix i w assume i: "ds ! u = Some i" and w: "(u, w) \<in> edges c"
    then obtain j where j: "ds ! w = Some j"
      using assms(1) by (auto simp: bfs_mid_def edges_def)
    then have "j \<le> i + 1"
      using le [of w j] edges_bound [OF assms(2) w] i n by simp
    then show "\<exists>j \<le> i + 1. ds ! w = Some j"
      using j by blast
  qed
  then have "settled c ds v" if "v < length ds" "v \<notin> set q" for v
    using assms(1) that by (cases "v = u") (simp_all add: bfs_mid_def)
  moreover have "j \<le> the (ds ! hd q) + 1" if "q \<noteq> []" "v < length ds" "ds ! v = Some j" for v j
  proof -
    have "k \<le> the (ds ! hd q)"
      using assms(1) hd_in_set [OF that(1)] by (simp add: bfs_mid_def)
    then show ?thesis
      using le [OF that(2,3)] by simp
  qed
  ultimately show ?thesis
    using assms(1) by (simp add: bfs_inv_def bfs_mid_def)
qed

lemma settled_mono:
  assumes "settled c ds v" "ds ! v = ds' ! v" "\<And>w j. ds ! w = Some j \<Longrightarrow> ds' ! w = Some j"
  shows "settled c ds' v"
  using assms unfolding settled_def by metis

lemma visit_mid:
  assumes "bfs_mid c s u k X ds q" "(u, v) \<in> edges c" "csr_law c" "visit k (ds, q) v = (ds', q')"
  shows "bfs_mid c s u k (insert v X) ds' q'"
proof (cases "ds ! v = None")
  case False
  then show ?thesis
    using assms(1,4) by (auto simp: visit_def bfs_mid_def)
next
  case True
  have ds': "ds' = ds[v := Some (k + 1)]" "q' = q @ [v]"
    using True assms(4) by (simp_all add: visit_def)
  have base: "bfs_base c s ds q" "u < length ds" "ds ! u = Some k"
      "\<And>w j. w < length ds \<Longrightarrow> ds ! w = Some j \<Longrightarrow> j \<le> k + 1" "\<And>w. w \<in> set q \<Longrightarrow> k \<le> the (ds ! w)"
    using assms(1) by (simp_all add: bfs_mid_def)
  have v: "v < length ds" "v \<noteq> u" "v \<noteq> s" "v \<notin> set q"
    using edges_bound [OF assms(3,2)] base True by (auto simp: bfs_base_def)
  have same: "ds' ! w = ds ! w" if "w \<noteq> v" for w
    using that by (simp add: ds')
  have keep: "ds ! w = Some j \<Longrightarrow> ds' ! w = Some j" for w j
    using True by (cases "w = v") (simp_all add: ds')
  have "(s, u) \<in> edges c ^^ k"
    using base(1-3) by (simp add: bfs_base_def)
  then have path: "(s, v) \<in> edges c ^^ (k + 1)"
    using assms(2) by auto
  have len: "length ds' = length ds" and new: "ds' ! v = Some (k + 1)"
    using v(1) by (simp_all add: ds')
  have levels: "\<exists>w' < length ds'. ds' ! w' = Some i" if "w < length ds'" "ds' ! w = Some j" "i \<le> j" for w j i
  proof (cases "i = k + 1")
    case True
    then show ?thesis
      using new v(1) len by auto
  next
    case False
    have "\<exists>w' < length ds. ds ! w' = Some i"
    proof (cases "w = v")
      case True
      then show ?thesis
        using base(1-3) that(3) False that(2) new unfolding bfs_base_def by (metis le_add1 le_SucE Suc_eq_plus1 option.inject)
    next
      case False
      then show ?thesis
        using base(1) that same len unfolding bfs_base_def by metis
    qed
    then show ?thesis
      using keep len by metis
  qed
  have "ds' ! w = ds ! w" if "w \<in> set q" for w
    using that v(4) same [of w] by (cases "w = v") simp_all
  then have qd: "map (\<lambda>w. the (ds' ! w)) q = map (\<lambda>w. the (ds ! w)) q"
    by simp
  have "the (ds ! w) \<le> k + 1" if "w \<in> set q" for w
    using that base(1,4) unfolding bfs_base_def by force
  then have "sorted (map (\<lambda>w. the (ds' ! w)) q')"
    using base(1) new unfolding ds'(2) by (simp add: qd sorted_append bfs_base_def) 
  moreover have "w < length ds \<and> ds' ! w \<noteq> None" if "w \<in> set q'" for w
    using that base(1) v new keep unfolding ds'(2) bfs_base_def by fastforce
  moreover have "(s, w) \<in> edges c ^^ j" if "w < length ds" "ds' ! w = Some j" for w j
    using that path base(1) new same unfolding bfs_base_def by (cases "w = v") auto
  ultimately have "bfs_base c s ds' q'"
    using base(1) v(3) same levels len unfolding bfs_base_def by simp
  moreover have "settled c ds' w" if "w < length ds'" "w \<noteq> u" "w \<notin> set q'" for w
    using assms(1) that settled_mono [of c ds w ds'] same keep len unfolding bfs_mid_def ds'(2) by auto
  moreover have "j \<le> k + 1" if "w < length ds'" "ds' ! w = Some j" for w j
    using that base(4) new same len by (cases "w = v") auto
  moreover have "k \<le> the (ds' ! w)" if "w \<in> set q'" for w
    using that base(5) new same unfolding ds'(2) by (cases "w = v") auto
  moreover have "ds' ! w \<noteq> None" if "w \<in> insert v X" for w
    using that assms(1) new keep unfolding bfs_mid_def by fastforce
  ultimately show ?thesis
    using base(2,3) v(2) same len by (simp add: bfs_mid_def)
qed

definition unseen :: "nat option list \<Rightarrow> nat" where
  "unseen ds = card {v. v < length ds \<and> ds ! v = None}"

lemma visit_measure:
  assumes "visit k (ds, q) v = (ds', q')" "v < length ds"
  shows "length ds' = length ds \<and> unseen ds' + length q' = unseen ds + length q"
proof (cases "ds ! v = None")
  case True
  let ?N = "{w. w < length ds \<and> ds ! w = None}"
  have ds': "ds' = ds[v := Some (k + 1)]" "q' = q @ [v]"
    using True assms(1) by (simp_all add: visit_def)
  have "{w. w < length ds \<and> ds[v := Some (k + 1)] ! w = None} = {w. w < length ds \<and> ds ! w = None} - {v}"
    using assms(2) by (auto simp: nth_list_update)
  then have u: "unseen ds' = card (?N - {v})"
    by (simp add: unseen_def ds')
  have "Suc (card (?N - {v})) = card ?N"
    using True assms(2) by (intro card_Suc_Diff1) simp_all
  then show ?thesis
    unfolding u by (simp add: unseen_def ds')
qed (use assms in \<open>auto simp: visit_def\<close>)

lemma visits_mid:
  assumes "bfs_mid c s u k X ds q" "csr_law c" "set vs \<subseteq> set (outs c u)"
    and "foldl (visit k) (ds, q) vs = (ds', q')"
  shows "bfs_mid c s u k (X \<union> set vs) ds' q' \<and> unseen ds' + length q' = unseen ds + length q"
  using assms
proof (induction vs arbitrary: X ds q)
  case (Cons v vs)
  obtain ds1 q1 where v: "visit k (ds, q) v = (ds1, q1)"
    by (cases "visit k (ds, q) v")
  have e: "(u, v) \<in> edges c"
    using Cons.prems(1,3) by (auto simp: edges_def bfs_mid_def bfs_base_def)
  have "v < length ds"
    using edges_bound [OF Cons.prems(2) e] Cons.prems(1) by (simp add: bfs_mid_def bfs_base_def)
  then have m: "unseen ds1 + length q1 = unseen ds + length q"
    using visit_measure [OF v] by simp
  have "bfs_mid c s u k (insert v X \<union> set vs) ds' q' \<and> unseen ds' + length q' = unseen ds1 + length q1"
    using visit_mid [OF Cons.prems(1) e Cons.prems(2) v] Cons.prems v by (intro Cons.IH) simp_all
  then show ?case
    using m by simp
qed simp

text \<open>A loop whose body does what \<open>visit\<close> does, up to a relation, ends with the table of hops.\<close>

lemma queue_loop_bfs:
  assumes "csr_law c" "rel st ds" "bfs_inv c s ds q"
    and body: "\<And>st ds u q k. rel st ds \<Longrightarrow> bfs_mid c s u k {} ds q \<Longrightarrow>
      (case foldl (visit k) (ds, q) (outs c u) of
         (ds', q') \<Rightarrow> \<exists>st'. body u (st, q) = (st', q') \<and> rel st' ds')"
  shows "\<exists>st' ds'. queue_loop body st q = Some st' \<and> rel st' ds' \<and> hop_table c s ds' \<and> bfs_inv c s ds' []"
  using assms(2,3)
proof (induction "unseen ds + length q" arbitrary: st ds q rule: less_induct)
  case less
  show ?case
  proof (cases q)
    case Nil
    then show ?thesis
      using less.prems bfs_inv_end [OF _ assms(1)] by (subst queue_loop.simps) auto
  next
    case (Cons u q1)
    obtain k where k: "ds ! u = Some k" "bfs_mid c s u k {} ds q1"
      using bfs_mid_start [OF less.prems(2) [unfolded Cons]] by blast
    obtain ds' q' where f: "foldl (visit k) (ds, q1) (outs c u) = (ds', q')"
      by (cases "foldl (visit k) (ds, q1) (outs c u)")
    have m: "bfs_mid c s u k (set (outs c u)) ds' q'" "unseen ds' + length q' = unseen ds + length q1"
      using visits_mid [OF k(2) assms(1) subset_refl f] by simp_all
    obtain st' where st': "body u (st, q1) = (st', q')" "rel st' ds'"
      using body [OF less.prems(1) k(2)] f by auto
    have "\<exists>st'' ds''. queue_loop body st' q' = Some st'' \<and> rel st'' ds'' \<and> hop_table c s ds'' \<and> bfs_inv c s ds'' []"
      using m st'(2) bfs_mid_end [OF m(1) assms(1)] by (intro less.hyps [of ds' q']) (simp_all add: Cons)
    then show ?thesis
      using st'(1) by (subst queue_loop.simps) (simp add: Cons)
  qed
qed

lemma visits_sim:
  assumes "bfs_mid c s u k X ds q" "csr_law c" "set vs \<subseteq> set (outs c u)" "rel st ds"
    and "foldl (visit k) (ds, q) vs = (ds', q')"
    and step: "\<And>X st ds q v ds' q'. rel st ds \<Longrightarrow> bfs_mid c s u k X ds q \<Longrightarrow> v < length ds \<Longrightarrow>
      visit k (ds, q) v = (ds', q') \<Longrightarrow> \<exists>st'. f (st, q) v = (st', q') \<and> rel st' ds'"
  shows "\<exists>st'. foldl f (st, q) vs = (st', q') \<and> rel st' ds'"
  using assms(1,3-5)
proof (induction vs arbitrary: X st ds q)
  case (Cons v vs)
  obtain ds1 q1 where v: "visit k (ds, q) v = (ds1, q1)"
    by (cases "visit k (ds, q) v")
  have e: "(u, v) \<in> edges c"
    using Cons.prems(1,2) by (auto simp: edges_def bfs_mid_def bfs_base_def)
  have "v < length ds"
    using edges_bound [OF assms(2) e] Cons.prems(1) by (simp add: bfs_mid_def bfs_base_def)
  then obtain st1 where st1: "f (st, q) v = (st1, q1)" "rel st1 ds1"
    using step [OF Cons.prems(3,1) _ v] by blast
  have "\<exists>st'. foldl f (st1, q1) vs = (st', q') \<and> rel st' ds'"
    using visit_mid [OF Cons.prems(1) e assms(2) v] Cons.prems(2,4) st1(2) v by (intro Cons.IH) simp_all
  then show ?case
    using st1(1) by simp
qed simp

lemma bfs_mid_dist: "bfs_mid c s u k X ds q \<Longrightarrow> ds ! u = Some k \<and> u < length ds"
  by (simp add: bfs_mid_def)

lemma bfs_mid_le: "bfs_mid c s u k X ds q \<Longrightarrow> v < length ds \<Longrightarrow> ds ! v = Some j \<Longrightarrow> j \<le> k + 1 \<and> j < cs_node_count c"
  using bfs_base_bound by (simp add: bfs_mid_def) blast

text \<open>The three encodings of an optional distance the code uses.\<close>

definition enc_hop :: "nat option \<Rightarrow> int" where
  "enc_hop d = (case d of None \<Rightarrow> I64_MAX | Some k \<Rightarrow> int k)"

definition enc_f64 :: "nat option \<Rightarrow> f64" where
  "enc_f64 d = (case d of None \<Rightarrow> Infinity | Some k \<Rightarrow> Finite (of_nat k))"

definition enc_level :: "nat option \<Rightarrow> int" where
  "enc_level d = (case d of None \<Rightarrow> -1 | Some k \<Rightarrow> int k)"

lemmas enc_defs = enc_hop_def enc_f64_def enc_level_def

definition float_exact :: "(rat \<Rightarrow> rat) \<Rightarrow> bool" where
  "float_exact rnd \<longleftrightarrow> (\<forall>k \<le> 2 ^ 53. rnd (of_nat k) = of_nat k)"

lemma hop_dist_ok:
  assumes "csr_law c" "s < cs_node_count c"
  shows "\<exists>ds. hop_dist c s = Some (map enc_hop ds) \<and> hop_table c s ds \<and>
           (\<forall>v < length ds. \<forall>k. ds ! v = Some k \<longrightarrow> k < cs_node_count c)"
proof -
  have n: "cs_node_count c \<le> 2 ^ 32"
    using assms(1) by (simp add: csr_law_def)
  let ?f = "\<lambda>u (hs, queue) v. if hs ! v = I64_MAX then (hs[v := hs ! u + 1], queue @ [v]) else (hs, queue)"
  have step: "\<exists>st'. ?f u (st, q) v = (st', q') \<and> st' = map enc_hop ds'"
    if "st = map enc_hop ds" "bfs_mid c s u k X ds q" "v < length ds" "visit k (ds, q) v = (ds', q')" for X st ds u k q v ds' q'
  proof -
    have u: "ds ! u = Some k" "u < length ds"
      using bfs_mid_dist [OF that(2)] by simp_all
    have "ds ! v = None \<longleftrightarrow> enc_hop (ds ! v) = I64_MAX"
      using bfs_mid_le [OF that(2,3)] n by (cases "ds ! v") (auto simp: enc_hop_def I64_MAX_def)
    then show ?thesis
      using that u by (auto simp: visit_def map_update enc_hop_def [of "Some _"] add.commute [of 1])
  qed
  have body: "case foldl (visit k) (ds, q) (outs c u) of
         (ds', q') \<Rightarrow> \<exists>st'. hop_body c u (st, q) = (st', q') \<and> st' = map enc_hop ds'"
    if "st = map enc_hop ds" "bfs_mid c s u k {} ds q" for st ds u q k
  proof -
    obtain ds' q' where f: "foldl (visit k) (ds, q) (outs c u) = (ds', q')"
      by (cases "foldl (visit k) (ds, q) (outs c u)")
    then show ?thesis
      using visits_sim [OF that(2) assms(1) subset_refl, where rel = "\<lambda>st ds. st = map enc_hop ds" and f = "?f u",
          OF that(1) f step]
      by (simp add: hop_body_def)
  qed
  have start: "map enc_hop ((replicate (cs_node_count c) None)[s := Some 0]) = (replicate (cs_node_count c) I64_MAX)[s := 0]"
    by (simp add: map_update enc_hop_def)
  obtain ds where "hop_dist c s = Some (map enc_hop ds)" "hop_table c s ds" "bfs_inv c s ds []"
    using queue_loop_bfs [OF assms(1), where rel = "\<lambda>st ds. st = map enc_hop ds", OF refl bfs_inv_start [OF assms(2)] body]
    by (auto simp: hop_dist_def start)
  then show ?thesis
    using bfs_base_bound unfolding bfs_inv_def by blast
qed

lemma sssp_dist_ok:
  assumes "csr_law c" "s < cs_node_count c" "float_exact rnd"
  shows "\<exists>ds. sssp_dist rnd c s = Some (map enc_f64 ds) \<and> hop_table c s ds"
proof -
  have n: "cs_node_count c \<le> 2 ^ 32"
    using assms(1) by (simp add: csr_law_def)
  have body: "case foldl (visit k) (ds, q) (outs c u) of
         (ds', q') \<Rightarrow> \<exists>st'. sssp_body rnd c u (st, q) = (st', q') \<and> st' = map enc_f64 ds'"
    if st: "st = map enc_f64 ds" and mid: "bfs_mid c s u k {} ds q" for st ds u q k
  proof -
    obtain ds' q' where f: "foldl (visit k) (ds, q) (outs c u) = (ds', q')"
      by (cases "foldl (visit k) (ds, q) (outs c u)")
    have u: "ds ! u = Some k" "u < length ds" "k < cs_node_count c"
      using bfs_mid_dist [OF mid] bfs_mid_le [OF mid] by blast+
    have "k + 1 \<le> 2 ^ 53"
      using u(3) n by simp
    then have "rnd (of_nat (k + 1)) = of_nat (k + 1)"
      using assms(3) unfolding float_exact_def by blast
    then have nd: "f64_add rnd (map enc_f64 ds ! u) (Finite 1) = enc_f64 (Some (k + 1))"
      using u by (simp add: enc_f64_def add.commute [of 1])
    let ?g = "\<lambda>(hs, queue) v. let nd = enc_f64 (Some (k + 1))
      in if f64_less nd (hs ! v) then (hs[v := nd], queue @ [v]) else (hs, queue)"
    have step: "\<exists>st'. ?g (st, q) v = (st', q') \<and> st' = map enc_f64 ds'"
      if "st = map enc_f64 ds" "bfs_mid c s u k X ds q" "v < length ds" "visit k (ds, q) v = (ds', q')" for X st ds q v ds' q'
    proof -
      have "ds ! v = None \<longleftrightarrow> f64_less (enc_f64 (Some (k + 1))) (enc_f64 (ds ! v))"
        using bfs_mid_le [OF that(2,3)] by (cases "ds ! v") (auto simp: enc_f64_def)
      then show ?thesis
        using that by (auto simp: visit_def map_update Let_def)
    qed
    show ?thesis
      using visits_sim [OF mid assms(1) subset_refl, where rel = "\<lambda>st ds. st = map enc_f64 ds" and f = ?g, OF st f step] f
      by (simp add: sssp_body_def st nd)
  qed
  have start: "map enc_f64 ((replicate (cs_node_count c) None)[s := Some 0]) = (replicate (cs_node_count c) Infinity)[s := Finite 0]"
    by (simp add: map_update enc_f64_def)
  show ?thesis
    using queue_loop_bfs [OF assms(1), where rel = "\<lambda>st ds. st = map enc_f64 ds", OF refl bfs_inv_start [OF assms(2)] body]
    by (auto simp: sssp_dist_def start)
qed

lemma brandes_ends:
  assumes "csr_law c" "s < cs_node_count c"
  shows "\<exists>b. queue_loop (brandes_body rnd c) (brandes_start c s) [s] = Some b"
proof -
  let ?rel = "\<lambda>b ds. br_dist b = map enc_level ds"
  have step: "\<exists>b'. brandes_edge rnd u (b, q) v = (b', q') \<and> ?rel b' ds'"
    if "?rel b ds" "bfs_mid c s u k X ds q" "v < length ds" "visit k (ds, q) v = (ds', q')" for X b ds u k q v ds' q'
  proof -
    have u: "ds ! u = Some k" "u < length ds"
      using bfs_mid_dist [OF that(2)] by simp_all
    have "ds ! v = None \<longleftrightarrow> enc_level (ds ! v) < 0"
      by (cases "ds ! v") (auto simp: enc_level_def)
    then show ?thesis
      using that u by (auto simp: visit_def brandes_edge_def map_update Let_def enc_level_def [of "Some _"] add.commute [of 1])
  qed
  have body: "case foldl (visit k) (ds, q) (outs c u) of
         (ds', q') \<Rightarrow> \<exists>b'. brandes_body rnd c u (b, q) = (b', q') \<and> ?rel b' ds'"
    if "?rel b ds" "bfs_mid c s u k {} ds q" for b ds u q k
  proof -
    obtain ds' q' where f: "foldl (visit k) (ds, q) (outs c u) = (ds', q')"
      by (cases "foldl (visit k) (ds, q) (outs c u)")
    have r: "?rel (b\<lparr>br_stack := br_stack b @ [u]\<rparr>) ds"
      using that(1) by simp
    show ?thesis
      using visits_sim [OF that(2) assms(1) subset_refl, where rel = ?rel and f = "brandes_edge rnd u", OF r f step] f
      by (simp add: brandes_body_def)
  qed
  have start: "?rel (brandes_start c s) ((replicate (cs_node_count c) None)[s := Some 0])"
    by (simp add: brandes_start_def map_update enc_level_def Let_def)
  show ?thesis
    using queue_loop_bfs [OF assms(1), where rel = ?rel, OF start bfs_inv_start [OF assms(2)] body] by blast
qed

subsection \<open>Cores\<close>

text \<open>The degree of a node within a set of nodes, and membership in a \<open>k\<close>-core.\<close>

definition deg_in :: "csr \<Rightarrow> nat set \<Rightarrow> nat \<Rightarrow> nat" where
  "deg_in c S v = length (filter (\<lambda>w. w \<in> S) (outs c v)) + length (filter (\<lambda>w. w \<in> S) (ins c v))"

definition in_core :: "csr \<Rightarrow> nat \<Rightarrow> nat \<Rightarrow> bool" where
  "in_core c k v \<longleftrightarrow> (\<exists>S \<subseteq> {..<cs_node_count c}. v \<in> S \<and> (\<forall>w \<in> S. k \<le> deg_in c S w))"

definition alive :: "cores \<Rightarrow> nat set" where
  "alive st = {v. v < length (kc_removed st) \<and> \<not> kc_removed st ! v}"

definition degrees_ok :: "csr \<Rightarrow> cores \<Rightarrow> bool" where
  "degrees_ok c st \<longleftrightarrow>
     length (kc_degree st) = cs_node_count c \<and> length (kc_removed st) = cs_node_count c \<and>
     length (kc_coreness st) = cs_node_count c \<and>
     (\<forall>v \<in> alive st. kc_degree st ! v = deg_in c (alive st) v)"

lemma filter_length_mono:
  "S \<subseteq> T \<Longrightarrow> length (filter (\<lambda>w. w \<in> S) xs) \<le> length (filter (\<lambda>w. w \<in> T) xs)"
  by (induction xs) auto

lemma deg_in_mono: "S \<subseteq> T \<Longrightarrow> deg_in c S v \<le> deg_in c T v"
  unfolding deg_in_def by (intro add_mono filter_length_mono)

lemma in_core_mono: "in_core c k v \<Longrightarrow> j \<le> k \<Longrightarrow> in_core c j v"
  unfolding in_core_def by (meson order_trans)

lemma filter_length_remove:
  "x \<in> S \<Longrightarrow> length (filter (\<lambda>w. w \<in> S) xs) = length (filter (\<lambda>w. w \<in> S - {x}) xs) + count_list xs x"
  by (induction xs) auto

lemma deg_in_remove:
  assumes "csr_law c" "x < cs_node_count c" "v < cs_node_count c" "x \<in> S"
  shows "deg_in c S v = deg_in c (S - {x}) v + (count_list (outs c x) v + count_list (ins c x) v)"
proof -
  have "count_list (outs c v) x = count_list (ins c x) v" "count_list (outs c x) v = count_list (ins c v) x"
    using assms(1-3) unfolding csr_law_def by blast+
  then show ?thesis
    using filter_length_remove [OF assms(4), of "outs c v"] filter_length_remove [OF assms(4), of "ins c v"]
    by (simp add: deg_in_def)
qed

lemma drop_degrees:
  assumes "v < length (kc_degree st)" "\<not> kc_removed st ! v"
  shows "kc_degree (foldl drop_degree st nbs) ! v = kc_degree st ! v - count_list nbs v"
  using assms
proof (induction nbs arbitrary: st)
  case (Cons nb nbs)
  have "kc_degree (drop_degree st nb) ! v = kc_degree st ! v - (if nb = v then 1 else 0)"
    using Cons.prems by (auto simp: drop_degree_def nth_list_update)
  moreover have "kc_removed (drop_degree st nb) = kc_removed st"
      "length (kc_degree (drop_degree st nb)) = length (kc_degree st)"
    by (simp_all add: drop_degree_def)
  ultimately show ?case
    using Cons.IH [of "drop_degree st nb"] Cons.prems by simp
qed simp

lemma drop_degrees_frame [simp]:
  "kc_removed (foldl drop_degree st nbs) = kc_removed st"
  "kc_coreness (foldl drop_degree st nbs) = kc_coreness st"
  "length (kc_degree (foldl drop_degree st nbs)) = length (kc_degree st)"
  by (induction nbs arbitrary: st) (simp_all add: drop_degree_def)

text \<open>The state of the peeling at level \<open>k\<close>.\<close>

definition peel_inv :: "csr \<Rightarrow> nat \<Rightarrow> cores \<Rightarrow> bool" where
  "peel_inv c k st \<longleftrightarrow>
     degrees_ok c st \<and>
     (\<forall>v \<in> alive st. in_core c (k - 1) v \<and> kc_coreness st ! v = k - 1) \<and>
     (\<forall>v < cs_node_count c. in_core c k v \<longrightarrow> v \<in> alive st) \<and>
     (\<forall>v < cs_node_count c. v \<notin> alive st \<longrightarrow>
        in_core c (kc_coreness st ! v) v \<and> \<not> in_core c (kc_coreness st ! v + 1) v)"

lemma core_degree:
  assumes "in_core c k v" "\<And>w. w < cs_node_count c \<Longrightarrow> in_core c k w \<Longrightarrow> w \<in> R"
  shows "k \<le> deg_in c R v"
proof -
  obtain S where S: "S \<subseteq> {..<cs_node_count c}" "v \<in> S" "\<And>w. w \<in> S \<Longrightarrow> k \<le> deg_in c S w"
    using assms(1) unfolding in_core_def by blast
  have "S \<subseteq> R"
    using S assms(2) unfolding in_core_def by blast
  then show ?thesis
    using S(2,3) deg_in_mono order_trans by blast
qed

lemma kc_node_inv:
  assumes "csr_law c" "0 < k" "peel_inv c k st" "node < cs_node_count c" "kc_node c k (st, p) node = (st', p')"
  shows "peel_inv c k st' \<and>
     (if node \<in> alive st \<and> kc_degree st ! node < k then p' \<and> alive st' = alive st - {node} else st' = st \<and> p' = p)"
proof (cases "node \<in> alive st \<and> kc_degree st ! node < k")
  case False
  then have "st' = st" "p' = p"
    using assms(3-5) by (auto simp: kc_node_def alive_def peel_inv_def degrees_ok_def split: if_splits)
  then show ?thesis
    using assms(3) False by auto
next
  case True
  let ?st1 = "st\<lparr>kc_removed := (kc_removed st)[node := True], kc_coreness := (kc_coreness st)[node := k - 1]\<rparr>"
  have ok: "degrees_ok c st"
    using assms(3) by (simp add: peel_inv_def)
  have lens: "length (kc_degree st) = cs_node_count c" "length (kc_removed st) = cs_node_count c"
      "length (kc_coreness st) = cs_node_count c"
    using ok by (simp_all add: degrees_ok_def)
  have st': "st' = foldl drop_degree (foldl drop_degree ?st1 (outs c node)) (ins c node)" "p'"
    using assms(5) True by (auto simp: kc_node_def alive_def Let_def)
  have rem: "kc_removed st' = (kc_removed st)[node := True]" "kc_coreness st' = (kc_coreness st)[node := k - 1]"
      "length (kc_degree st') = cs_node_count c"
    by (simp_all add: st' lens)
  have alive: "alive st' = alive st - {node}"
    using assms(4) lens by (auto simp: alive_def rem nth_list_update)
  have deg: "kc_degree st' ! v = deg_in c (alive st') v" if "v \<in> alive st'" for v
  proof -
    have v: "v \<in> alive st" "v \<noteq> node" "v < cs_node_count c"
      using that lens unfolding alive by (auto simp: alive_def)
    have "kc_degree st' ! v = kc_degree st ! v - count_list (outs c node) v - count_list (ins c node) v"
      using v lens by (simp add: st' drop_degrees alive_def)
    also have "kc_degree st ! v = deg_in c (alive st) v"
      using ok v(1) by (simp add: degrees_ok_def)
    finally show ?thesis
      using deg_in_remove [OF assms(1,4) v(3), of "alive st"] True by (simp add: alive)
  qed
  have out: "\<not> in_core c k node"
    using core_degree [of c k node "alive st"] True ok assms(3) by (auto simp: peel_inv_def degrees_ok_def)
  have core: "in_core c (k - 1) node"
    using assms(3) True by (simp add: peel_inv_def)
  have "peel_inv c k st'"
    unfolding peel_inv_def
  proof (intro conjI allI ballI impI)
    show "degrees_ok c st'"
      using deg lens rem by (simp add: degrees_ok_def)
  next
    fix v assume "v \<in> alive st'"
    then show "in_core c (k - 1) v" "kc_coreness st' ! v = k - 1"
      using assms(3) by (auto simp: alive rem peel_inv_def)
  next
    fix v assume "v < cs_node_count c" "in_core c k v"
    then show "v \<in> alive st'"
      using assms(3) out by (auto simp: alive peel_inv_def)
  next
    fix v assume v: "v < cs_node_count c" "v \<notin> alive st'"
    then show "in_core c (kc_coreness st' ! v) v" "\<not> in_core c (kc_coreness st' ! v + 1) v"
      using assms(2,3) out core lens by (cases "v = node"; auto simp: alive rem peel_inv_def)+
  qed
  then show ?thesis
    using True st'(2) alive by simp
qed

lemma kc_fold_inv:
  assumes "csr_law c" "0 < k" "peel_inv c k st" "set ns \<subseteq> {..<cs_node_count c}"
    and "foldl (kc_node c k) (st, p) ns = (st', p')"
  shows "peel_inv c k st' \<and> alive st' \<subseteq> alive st \<and>
     (p' \<noteq> p \<longrightarrow> alive st' \<noteq> alive st) \<and>
     (\<not> p' \<longrightarrow> st' = st \<and> (\<forall>v \<in> set ns. v \<in> alive st \<longrightarrow> k \<le> kc_degree st ! v))"
  using assms(3-)
proof (induction ns arbitrary: st p)
  case (Cons v ns)
  obtain st1 p1 where v: "kc_node c k (st, p) v = (st1, p1)"
    by (cases "kc_node c k (st, p) v")
  have vn: "v < cs_node_count c"
    using Cons.prems(2) by simp
  have one: "peel_inv c k st1"
      "if v \<in> alive st \<and> kc_degree st ! v < k then p1 \<and> alive st1 = alive st - {v} else st1 = st \<and> p1 = p"
    using kc_node_inv [OF assms(1,2) Cons.prems(1) vn v] by simp_all
  have rest: "peel_inv c k st' \<and> alive st' \<subseteq> alive st1 \<and> (p' \<noteq> p1 \<longrightarrow> alive st' \<noteq> alive st1) \<and>
     (\<not> p' \<longrightarrow> st' = st1 \<and> (\<forall>v \<in> set ns. v \<in> alive st1 \<longrightarrow> k \<le> kc_degree st1 ! v))"
    using Cons.prems v by (intro Cons.IH [OF one(1)]) simp_all
  have sticky: "p1 \<longrightarrow> p'"
  proof -
    have "snd stp \<longrightarrow> snd (foldl (kc_node c k) stp ns)" for stp
      by (induction ns arbitrary: stp) (auto simp: kc_node_def Let_def split: prod.splits if_splits)
    then show ?thesis
      using Cons.prems(3) v by (metis foldl_Cons snd_conv)
  qed
  show ?case
    using one(2) rest sticky by (auto split: if_splits)
qed auto

lemma kc_peel_ok:
  assumes "csr_law c" "0 < k" "peel_inv c k st"
  shows "\<exists>st'. kc_peel c k st = Some st' \<and> peel_inv c k st' \<and> (\<forall>v \<in> alive st'. k \<le> kc_degree st' ! v)"
  using assms(3)
proof (induction "card (alive st)" arbitrary: st rule: less_induct)
  case less
  obtain st1 p where sw: "foldl (kc_node c k) (st, False) [0..<cs_node_count c] = (st1, p)"
    by (cases "foldl (kc_node c k) (st, False) [0..<cs_node_count c]")
  have inv: "peel_inv c k st1 \<and> alive st1 \<subseteq> alive st \<and> (p \<noteq> False \<longrightarrow> alive st1 \<noteq> alive st) \<and>
      (\<not> p \<longrightarrow> st1 = st \<and> (\<forall>v \<in> set [0..<cs_node_count c]. v \<in> alive st \<longrightarrow> k \<le> kc_degree st ! v))"
    using assms(1,2) less.prems sw by (intro kc_fold_inv) auto
  have fin: "finite (alive st)"
    by (simp add: alive_def)
  show ?case
  proof (cases p)
    case True
    have "card (alive st1) < card (alive st)"
      using inv True fin by (intro psubset_card_mono) auto
    then show ?thesis
      using less.hyps inv sw True by (subst kc_peel.simps) (simp add: kc_sweep_def)
  next
    case False
    have "v < cs_node_count c" if "v \<in> alive st" for v
      using that less.prems by (simp add: peel_inv_def degrees_ok_def alive_def)
    then show ?thesis
      using inv sw False by (subst kc_peel.simps) (auto simp: kc_sweep_def)
  qed
qed

lemma kc_assign_inv:
  assumes "peel_inv c k st" "\<forall>v \<in> alive st. k \<le> kc_degree st ! v" "0 < k"
  shows "peel_inv c (k + 1) (kc_assign k st)" and "alive (kc_assign k st) = alive st"
proof -
  show al: "alive (kc_assign k st) = alive st"
    by (simp add: alive_def kc_assign_def)
  have ok: "degrees_ok c st"
    using assms(1) by (simp add: peel_inv_def)
  have core: "kc_coreness (kc_assign k st) ! v = (if v \<in> alive st then k else kc_coreness st ! v)"
    if "v < cs_node_count c" for v
    using that ok by (simp add: kc_assign_def alive_def degrees_ok_def)
  have lt: "v < cs_node_count c" if "v \<in> alive st" for v
    using that ok by (simp add: degrees_ok_def alive_def)
  have now: "in_core c k v" if "v \<in> alive st" for v
    unfolding in_core_def using that ok assms(2) lt by (intro exI [of _ "alive st"]) (auto simp: degrees_ok_def)
  have "degrees_ok c (kc_assign k st)"
    using ok al by (simp add: degrees_ok_def) (simp add: kc_assign_def)
  then show "peel_inv c (k + 1) (kc_assign k st)"
    using assms(1) now lt core in_core_mono [of c "k + 1" _ k] by (auto simp: peel_inv_def al)
qed

lemma kc_loop_ok:
  assumes "csr_law c" "0 < k" "peel_inv c k st"
  shows "\<exists>st'. kc_loop c k st = Some st' \<and> length (kc_coreness st') = cs_node_count c \<and>
     (\<forall>v < cs_node_count c. \<forall>j. j \<le> kc_coreness st' ! v \<longleftrightarrow> in_core c j v)"
proof -
  define D where "D = Max (insert 0 ((\<lambda>v. deg_in c {..<cs_node_count c} v) ` {..<cs_node_count c}))"
  have D: "deg_in c R v \<le> D" if "R \<subseteq> {..<cs_node_count c}" "v < cs_node_count c" for R v
    using deg_in_mono [OF that(1), of c v] that(2) unfolding D_def by (intro order_trans [OF _ Max_ge]) auto
  show ?thesis
    using assms(2,3)
  proof (induction "D + 1 - k" arbitrary: k st rule: less_induct)
    case less
    obtain st1 where st1: "kc_peel c k st = Some st1" "peel_inv c k st1" "\<forall>v \<in> alive st1. k \<le> kc_degree st1 ! v"
      using kc_peel_ok [OF assms(1) less.prems] by blast
    have len: "length (kc_removed st1) = cs_node_count c" "length (kc_coreness st1) = cs_node_count c"
      using st1(2) by (simp_all add: peel_inv_def degrees_ok_def)
    show ?case
    proof (cases "list_all (\<lambda>r. r) (kc_removed st1)")
      case True
      then have "alive st1 = {}"
        by (auto simp: alive_def list_all_length)
      then have ex: "in_core c (kc_coreness st1 ! v) v" "\<not> in_core c (kc_coreness st1 ! v + 1) v"
        if "v < cs_node_count c" for v
        using st1(2) that by (simp_all add: peel_inv_def)
      have "j \<le> kc_coreness st1 ! v \<longleftrightarrow> in_core c j v" if "v < cs_node_count c" for v j
        using ex [OF that] in_core_mono [of c "kc_coreness st1 ! v" v j]
          in_core_mono [of c j v "kc_coreness st1 ! v + 1"] by linarith
      then show ?thesis
        using st1(1) True len by (subst kc_loop.simps) simp
    next
      case False
      then obtain v where v: "v \<in> alive st1" "v < cs_node_count c"
        using len by (auto simp: alive_def list_all_length)
      have "k \<le> deg_in c (alive st1) v"
        using st1(2,3) v by (auto simp: peel_inv_def degrees_ok_def)
      also have "\<dots> \<le> D"
        using len v by (intro D) (auto simp: alive_def)
      finally have "D + 1 - (k + 1) < D + 1 - k"
        by simp
      then show ?thesis
        using less.hyps [of "k + 1" "kc_assign k st1"] kc_assign_inv [OF st1(2,3) less.prems(1)] st1(1) False
        by (subst kc_loop.simps) simp
    qed
  qed
qed

lemma kc_start_inv:
  assumes "csr_law c"
  shows "peel_inv c 1 (kc_start c)"
proof -
  have al: "alive (kc_start c) = {..<cs_node_count c}"
    by (auto simp: alive_def kc_start_def Let_def)
  have all: "filter (\<lambda>w. w \<in> {..<cs_node_count c}) (outs c v) = outs c v"
      "filter (\<lambda>w. w \<in> {..<cs_node_count c}) (ins c v) = ins c v" if "v < cs_node_count c" for v
    using assms that unfolding csr_law_def filter_id_conv by blast+
  have "degrees_ok c (kc_start c)"
    using assms unfolding degrees_ok_def al
    by (auto simp: kc_start_def Let_def deg_in_def all [simplified] csr_law_def)
  moreover have "in_core c 0 v" if "v < cs_node_count c" for v
    using that unfolding in_core_def by (intro exI [of _ "{v}"]) simp
  ultimately show ?thesis
    by (simp add: peel_inv_def al) (simp add: kc_start_def Let_def)
qed

lemma kcore_cores:
  assumes "csr_law c"
  shows "\<exists>core. kcore c = Some (map (\<lambda>i. [VString (cs_name c i), VInteger (int (core i mod 2 ^ 32))]) [0..<cs_node_count c]) \<and>
           (\<forall>i < cs_node_count c. \<forall>k. k \<le> core i \<longleftrightarrow> in_core c k i)"
proof (cases "cs_node_count c = 0")
  case False
  obtain st where "kc_loop c 1 (kc_start c) = Some st"
      "\<forall>v < cs_node_count c. \<forall>j. j \<le> kc_coreness st ! v \<longleftrightarrow> in_core c j v"
    using kc_loop_ok [OF assms _ kc_start_inv [OF assms]] by auto
  then show ?thesis
    using False by (intro exI [of _ "\<lambda>i. kc_coreness st ! i"]) (simp add: kcore_def node_rows_def)
qed (simp add: kcore_def)

subsection \<open>Every algorithm ends\<close>

lemma collect_some_ok:
  "(\<And>x. x \<in> set xs \<Longrightarrow> \<exists>y. f x = Some y) \<Longrightarrow>
   \<exists>ys. collect_some f xs = Some ys \<and> length ys = length xs \<and> (\<forall>i < length xs. f (xs ! i) = Some (ys ! i))"
proof (induction xs)
  case (Cons x xs)
  obtain y where "f x = Some y"
    using Cons.prems by auto
  moreover obtain ys where "collect_some f xs = Some ys" "length ys = length xs" "\<forall>i < length xs. f (xs ! i) = Some (ys ! i)"
    using Cons.IH Cons.prems by auto
  ultimately show ?case
    by (auto simp: nth_Cons split: nat.split)
qed simp

lemma hop_dist_ends: "csr_law c \<Longrightarrow> s < cs_node_count c \<Longrightarrow> \<exists>hs. hop_dist c s = Some hs"
  using hop_dist_ok by blast

lemma collect_hops:
  assumes "csr_law c" "n \<le> cs_node_count c"
  shows "\<exists>ys. collect_some (\<lambda>s. map_option (g s) (hop_dist c s)) [0..<n] = Some ys"
proof -
  have "\<exists>y. map_option (g s) (hop_dist c s) = Some y" if "s \<in> set [0..<n]" for s
    using hop_dist_ends [OF assms(1), of s] that assms(2) by auto
  then show ?thesis
    using collect_some_ok [of "[0..<n]" "\<lambda>s. map_option (g s) (hop_dist c s)"] by blast
qed

lemma betweenness_from_ends:
  "csr_law c \<Longrightarrow> set ss \<subseteq> {..<cs_node_count c} \<Longrightarrow> \<exists>bc'. betweenness_from rnd c ss bc = Some bc'"
proof (induction ss arbitrary: bc)
  case (Cons s ss)
  then show ?case
    using brandes_ends [OF Cons.prems(1), of s rnd] by auto
qed simp

lemma upt_min: "set [0..<min k n] \<subseteq> {..<n}"
  by auto

text \<open>Shortest path rows; an unknown source leaves every node at infinity.\<close>

lemma sssp_rows:
  assumes "csr_law c" "float_exact rnd" "0 < cs_node_count c" "ap_source_node params = Some s" "cs_id c s = Some src"
  shows "\<exists>ds. hop_table c src ds \<and>
     sssp rnd c params = Some (map (\<lambda>i. [VString (cs_name c i), VFloat (enc_f64 (ds ! i))]) [0..<cs_node_count c])"
proof -
  have src: "src < cs_node_count c"
    using assms(1,5) by (simp add: csr_law_def)
  obtain ds where ds: "sssp_dist rnd c src = Some (map enc_f64 ds)" "hop_table c src ds"
    using sssp_dist_ok [OF assms(1) src assms(2)] by blast
  then have "sssp rnd c params = Some (map (\<lambda>i. [VString (cs_name c i), VFloat (enc_f64 (ds ! i))]) [0..<cs_node_count c])"
    using assms(3-5) by (simp add: sssp_def Let_def node_rows_def hop_table_def)
  then show ?thesis
    using ds(2) by blast
qed

lemma algo_rows_end:
  assumes "csr_law c" "float_exact (ae_rnd env)"
  shows "\<exists>rows. algo_rows env c params a = Some rows"
proof (cases a)
  case Wcc
  moreover obtain ids where "wcc_ids c = Some ids"
    using wcc_ids_ok [OF assms(1)] by blast
  ultimately show ?thesis
    by (simp add: wcc_def)
next
  case Sssp
  let ?src = "cs_id c (case ap_source_node params of None \<Rightarrow> [] | Some s \<Rightarrow> s)"
  have "\<exists>ds. sssp_dist (ae_rnd env) c i = Some ds" if "?src = Some i" for i
  proof -
    have "i < cs_node_count c"
      using assms(1) that by (simp add: csr_law_def)
    from sssp_dist_ok [OF assms(1) this assms(2)] show ?thesis
      by blast
  qed
  then show ?thesis
    using Sssp by (cases ?src) (auto simp: sssp_def Let_def)
next
  case Betweenness
  let ?sample = "min (case ap_sample_size params of None \<Rightarrow> cs_node_count c | Some k \<Rightarrow> k) (cs_node_count c)"
  obtain bc where "betweenness_from (ae_rnd env) c [0..<?sample] (replicate (cs_node_count c) 0) = Some bc"
    using betweenness_from_ends [OF assms(1) upt_min] by blast
  then show ?thesis
    using Betweenness by (simp add: betweenness_def Let_def)
next
  case Closeness
  then show ?thesis
    using collect_hops [OF assms(1) min.cobounded2,
        of "\<lambda>s hs. [VString (cs_name c s), VFloat (Finite (closeness_of (ae_rnd env) hs))]"]
    by (simp add: closeness_def Let_def)
next
  case Harmonic
  then show ?thesis
    using collect_hops [OF assms(1) order_refl,
        of "\<lambda>s hs. [VString (cs_name c s), VFloat (Finite (harmonic_of (ae_rnd env) s hs))]"]
    by (simp add: harmonic_def)
next
  case Diameter
  then show ?thesis
    using collect_hops [OF assms(1) order_refl, of "\<lambda>s hs. hs"] by (simp add: diameter_def option.map_ident)
next
  case KCore
  moreover obtain rows where "kcore c = Some rows"
    using kcore_cores [OF assms(1)] by blast
  ultimately show ?thesis
    by simp
qed simp_all

subsection \<open>Diameter\<close>

text \<open>The eccentricity of a node over the nodes it reaches.\<close>

definition ecc :: "csr \<Rightarrow> nat \<Rightarrow> nat" where
  "ecc c s = Max {k. \<exists>v < cs_node_count c. hops c s v k}"

lemma hops_self: "s < cs_node_count c \<Longrightarrow> hops c s s 0"
  by (simp add: hops_def)

lemma Max_insert_max: "finite A \<Longrightarrow> Max (insert (max a e) A) = Max (insert a (insert (e :: int) A))"
  by (cases "A = {}") (simp_all add: max.assoc)

lemma Min_insert_min: "finite A \<Longrightarrow> Min (insert (min a e) A) = Min (insert a (insert (e :: int) A))"
  by (cases "A = {}") (simp_all add: min.assoc)

lemma foldl_max: "foldl max (d :: int) ds = Max (insert d (set ds))"
proof (induction ds arbitrary: d)
  case (Cons e ds)
  then show ?case
    using Max_insert_max [of "set ds" d e] by simp
qed simp

lemma eccentricity_ok:
  assumes "csr_law c" "s < cs_node_count c" "hop_dist c s = Some hs"
  shows "eccentricity hs = int (ecc c s)" and "ecc c s < cs_node_count c"
proof -
  obtain ds where ds: "hs = map enc_hop ds" "hop_table c s ds"
      "\<And>v k. v < length ds \<Longrightarrow> ds ! v = Some k \<Longrightarrow> k < cs_node_count c"
    using hop_dist_ok [OF assms(1,2)] assms(3) by auto
  let ?K = "{k. \<exists>v < cs_node_count c. hops c s v k}"
  have n: "cs_node_count c \<le> 2 ^ 32"
    using assms(1) by (simp add: csr_law_def)
  have K: "?K = {k. Some k \<in> set ds}"
    using ds(2) by (auto simp: hop_table_def in_set_conv_nth)
  have lt: "k < cs_node_count c" if "k \<in> ?K" for k
    using ds(3) that unfolding K by (auto simp: in_set_conv_nth)
  have fin: "finite ?K"
    using lt by (meson finite_lessThan finite_subset lessThan_iff subsetI)
  have ne: "0 \<in> ?K"
    using hops_self [OF assms(2)] assms(2) by blast
  have "int k \<noteq> I64_MAX" if "Some k \<in> set ds" for k
    using lt [of k] that n by (simp add: K I64_MAX_def)
  then have set: "set (filter (\<lambda>d. d \<noteq> I64_MAX) hs) = int ` ?K"
    unfolding K ds(1) by (force simp: enc_hop_def split: option.splits)
  have "eccentricity hs = Max (int ` ?K)"
  proof (cases "filter (\<lambda>d. d \<noteq> I64_MAX) hs")
    case Nil
    then show ?thesis
      using set ne by auto
  next
    case (Cons d ds')
    have "Max (int ` ?K) = Max (set (d # ds'))"
      unfolding set [symmetric] Cons ..
    then show ?thesis
      by (simp add: eccentricity_def Cons foldl_max)
  qed
  also have "\<dots> = int (Max ?K)"
    using fin ne by (intro mono_Max_commute [symmetric]) (auto simp: mono_def)
  finally show "eccentricity hs = int (ecc c s)"
    by (simp add: ecc_def)
  show "ecc c s < cs_node_count c"
    unfolding ecc_def using lt Max_in [OF fin] ne by blast
qed

lemma ecc_fold:
  "foldl ecc_step (a, b) es = (Max (insert a (set es)), Min (insert b {e \<in> set es. 0 < e}))"
proof (induction es arbitrary: a b)
  case (Cons e es)
  let ?P = "{x \<in> set es. 0 < x}"
  have step: "foldl ecc_step (a, b) (e # es) =
      (Max (insert (max a e) (set es)), Min (insert (if 0 < e then min b e else b) ?P))"
    unfolding foldl_Cons by (simp add: ecc_step_def [of "(a, b)" e] Cons)
  show ?case
  proof (cases "0 < e")
    case True
    then have "{x \<in> set (e # es). 0 < x} = insert e ?P"
      by auto
    then show ?thesis
      using True Max_insert_max [of "set es" a e] Min_insert_min [of ?P b e] step by simp
  next
    case False
    then have "{x \<in> set (e # es). 0 < x} = ?P"
      by auto
    then show ?thesis
      using False Max_insert_max [of "set es" a e] step by simp
  qed
qed simp

lemma min_ecc:
  assumes "finite E" "E \<noteq> {}" "\<And>e. e \<in> E \<Longrightarrow> int e < hi"
  shows "(let m = Min (insert hi (int ` (E - {0}))) in if m = hi then 0 else m) =
     int (if E = {0} then 0 else Min (E - {0}))"
proof (cases "E = {0}")
  case False
  then have ne: "E - {0} \<noteq> {}"
    using assms(2) by auto
  have "Min (int ` (E - {0})) = int (Min (E - {0}))"
    using assms(1) ne by (intro mono_Min_commute [symmetric]) (auto simp: mono_def)
  moreover have "int (Min (E - {0})) < hi"
    using assms(1,3) ne Min_in [of "E - {0}"] by blast
  ultimately have "Min (insert hi (int ` (E - {0}))) = int (Min (E - {0}))" "int (Min (E - {0})) \<noteq> hi"
    using assms(1) ne by simp_all
  then show ?thesis
    using False by (simp add: Let_def)
qed simp

lemma diameter_rows:
  assumes "csr_law c" "0 < cs_node_count c"
  defines "E \<equiv> ecc c ` {..<cs_node_count c}"
  shows "diameter c = Some [[VInteger (int (Max E)), VInteger (int (if E = {0} then 0 else Min (E - {0})))]]"
proof -
  let ?n = "cs_node_count c"
  have n: "?n \<le> 2 ^ 32"
    using assms(1) by (simp add: csr_law_def)
  obtain hss where hss: "collect_some (hop_dist c) [0..<?n] = Some hss" "length hss = ?n"
      "\<forall>i < ?n. hop_dist c i = Some (hss ! i)"
    using collect_some_ok [of "[0..<?n]" "hop_dist c"] hop_dist_ends [OF assms(1)] by auto
  have "map eccentricity hss = map (\<lambda>i. int (ecc c i)) [0..<?n]"
    using hss(2,3) eccentricity_ok(1) [OF assms(1)] by (intro nth_equalityI) auto
  then have es: "set (map eccentricity hss) = int ` E"
    by (auto simp: E_def)
  have lt: "e < ?n" if "e \<in> E" for e
    using that eccentricity_ok(2) [OF assms(1)] hss(3) by (auto simp: E_def)
  have fin: "finite E" and ne: "E \<noteq> {}"
    using assms(2) by (auto simp: E_def)
  have mx: "Max (insert 0 (int ` E)) = int (Max E)"
    using fin ne mono_Max_commute [of int E] by (simp add: mono_def)
  have pos: "{e \<in> int ` E. 0 < e} = int ` (E - {0})"
    by auto
  have "foldl ecc_step (0, I64_MAX) (map eccentricity hss) = (int (Max E), Min (insert I64_MAX (int ` (E - {0}))))"
    unfolding ecc_fold es pos mx ..
  moreover have "(let m = Min (insert I64_MAX (int ` (E - {0}))) in if m = I64_MAX then 0 else m) =
      int (if E = {0} then 0 else Min (E - {0}))"
  proof (intro min_ecc fin ne)
    show "int e < I64_MAX" if "e \<in> E" for e
      using lt [OF that] n by (simp add: I64_MAX_def)
  qed
  ultimately show ?thesis
    using assms(2) hss(1) by (simp add: diameter_def Let_def)
qed

subsection \<open>PageRank without rounding\<close>

lemma fsum_exact: "fsum (\<lambda>x. x) xs = sum_list xs"
proof -
  have "foldl (\<lambda>a x. a + x) a xs = a + sum_list xs" for a :: rat
    by (induction xs arbitrary: a) simp_all
  then show ?thesis
    by (simp add: fsum_def)
qed

lemma sum_list_bump: "w < length r \<Longrightarrow> sum_list (r[w := r ! w + x]) = sum_list r + (x :: rat)"
  by (induction r arbitrary: w) (auto simp: nth_Cons split: nat.split)

lemma spread_sum:
  assumes "set ws \<subseteq> {..<length r}" "0 \<le> x" "\<forall>y \<in> set r. 0 \<le> y"
  shows "sum_list (foldl (\<lambda>r w. r[w := r ! w + x]) r ws) = sum_list r + of_nat (length ws) * (x :: rat) \<and>
         length (foldl (\<lambda>r w. r[w := r ! w + x]) r ws) = length r \<and>
         (\<forall>y \<in> set (foldl (\<lambda>r w. r[w := r ! w + x]) r ws). 0 \<le> y)"
  using assms
proof (induction ws arbitrary: r)
  case (Cons w ws)
  let ?r = "r[w := r ! w + x]"
  have "sum_list ?r = sum_list r + x"
    using Cons.prems(1) by (simp add: sum_list_bump)
  moreover have "\<forall>y \<in> set ?r. 0 \<le> y"
    using Cons.prems set_update_subset_insert [of r w "r ! w + x"] nth_mem [of w r] by force
  ultimately show ?case
    using Cons.IH [of ?r] Cons.prems by (simp add: algebra_simps)
qed simp

definition is_ranks :: "csr \<Rightarrow> rat list \<Rightarrow> bool" where
  "is_ranks c r \<longleftrightarrow> length r = cs_node_count c \<and> (\<forall>y \<in> set r. 0 \<le> y) \<and> sum_list r \<le> 1"

definition no_dangling :: "csr \<Rightarrow> bool" where
  "no_dangling c \<longleftrightarrow> (\<forall>u < cs_node_count c. cs_out c u \<noteq> [])"

lemma spread_fold:
  assumes "csr_law c" "0 \<le> d" "is_ranks c rank" "set ss \<subseteq> {..<cs_node_count c}"
    and "length r = cs_node_count c" "\<forall>y \<in> set r. 0 \<le> y"
  defines "out \<equiv> foldl (spread_node (\<lambda>x. x) c d rank) r ss"
  shows "length out = cs_node_count c \<and> (\<forall>y \<in> set out. 0 \<le> y) \<and>
     sum_list out = sum_list r + d * sum_list (map (\<lambda>u. if cs_out c u = [] then 0 else rank ! u) ss)"
  unfolding out_def using assms(4-6)
proof (induction ss arbitrary: r)
  case (Cons u ss)
  have u: "u < cs_node_count c" "cs_out_degree c u = length (cs_out c u)" "set (outs c u) \<subseteq> {..<length r}"
    using Cons.prems(1,2) assms(1) unfolding csr_law_def by auto
  have pos: "0 \<le> rank ! u"
    using assms(3) u(1) by (simp add: is_ranks_def)
  let ?x = "d * rank ! u / of_nat (length (cs_out c u))"
  let ?r = "spread_node (\<lambda>x. x) c d rank r u"
  have "?r = (if cs_out c u = [] then r else foldl (\<lambda>r w. r[w := r ! w + ?x]) r (outs c u))"
    by (simp add: spread_node_def u(2) Let_def)
  then have "length ?r = cs_node_count c" "\<forall>y \<in> set ?r. 0 \<le> y"
      "sum_list ?r = sum_list r + (if cs_out c u = [] then 0 else d * rank ! u)"
    using spread_sum [OF u(3), of ?x] Cons.prems(2,3) assms(2) pos by auto
  then show ?case
    using Cons.IH [of ?r] Cons.prems(1) by (simp add: algebra_simps)
qed simp

lemma pagerank_step_ok:
  assumes "csr_law c" "0 \<le> d" "d \<le> 1" "is_ranks c tele" "sum_list tele = 1" "is_ranks c rank"
  shows "is_ranks c (pagerank_step (\<lambda>x. x) c d tele rank) \<and>
     (no_dangling c \<longrightarrow> sum_list rank = 1 \<longrightarrow> sum_list (pagerank_step (\<lambda>x. x) c d tele rank) = 1)"
proof -
  let ?r = "map (\<lambda>t. (1 - d) * t) tele"
  let ?n = "cs_node_count c"
  let ?flow = "sum_list (map (\<lambda>u. if cs_out c u = [] then 0 else rank ! u) [0..<?n])"
  have len: "length rank = ?n" "\<forall>y \<in> set rank. 0 \<le> y" "sum_list rank \<le> 1"
    using assms(6) by (simp_all add: is_ranks_def)
  have all: "sum_list (map (\<lambda>u. rank ! u) [0..<?n]) = sum_list rank"
    using map_nth [of rank] by (simp add: len)
  have "?flow \<le> sum_list (map (\<lambda>u. rank ! u) [0..<?n])"
    using len by (intro sum_list_mono) auto
  then have flow: "d * ?flow \<le> d"
    using all len(3) assms(2) by (intro mult_left_le) simp_all
  have whole: "?flow = sum_list rank" if "no_dangling c"
  proof -
    have "?flow = sum_list (map (\<lambda>u. rank ! u) [0..<?n])"
      using that by (intro arg_cong [of _ _ sum_list] map_cong) (simp_all add: no_dangling_def)
    then show ?thesis
      using all by simp
  qed
  have sr: "sum_list ?r = 1 - d"
    using assms(5) by (simp add: sum_list_const_mult)
  have "\<forall>y \<in> set ?r. 0 \<le> y"
    using assms(3,4) by (auto simp: is_ranks_def)
  moreover have "set [0..<?n] \<subseteq> {..<?n}"
    by auto
  ultimately show ?thesis
    using spread_fold [OF assms(1,2,6), of "[0..<?n]" ?r] assms(4) sr flow whole
    by (auto simp: pagerank_step_def is_ranks_def)
qed

lemma pagerank_loop_ok:
  assumes "csr_law c" "0 \<le> d" "d \<le> 1" "is_ranks c tele" "sum_list tele = 1" "is_ranks c rank"
  shows "is_ranks c (pagerank_loop (\<lambda>x. x) c d tol tele k rank) \<and>
     (no_dangling c \<longrightarrow> sum_list rank = 1 \<longrightarrow> sum_list (pagerank_loop (\<lambda>x. x) c d tol tele k rank) = 1)"
  using assms(6)
proof (induction k arbitrary: rank)
  case (Suc k)
  show ?case
    using pagerank_step_ok [OF assms(1-5) Suc.prems] Suc.IH by (simp add: Let_def)
qed simp

definition personal_ok :: "algo_params \<Rightarrow> bool" where
  "personal_ok params \<longleftrightarrow>
     (case ap_personalization params of None \<Rightarrow> True | Some m \<Rightarrow> \<forall>k. 0 \<le> hm_get_or 0 m k)"

lemma uniform_ok: "0 < cs_node_count c \<Longrightarrow> is_ranks c (uniform_rank (\<lambda>x. x) (cs_node_count c)) \<and>
    sum_list (uniform_rank (\<lambda>x. x) (cs_node_count c)) = 1"
  by (simp add: is_ranks_def uniform_rank_def sum_list_replicate)

lemma normalised:
  assumes "\<forall>x \<in> set v. 0 \<le> x" "0 < sum_list (v :: rat list)"
  shows "sum_list (map (\<lambda>x. x / sum_list v) v) = 1" "\<forall>x \<in> set (map (\<lambda>x. x / sum_list v) v). 0 \<le> x"
proof -
  have "sum_list (map (\<lambda>x. x / a) v) = sum_list v / a" for a
    by (induction v) (simp_all add: add_divide_distrib)
  then show "sum_list (map (\<lambda>x. x / sum_list v) v) = 1"
    using assms(2) by simp
  show "\<forall>x \<in> set (map (\<lambda>x. x / sum_list v) v). 0 \<le> x"
    using assms by auto
qed

lemma teleport_ok:
  assumes "0 < cs_node_count c" "personal_ok params"
  shows "is_ranks c (teleport (\<lambda>x. x) c params) \<and> sum_list (teleport (\<lambda>x. x) c params) = 1"
proof (cases "ap_personalization params")
  case None
  then show ?thesis
    using uniform_ok [OF assms(1)] by (simp add: teleport_def Let_def)
next
  case (Some m)
  define v where "v = map (\<lambda>i. hm_get_or 0 m (cs_name c i)) [0..<cs_node_count c]"
  have v: "\<forall>x \<in> set v. 0 \<le> x" "length v = cs_node_count c"
    using assms(2) Some by (auto simp: personal_ok_def v_def)
  have t: "teleport (\<lambda>x. x) c params =
      (if sum_list v < UNIFORM_FALLBACK_THRESHOLD then uniform_rank (\<lambda>x. x) (cs_node_count c)
       else map (\<lambda>x. x / sum_list v) v)"
    using Some unfolding teleport_def Let_def fsum_exact v_def by simp
  show ?thesis
  proof (cases "sum_list v < UNIFORM_FALLBACK_THRESHOLD")
    case True
    then show ?thesis
      using uniform_ok [OF assms(1)] by (simp add: t)
  next
    case False
    then have "0 < sum_list v"
      by (simp add: UNIFORM_FALLBACK_THRESHOLD_def)
    from normalised [OF v(1) this] False v(2) show ?thesis
      unfolding t is_ranks_def by simp
  qed
qed

subsection \<open>Properties\<close>

text \<open>C39. Weakly connected components are exact: the union-find loop ends, and two nodes get the same
  component id exactly when a path joins them that may follow edges in either direction.\<close>

theorem wcc_components:
  assumes "csr_law c"
  shows "\<exists>ids. wcc c = Some (map (\<lambda>i. [VString (cs_name c i), VInteger (int (ids i))]) [0..<cs_node_count c]) \<and>
     (\<forall>i < cs_node_count c. \<forall>j < cs_node_count c. ids i = ids j \<longleftrightarrow> (i, j) \<in> (edges c \<union> (edges c)\<inverse>)\<^sup>*)"
proof (cases "cs_node_count c = 0")
  case False
  obtain ids where "wcc_ids c = Some ids"
      "\<forall>i < cs_node_count c. \<forall>j < cs_node_count c. ids ! i = ids ! j \<longleftrightarrow> (i, j) \<in> weak (edges c)"
    using wcc_ids_ok [OF assms] by blast
  then show ?thesis
    using False by (intro exI [of _ "\<lambda>i. ids ! i"]) (simp add: wcc_def node_rows_def)
qed (simp add: wcc_def)

text \<open>C38. Single-source shortest paths are exact hop counts: for a known source and a floating-point
  rounding that is exact on the integers up to \<open>2^53\<close>, the search ends, every node reached has the
  length of a shortest directed path from the source, counted in edges whatever their weights, and
  every other node has infinity.\<close>

theorem sssp_shortest:
  assumes "csr_law c" "float_exact rnd" "ap_source_node params = Some s" "cs_id c s = Some src"
  shows "\<exists>d. sssp rnd c params = Some (map (\<lambda>i. [VString (cs_name c i), VFloat (d i)]) [0..<cs_node_count c]) \<and>
     (\<forall>i < cs_node_count c.
        (\<forall>k. d i = Finite (of_nat k) \<longleftrightarrow> (src, i) \<in> edges c ^^ k \<and> (\<forall>j < k. (src, i) \<notin> edges c ^^ j)) \<and>
        (d i = Infinity \<longleftrightarrow> (src, i) \<notin> (edges c)\<^sup>*))"
proof -
  have src: "src < cs_node_count c"
    using assms(1,4) by (simp add: csr_law_def)
  obtain ds where ds: "hop_table c src ds"
    "sssp rnd c params = Some (map (\<lambda>i. [VString (cs_name c i), VFloat (enc_f64 (ds ! i))]) [0..<cs_node_count c])"
    using sssp_rows [OF assms(1,2) _ assms(3,4)] src by auto
  have "enc_f64 (ds ! i) = Finite (of_nat k) \<longleftrightarrow> hops c src i k" if "i < cs_node_count c" for i k
    using ds(1) that hops_unique [of c src i] by (auto simp: hop_table_def enc_f64_def split: option.splits)
  moreover have "enc_f64 (ds ! i) = Infinity \<longleftrightarrow> (src, i) \<notin> (edges c)\<^sup>*" if "i < cs_node_count c" for i
  proof -
    have "enc_f64 (ds ! i) = Infinity \<longleftrightarrow> ds ! i = None"
      by (cases "ds ! i") (simp_all add: enc_f64_def)
    also have "\<dots> \<longleftrightarrow> (\<nexists>k. hops c src i k)"
      using ds(1) that by (cases "ds ! i") (auto simp: hop_table_def)
    finally show ?thesis
      by (simp only: hops_reach)
  qed
  ultimately show ?thesis
    using ds(2) by (intro exI [of _ "\<lambda>i. enc_f64 (ds ! i)"]) (simp add: hops_def)
qed

text \<open>C37. The core decomposition is exact: the peeling loops end, and the number reported for a node is
  the greatest \<open>k\<close> for which the node lies in a set of nodes that each have at least \<open>k\<close> edges,
  incoming and outgoing together, within the set, cast to 32 bits.\<close>

theorem kcore_exact:
  assumes "csr_law c"
  shows "\<exists>core. kcore c = Some (map (\<lambda>i. [VString (cs_name c i), VInteger (int (core i mod 2 ^ 32))]) [0..<cs_node_count c]) \<and>
     (\<forall>i < cs_node_count c. \<forall>k. k \<le> core i \<longleftrightarrow> in_core c k i)"
  using assms by (rule kcore_cores)

text \<open>Diameter and radius are exact: the two numbers reported are the greatest eccentricity of a
  node and the least positive one, where the eccentricity counts the hops to the farthest node that
  can be reached; both are 0 when no node reaches another.\<close>

theorem diameter_exact:
  assumes "csr_law c" "0 < cs_node_count c"
  shows "diameter c =
     (let E = ecc c ` {..<cs_node_count c}
      in Some [[VInteger (int (Max E)), VInteger (int (if E = {0} then 0 else Min (E - {0})))]])"
  using diameter_rows [OF assms] by (simp add: Let_def)

text \<open>PageRank keeps a distribution. Without rounding, for a damping factor between 0 and 1 and a
  personalization without negative weights, every rank is non-negative and the ranks sum to at most
  1 after any number of iterations; they sum to exactly 1 when every node has an outgoing edge.\<close>

theorem pagerank_distribution:
  assumes "csr_law c" "0 < cs_node_count c" "0 \<le> ap_damping params" "ap_damping params \<le> 1" "personal_ok params"
  shows "\<exists>r. pagerank (\<lambda>x. x) c params = map (\<lambda>i. [VString (cs_name c i), VFloat (Finite (r ! i))]) [0..<cs_node_count c] \<and>
     length r = cs_node_count c \<and> (\<forall>x \<in> set r. 0 \<le> x) \<and> sum_list r \<le> 1 \<and> (no_dangling c \<longrightarrow> sum_list r = 1)"
proof -
  let ?tele = "teleport (\<lambda>x. x) c params"
  have t: "is_ranks c ?tele" "sum_list ?tele = 1"
    using teleport_ok [OF assms(2,5)] by simp_all
  show ?thesis
    using pagerank_loop_ok [OF assms(1,3,4) t t(1), of "ap_tolerance params" "ap_iterations params 20"] t(2) assms(2)
    by (intro exI [of _ "pagerank_ranks (\<lambda>x. x) c params"])
      (simp add: pagerank_def node_rows_def pagerank_ranks_def Let_def is_ranks_def)
qed

text \<open>C40. Every graph algorithm ends: on indexes that keep the contract of the graph crate, a call
  returns a result for each of the thirteen algorithms and every choice of parameters. The only
  errors are a poisoned lock and an unknown collection.\<close>

theorem run_algo_ends:
  assumes "\<And>c. hm_get csr_map (ap_collection params) = Some c \<Longrightarrow> csr_law c" "float_exact (ae_rnd env)"
  shows "\<exists>r. run_algo env poisoned csr_map algorithm params = Some r \<and>
     (is_ok r \<longleftrightarrow> \<not> poisoned \<and> hm_get csr_map (ap_collection params) \<noteq> None)"
proof (cases "hm_get csr_map (ap_collection params)")
  case (Some c)
  then obtain rows where "algo_rows env c params algorithm = Some rows"
    using algo_rows_end [OF assms(1) assms(2)] by blast
  then show ?thesis
    using Some by (simp add: run_algo_def)
qed (simp add: run_algo_def)

subsection \<open>Witnesses\<close>

text \<open>Two nodes joined by one edge, and a third on its own.\<close>

definition demo_csr :: csr where
  "demo_csr =
     \<lparr>cs_node_count = 3, cs_out = (\<lambda>u. if u = 0 then [(0, 1)] else []), cs_in = (\<lambda>u. if u = 1 then [(0, 0)] else []),
      cs_name = (\<lambda>u. if u = 0 then ''a'' else if u = 1 then ''b'' else ''c''),
      cs_id = (\<lambda>s. if s = ''a'' then Some 0 else None),
      cs_out_degree = (\<lambda>u. if u = 0 then 1 else 0), cs_in_degree = (\<lambda>u. if u = 1 then 1 else 0),
      cs_edge_count = 1, cs_weighted = False\<rparr>"

definition demo_params :: algo_params where
  "demo_params =
     \<lparr>ap_collection = ''g'', ap_damping = 85 / 100, ap_iterations = (\<lambda>n. n), ap_tolerance = 1 / 1000,
      ap_personalization = None, ap_source_node = Some ''a'', ap_sample_size = None, ap_direction = None\<rparr>"

lemma demo_csr_law: "csr_law demo_csr"
  by (simp add: csr_law_def demo_csr_def)

lemma float_exact_id: "float_exact (\<lambda>x. x)"
  by (simp add: float_exact_def)

theorem wcc_components_witness:
  "\<exists>ids. wcc demo_csr = Some (map (\<lambda>i. [VString (cs_name demo_csr i), VInteger (int (ids i))]) [0..<3]) \<and> ids 0 = ids 1"
proof -
  have n: "cs_node_count demo_csr = 3"
    by (simp add: demo_csr_def)
  have "(0, 1) \<in> (edges demo_csr \<union> (edges demo_csr)\<inverse>)\<^sup>*"
    by (rule r_into_rtrancl) (simp add: edges_def demo_csr_def)
  moreover obtain ids where "wcc demo_csr = Some (map (\<lambda>i. [VString (cs_name demo_csr i), VInteger (int (ids i))]) [0..<3])"
      "\<forall>i < 3. \<forall>j < 3. ids i = ids j \<longleftrightarrow> (i, j) \<in> (edges demo_csr \<union> (edges demo_csr)\<inverse>)\<^sup>*"
    using wcc_components [OF demo_csr_law] unfolding n by blast
  ultimately show ?thesis
    by (intro exI [of _ ids]) simp
qed

theorem sssp_shortest_witness:
  "\<exists>d. sssp (\<lambda>x. x) demo_csr demo_params = Some (map (\<lambda>i. [VString (cs_name demo_csr i), VFloat (d i)]) [0..<3]) \<and>
     d 1 = Finite 1"
proof -
  have n: "cs_node_count demo_csr = 3" "ap_source_node demo_params = Some ''a''" "cs_id demo_csr ''a'' = Some 0"
    by (simp_all add: demo_csr_def demo_params_def)
  have "(0, 1) \<in> edges demo_csr ^^ 1" "\<forall>j < 1. (0, 1) \<notin> edges demo_csr ^^ j"
    by (simp_all add: edges_def demo_csr_def)
  moreover obtain d where
      "sssp (\<lambda>x. x) demo_csr demo_params = Some (map (\<lambda>i. [VString (cs_name demo_csr i), VFloat (d i)]) [0..<3])"
      "\<forall>i < 3. \<forall>k. d i = Finite (of_nat k) \<longleftrightarrow>
         (0, i) \<in> edges demo_csr ^^ k \<and> (\<forall>j < k. (0, i) \<notin> edges demo_csr ^^ j)"
    using sssp_shortest [OF demo_csr_law float_exact_id n(2,3)] unfolding n(1) by blast
  moreover from this(2) have "d 1 = Finite (of_nat 1) \<longleftrightarrow>
      (0, 1) \<in> edges demo_csr ^^ 1 \<and> (\<forall>j < 1. (0, 1) \<notin> edges demo_csr ^^ j)"
    by (metis one_less_numeral_iff semiring_norm(77))
  ultimately show ?thesis
    by (intro exI [of _ d]) (simp only: of_nat_1)
qed

theorem kcore_exact_witness:
  "\<exists>core. kcore demo_csr = Some (map (\<lambda>i. [VString (cs_name demo_csr i), VInteger (int (core i mod 2 ^ 32))]) [0..<3]) \<and> 1 \<le> core 0"
proof -
  have n: "cs_node_count demo_csr = 3"
    by (simp add: demo_csr_def)
  have "in_core demo_csr 1 0"
    unfolding in_core_def by (intro exI [of _ "{0, 1}"]) (auto simp: deg_in_def demo_csr_def)
  moreover obtain core where
      "kcore demo_csr = Some (map (\<lambda>i. [VString (cs_name demo_csr i), VInteger (int (core i mod 2 ^ 32))]) [0..<3])"
      "\<forall>i < 3. \<forall>k. k \<le> core i \<longleftrightarrow> in_core demo_csr k i"
    using kcore_exact [OF demo_csr_law] unfolding n by blast
  ultimately show ?thesis
    by (intro exI [of _ core]) simp
qed

theorem diameter_exact_witness:
  "diameter demo_csr =
     (let E = ecc demo_csr ` {..<3}
      in Some [[VInteger (int (Max E)), VInteger (int (if E = {0} then 0 else Min (E - {0})))]])"
proof -
  have n: "cs_node_count demo_csr = 3" "0 < cs_node_count demo_csr"
    by (simp_all add: demo_csr_def)
  show ?thesis
    using diameter_exact [OF demo_csr_law n(2)] unfolding n(1) .
qed

theorem pagerank_distribution_witness:
  "\<exists>r. pagerank (\<lambda>x. x) demo_csr demo_params = map (\<lambda>i. [VString (cs_name demo_csr i), VFloat (Finite (r ! i))]) [0..<3] \<and>
     sum_list r \<le> 1"
proof -
  have n: "cs_node_count demo_csr = 3" "0 \<le> ap_damping demo_params" "ap_damping demo_params \<le> 1" "personal_ok demo_params"
    by (simp_all add: demo_csr_def demo_params_def personal_ok_def)
  then have pos: "0 < cs_node_count demo_csr"
    by simp
  show ?thesis
    using pagerank_distribution [OF demo_csr_law pos n(2-4)] unfolding n(1) by blast
qed

theorem run_algo_ends_witness:
  "\<exists>r. run_algo \<lparr>ae_rnd = \<lambda>x. x, ae_label_order = \<lambda>m. m, ae_community_order = \<lambda>m. m, ae_schema = \<lambda>_. []\<rparr>
     False [(''g'', demo_csr)] KCore demo_params = Some r \<and> is_ok r"
proof -
  let ?env = "\<lparr>ae_rnd = \<lambda>x. x, ae_label_order = \<lambda>m. m, ae_community_order = \<lambda>m. m, ae_schema = \<lambda>_. []\<rparr>"
  have g: "hm_get [(''g'', demo_csr)] (ap_collection demo_params) = Some demo_csr"
    by (simp add: demo_params_def)
  have m: "csr_law c" if "hm_get [(''g'', demo_csr)] (ap_collection demo_params) = Some c" for c
    using that demo_csr_law unfolding g by simp
  have f: "float_exact (ae_rnd ?env)"
    using float_exact_id by simp
  show ?thesis
    using run_algo_ends [of "[(''g'', demo_csr)]" demo_params ?env False KCore, OF m f] g by simp
qed

end
