(* ===== verification/Spec2Isabelle.thy ===== *)
theory Spec2Isabelle
  imports Stream_Seq Vector_Clock Flow_Control Staged_Queues Sync_Transport
    Document_History Graph_Correct
begin

text \<open>
  A verification development for NodeDB Lite, the embedded edition of NodeDB. All paths below are
  relative to \<open>src/nodedb-lite/src/\<close>.

  \<^bold>\<open>The program.\<close> A key-value storage layer (\<open>storage/\<close>) holds every row of the database under a
  namespace. Engines (\<open>engine/\<close>) keep documents, vectors, text, series, graphs and arrays in it, and
  the query layer (\<open>query/\<close>) runs statements on the engines. Local writes are queued durably for the
  server, which is called Origin (\<open>sync/outbound/\<close>, \<open>sync/array/\<close>); a client with a push loop, a ping
  loop and a receive loop (\<open>sync/client/\<close>, \<open>sync/transport/\<close>) sends them, retires what Origin
  acknowledges and applies what Origin sends. The development models the storage layer, the outbound
  queues, the sync client and transport, the version history of documents and the graph algorithms.

  \<^bold>\<open>Theories and the code they model.\<close>
  \<^item> \<open>Lite_Prelude\<close>, \<open>Text_Lib\<close>: machine integers and their byte and decimal codecs, hash maps as
    association lists, results as sums, ordered scans (\<open>entries_where\<close>), UTF-8.
  \<^item> \<open>Storage_Engine\<close>: \<open>storage/engine.rs\<close>. The trait is a record of operations; its contract is the
    locales \<open>kv_store\<close> and \<open>storage_engine\<close> over an abstraction to rows.
  \<^item> \<open>Pagedb_Storage\<close>: \<open>storage/pagedb_storage/\<close>, the backend over the external tree of the \<open>pagedb\<close>
    crate, whose laws are the locale \<open>pagedb_api\<close>. Shown: the whole storage contract, both paths of a
    batch, budgeted scans and paging.
  \<^item> \<open>Encrypted_Storage\<close>: \<open>storage/encrypted/\<close>, the wrapper over any engine. Shown: it keeps the
    contract on the decrypted rows; reopening derives the same cipher.
  \<^item> \<open>Outbound_Queue\<close>: \<open>sync/outbound/queue.rs\<close>, \<open>durable_queue.rs\<close>, \<open>reconcile.rs\<close>. The locale
    \<open>outbound_store\<close> is what a queue needs of storage. Shown: a queue refines a first-in first-out
    list over runs with failures, crashes and reopens.
  \<^item> \<open>Engine_Queues\<close>, \<open>Staged_Queues\<close>: \<open>sync/outbound/columnar.rs\<close>, \<open>vector.rs\<close>, \<open>timeseries.rs\<close>, \<open>kv.rs\<close>,
    \<open>spatial.rs\<close>, \<open>fts/\<close>. Shown: drains are in order and skip what is in flight, a retire removes the
    named write, a flush of a staging buffer conserves entries, and where it does not.
  \<^item> \<open>Stream_Seq\<close>, \<open>Vector_Clock\<close>, \<open>Flow_Control\<close>: \<open>sync/stream_seq.rs\<close>, \<open>clock.rs\<close>, \<open>flow_control.rs\<close>.
    Shown: sequence numbers are not reused when calls are serialised, and are when they overlap; merge
    is a least upper bound; the push window and the batch size stay in bounds.
  \<^item> \<open>Sync_Support\<close>: \<open>sync/shapes.rs\<close>, \<open>compensation.rs\<close>, \<open>client/row_push_reject.rs\<close>,
    \<open>array/reject_policy.rs\<close>, \<open>array/replica_state.rs\<close>.
  \<^item> \<open>Array_Store\<close>, \<open>Array_Push\<close>: \<open>sync/array/pending.rs\<close>, \<open>op_log_store.rs\<close>, \<open>outbound.rs\<close>,
    \<open>schema_registry.rs\<close>, \<open>client/array_push.rs\<close>, \<open>transport/push/array.rs\<close>. Shown: the pending queue
    refines a map keyed by clock, range reads are exact, schemas survive a restart, and in every
    interleaving of a session with Origin an op the client confirms is one Origin applied.
  \<^item> \<open>Sync_Client\<close>, \<open>Client_Runs\<close>: \<open>sync/client/\<close>, every method as a function on a record, and runs of
    calls with their invariants.
  \<^item> \<open>Sync_Transport\<close>: \<open>sync/transport/\<close>, the iterations of the loops, dispatch, handshake and retry.
  \<^item> \<open>Document_History\<close>: \<open>engine/document/history/\<close>. Shown: the rebuild of the index ends and is
    correct, current reads agree with the history, point-in-time reads are exact.
  \<^item> \<open>Graph_Algorithms\<close>, \<open>Graph_Correct\<close>: \<open>query/graph_ops/algorithms.rs\<close>. Shown: every algorithm ends;
    components, shortest paths, diameter and cores are exact; PageRank keeps a distribution.

  \<^bold>\<open>Conventions.\<close> A struct is a record and an operation a function that returns the new state; an error
  is \<open>Inl\<close>. A \<open>u64\<close> is a 64-bit word where it can wrap and \<open>usize\<close> is a natural with its bound written
  out. A mutex that is held for a whole operation makes it one step; where the code releases a lock or
  awaits between two parts, the parts are separate definitions or carry what other tasks do in between
  as an argument. Code outside the sources is a parameter, and what is relied on of it is a locale or a
  named law that a demonstration instance satisfies. The storage contract says that a call that returns
  an error changed nothing; a backend that reports an error after it committed is outside of it.
  Floating-point values are rationals with the rounding as an argument.

  \<^bold>\<open>Loops.\<close> Loops over lists recurse on the list. Loops that might not end are partial functions into
  \<open>option\<close> (\<open>page_through\<close>, \<open>backfill_loop\<close>, \<open>uf_find\<close>, \<open>queue_loop\<close>, \<open>kc_peel\<close>, \<open>kc_loop\<close>) and are shown to
  return; there is no fuel. Iteration limits in the code (label propagation, PageRank) are numbers.

  \<^bold>\<open>Not modelled.\<close> The engines other than the document history, the secondary indexes, the query layer
  other than the graph algorithms, and the database core work on data structures and plan types of
  external crates (Loro, DataFusion, \<open>nodedb_sql\<close>, \<open>nodedb_physical\<close>, \<open>nodedb_array\<close>, \<open>nodedb_vector\<close>) that
  are not part of the sources, so their handlers cannot be stated without inventing those types. The
  pushes and acknowledgement handlers of the single engines are a list of steps and a function in the
  transport model. Opening files, sockets, task spawning, frame codecs, configuration, identity files
  and the bindings for C, JNI and JavaScript are input and output.
\<close>

end
